(* ===== verification/Prelude.thy ===== *)
theory Prelude
  imports Main "HOL-Library.Word" "HOL-Library.Monad_Syntax"
begin

unbundle bit_operations_syntax

text \<open>
  Shared vocabulary of the development: the C integer types of \<open>kernel/types.h\<close>, the option
  monad in which an operation that panics (or that cannot return by itself) is \<open>None\<close>, and the
  generic facts on words, options and first-fit searches that the component theories use.
\<close>

section \<open>Machine integers of kernel/types.h\<close>

type_synonym uchar = "8 word"
type_synonym ushort = "16 word"
type_synonym uint = "32 word"
type_synonym uint64 = "64 word"

text \<open>A byte-addressed store and a block of bytes addressed by offset.\<close>

type_synonym memory = "uint64 \<Rightarrow> uchar"
type_synonym bytes = "nat \<Rightarrow> uchar"

named_theorems kdefs \<open>definitions that a symbolic execution of kernel code unfolds\<close>
named_theorems frame \<open>what an operation leaves unchanged\<close>

section \<open>Calls that do not return\<close>

text \<open>
  \<open>panic(msg)\<close> never returns; \<open>panic_if c msg\<close> is the statement
  \<^verbatim>\<open>if(c) panic(msg);\<close> inside a \<open>do\<close> block over \<open>option\<close>.
\<close>

definition panic :: "string \<Rightarrow> 'a option" where
  "panic msg = None"

definition panic_if :: "bool \<Rightarrow> string \<Rightarrow> unit option" where
  "panic_if c msg = (if c then panic msg else Some ())"

lemma panic_None [simp]: "panic msg = None"
  by (simp add: panic_def)

lemma panic_if_simps [simp]:
  "panic_if True msg = None" "panic_if False msg = Some ()"
  by (simp_all add: panic_if_def)

lemma panic_if_eq_Some [simp]: "panic_if c msg = Some u \<longleftrightarrow> \<not> c"
  by (auto simp: panic_if_def)

lemma panic_if_eq_None [simp]: "panic_if c msg = None \<longleftrightarrow> c"
  by (auto simp: panic_if_def)

lemma bind_panic_if [simp]: "(panic_if c msg \<bind> f) = (if c then None else f ())"
  by (simp add: panic_if_def)

section \<open>Words\<close>

lemma unat_lt2p: "unat (w :: 'a::len word) < 2 ^ LENGTH('a)"
  by (rule unsigned_less)

lemma unat_inj: "unat a = unat b \<Longrightarrow> a = (b :: 'a::len word)"
  by (rule unsigned_word_eqI)

lemma unat_add_small:
  fixes a b :: "'a::len word"
  assumes "unat a + unat b < 2 ^ LENGTH('a)"
  shows "unat (a + b) = unat a + unat b"
  using assms by (simp add: unat_word_ariths)

lemma unat_of_nat_small:
  assumes "n < 2 ^ LENGTH('a)"
  shows "unat (of_nat n :: 'a::len word) = n"
  using assms by (simp add: unat_of_nat take_bit_eq_mod)

lemma unat_add_of_nat:
  fixes a :: "'a::len word"
  assumes "unat a + n < 2 ^ LENGTH('a)"
  shows "unat (a + of_nat n) = unat a + n"
proof -
  have "n < 2 ^ LENGTH('a)"
    using assms by simp
  then show ?thesis
    using assms by (simp add: unat_add_small unat_of_nat_small)
qed

lemma word_diff_add_of_nat:
  fixes a :: "'a::len word"
  shows "a + of_nat n - a = of_nat n"
  by simp

section \<open>Little-endian encoding\<close>

text \<open>
  The value of the \<open>n\<close> bytes \<open>f 0\<close>, \<dots>, \<open>f (n - 1)\<close>, and byte \<open>i\<close> of a value, in the byte
  order of the machine (RISC-V is little-endian).
\<close>

primrec le_get :: "nat \<Rightarrow> bytes \<Rightarrow> nat" where
  "le_get 0 f = 0"
| "le_get (Suc n) f = unat (f 0) + 256 * le_get n (\<lambda>i. f (Suc i))"

definition le_byte :: "nat \<Rightarrow> bytes" where
  "le_byte v i = of_nat (v div 256 ^ i)"

lemma le_byte_Suc: "(\<lambda>i. le_byte v (Suc i)) = le_byte (v div 256)"
  by (rule ext) (simp add: le_byte_def div_mult2_eq)

lemma unat_le_byte_0: "unat (le_byte v 0) = v mod 256"
  by (simp add: le_byte_def unat_of_nat take_bit_eq_mod)

lemma le_get_le_byte: "le_get n (le_byte v) = v mod 256 ^ n"
proof (induction n arbitrary: v)
  case 0
  then show ?case by simp
next
  case (Suc n)
  have "le_get (Suc n) (le_byte v) = v mod 256 + 256 * ((v div 256) mod 256 ^ n)"
    by (simp only: le_get.simps unat_le_byte_0 le_byte_Suc Suc.IH)
  also have "\<dots> = v mod (256 * 256 ^ n)"
    by (simp only: mod_mult2_eq)
  finally show ?case by simp
qed

lemma le_get_bound: "le_get n f < 256 ^ n"
proof (induction n arbitrary: f)
  case 0
  then show ?case by simp
next
  case (Suc n)
  have "unat (f 0) < 256"
    using unat_lt2p [of "f 0"] by simp
  moreover have "le_get n (\<lambda>i. f (Suc i)) < 256 ^ n"
    by (rule Suc.IH)
  ultimately show ?case by simp
qed

lemma le_get_cong: "(\<And>i. i < n \<Longrightarrow> f i = g i) \<Longrightarrow> le_get n f = le_get n g"
proof (induction n arbitrary: f g)
  case 0
  then show ?case by simp
next
  case (Suc n)
  have "f 0 = g 0"
    using Suc.prems by simp
  moreover have "le_get n (\<lambda>i. f (Suc i)) = le_get n (\<lambda>i. g (Suc i))"
    by (rule Suc.IH) (simp add: Suc.prems)
  ultimately show ?case by simp
qed

lemma le_get_unique:
  assumes "le_get n f = le_get n g" and "i < n"
  shows "f i = g i"
  using assms
proof (induction n arbitrary: f g i)
  case 0
  then show ?case by simp
next
  case (Suc n)
  have f: "unat (f 0) < 256" and g: "unat (g 0) < 256"
    using unat_lt2p [of "f 0"] unat_lt2p [of "g 0"] by simp_all
  let ?F = "le_get n (\<lambda>i. f (Suc i))" and ?G = "le_get n (\<lambda>i. g (Suc i))"
  have eq: "unat (f 0) + 256 * ?F = unat (g 0) + 256 * ?G"
    using Suc.prems(1) by simp
  then have "(unat (f 0) + 256 * ?F) mod 256 = (unat (g 0) + 256 * ?G) mod 256"
    by (rule arg_cong)
  then have hd: "unat (f 0) = unat (g 0)"
    using f g by simp
  with eq have tl: "?F = ?G" by simp
  show ?case
  proof (cases i)
    case 0
    then show ?thesis using hd by (simp add: unat_inj)
  next
    case (Suc j)
    then show ?thesis using Suc.IH [OF tl, of j] Suc.prems(2) by simp
  qed
qed

lemma sint_of_nat_small: "n < 2 ^ 31 \<Longrightarrow> sint (of_nat n :: uint) = int n"
  by (simp add: signed_of_nat signed_take_bit_int_eq_self)

end
