(* ===== verification/Machine.thy ===== *)
theory Machine
  imports Prelude
begin

text \<open>
  The hardware the kernel runs on, as far as the C code sees it: byte-addressed physical memory,
  the harts with the interrupt-enable bit of \<open>sstatus\<close> and the nesting counters of
  \<open>struct cpu\<close>, and the spinlocks. All later kernel state extends the record \<open>machine\<close>.
  Operations run on the hart \<open>hart s\<close> (the \<open>tp\<close> register).
\<close>

section \<open>Constants of param.h, riscv.h and memlayout.h\<close>

definition NPROC :: nat where "NPROC = 64"
definition NCPU :: nat where "NCPU = 8"
definition NOFILE :: nat where "NOFILE = 16"
definition NFILE :: nat where "NFILE = 100"
definition NINODE :: nat where "NINODE = 50"
definition NDEV :: nat where "NDEV = 10"
definition ROOTDEV :: uint where "ROOTDEV = 1"
definition MAXARG :: nat where "MAXARG = 32"
definition MAXOPBLOCKS :: nat where "MAXOPBLOCKS = 10"
definition LOGSIZE :: nat where "LOGSIZE = MAXOPBLOCKS * 3"
definition NBUF :: nat where "NBUF = MAXOPBLOCKS * 3"
definition FSSIZE :: nat where "FSSIZE = 2000"
definition MAXPATH :: nat where "MAXPATH = 128"

definition PGSIZE :: uint64 where "PGSIZE = 4096"
definition KERNBASE :: uint64 where "KERNBASE = 0x80000000"
definition PHYSTOP :: uint64 where "PHYSTOP = KERNBASE + 128*1024*1024"

definition PGROUNDUP :: "uint64 \<Rightarrow> uint64" where
  "PGROUNDUP sz = (sz + PGSIZE - 1) AND NOT (PGSIZE - 1)"

definition PGROUNDDOWN :: "uint64 \<Rightarrow> uint64" where
  "PGROUNDDOWN a = a AND NOT (PGSIZE - 1)"

section \<open>Locks and channels\<close>

text \<open>
  Every spinlock and every sleep-lock of the kernel is a global or sits in an array of structs; it
  is named by what it belongs to. A pipe and its lock live in the page \<open>kalloc\<close> returned.
\<close>

datatype sleeplock_id = BufSleep nat | InodeSleep nat

datatype lock_id =
    KmemLock | PidLock | WaitLock | TicksLock | PrLock | ConsLock | UartLock | DiskLock
  | BcacheLock | LogLock | ItableLock | FtableLock
  | ProcLock nat | SleepLk sleeplock_id | PipeLock uint64

text \<open>\<open>struct spinlock\<close> (spinlock.h); \<open>lcpu\<close> is the \<open>cpu\<close> field, \<open>None\<close> for the null pointer.\<close>

record spinlock =
  locked :: bool
  lname :: string
  lcpu :: "nat option"

text \<open>
  The interrupt part of \<open>struct cpu\<close> (proc.h): depth of \<open>push_off\<close> nesting and whether
  interrupts were enabled before it; \<open>sie\<close> is the hart's interrupt-enable bit that
  \<open>intr_get\<close>, \<open>intr_on\<close> and \<open>intr_off\<close> (riscv.h) read and write.
\<close>

record cpu =
  noff :: int
  intena :: bool
  sie :: bool

record machine =
  hart :: nat
  cpus :: "nat \<Rightarrow> cpu"
  spin :: "lock_id \<Rightarrow> spinlock"
  phys :: memory
  kend :: uint64  \<comment> \<open>the linker symbol \<open>end\<close>: first address after the kernel image\<close>

definition mycpu :: "'a machine_scheme \<Rightarrow> cpu" where
  "mycpu s = cpus s (hart s)"

definition set_mycpu :: "cpu \<Rightarrow> 'a machine_scheme \<Rightarrow> 'a machine_scheme" where
  "set_mycpu c s = s\<lparr>cpus := (cpus s)(hart s := c)\<rparr>"

definition intr_get :: "'a machine_scheme \<Rightarrow> bool" where
  "intr_get s = sie (mycpu s)"

definition intr_on :: "'a machine_scheme \<Rightarrow> 'a machine_scheme" where
  "intr_on s = set_mycpu ((mycpu s)\<lparr>sie := True\<rparr>) s"

definition intr_off :: "'a machine_scheme \<Rightarrow> 'a machine_scheme" where
  "intr_off s = set_mycpu ((mycpu s)\<lparr>sie := False\<rparr>) s"

lemma mycpu_set_mycpu [simp]: "mycpu (set_mycpu c s) = c"
  by (simp add: mycpu_def set_mycpu_def)

lemma set_mycpu_fields [simp]:
  "hart (set_mycpu c s) = hart s" "spin (set_mycpu c s) = spin s"
  "phys (set_mycpu c s) = phys s" "kend (set_mycpu c s) = kend s"
  "set_mycpu c (set_mycpu d s) = set_mycpu c s"
  by (simp_all add: set_mycpu_def)

lemma set_mycpu_mycpu [simp]: "set_mycpu (mycpu s) s = s"
  by (simp add: set_mycpu_def mycpu_def)

lemma mycpu_upd [simp]:
  "mycpu (s\<lparr>spin := x\<rparr>) = mycpu s" "mycpu (s\<lparr>phys := y\<rparr>) = mycpu s"
  by (simp_all add: mycpu_def)

section \<open>Little-endian words in memory\<close>

text \<open>Loads and stores of 64-bit words in byte-addressed memory, as \<open>ld\<close> and \<open>sd\<close> do them.\<close>

definition load64 :: "memory \<Rightarrow> uint64 \<Rightarrow> uint64" where
  "load64 m a = of_nat (le_get 8 (\<lambda>i. m (a + of_nat i)))"

definition store64 :: "uint64 \<Rightarrow> uint64 \<Rightarrow> memory \<Rightarrow> memory" where
  "store64 a v m = (\<lambda>x. if x - a < 8 then le_byte (unat v) (unat (x - a)) else m x)"

lemma store64_in: "i < 8 \<Longrightarrow> store64 a v m (a + of_nat i) = le_byte (unat v) i"
  by (simp add: store64_def word_less_nat_alt unat_of_nat_small)

lemma store64_out: "8 \<le> x - a \<Longrightarrow> store64 a v m x = m x"
  by (simp add: store64_def leD)

lemma load64_store64 [simp]: "load64 (store64 a v m) a = v"
proof -
  have "le_get 8 (\<lambda>i. store64 a v m (a + of_nat i)) = le_get 8 (le_byte (unat v))"
    by (rule le_get_cong) (simp add: store64_in)
  also have "\<dots> = unat v"
    using unat_lt2p [of v] by (simp add: le_get_le_byte)
  finally show ?thesis
    by (simp add: load64_def)
qed

lemma load64_cong:
  "(\<And>i. i < 8 \<Longrightarrow> m (a + of_nat i) = m' (a + of_nat i)) \<Longrightarrow> load64 m a = load64 m' a"
  unfolding load64_def by (rule arg_cong [where f = of_nat]) (rule le_get_cong)

text \<open>Two aligned words are the same word or share no byte.\<close>

definition aligned :: "nat \<Rightarrow> uint64 \<Rightarrow> bool" where
  "aligned n a \<longleftrightarrow> unat a mod n = 0"

lemma aligned_add_less:
  assumes "aligned n a" and "n dvd 2 ^ 64" and "i < n"
  shows "unat (a + of_nat i) = unat a + i"
proof (rule unat_add_of_nat)
  obtain k where k: "(2::nat) ^ 64 = n * k"
    using assms(2) unfolding dvd_def by blast
  obtain j where j: "unat a = n * j"
    using assms(1) by (auto simp: aligned_def)
  have "n * j < n * k"
    using unat_lt2p [of a] by (simp add: j [symmetric] k [symmetric])
  then have "j < k" by simp
  then have "n * Suc j \<le> n * k" by (simp only: mult_le_mono2 Suc_leI)
  then show "unat a + i < 2 ^ LENGTH(64)"
    using assms(3) j k by simp
qed

lemma aligned_disjoint:
  assumes "aligned n a" "aligned n b" "n dvd 2 ^ 64" "i < n" "j < n" "a \<noteq> b"
  shows "a + of_nat i \<noteq> b + of_nat j"
proof
  assume "a + of_nat i = b + of_nat j"
  then have eq: "unat a + i = unat b + j"
    using aligned_add_less assms by metis
  then have "(unat a + i) div n = (unat b + j) div n" by simp
  moreover have "(unat a + i) div n = unat a div n" "(unat b + j) div n = unat b div n"
    using assms by (auto simp: aligned_def)
  ultimately have "unat a = unat b"
    using assms(1,2) by (metis aligned_def mod_mult_div_eq add.left_neutral)
  with assms(6) show False by (blast dest: unat_inj)
qed

lemma in_window_iff:
  fixes x a :: uint64
  shows "x - a < 8 \<longleftrightarrow> (\<exists>j<8. x = a + of_nat j)"
proof
  assume "x - a < 8"
  then show "\<exists>j<8. x = a + of_nat j"
    by (intro exI [of _ "unat (x - a)"]) (simp add: word_less_nat_alt)
next
  assume "\<exists>j<8. x = a + of_nat j"
  then show "x - a < 8"
    by (auto simp: word_less_nat_alt unat_of_nat_small)
qed

lemma load64_store64_other:
  assumes "aligned 8 a" "aligned 8 b" "a \<noteq> b"
  shows "load64 (store64 a v m) b = load64 m b"
proof (rule load64_cong)
  fix i :: nat assume "i < 8"
  then have "\<not> (b + of_nat i - a < 8)"
    using aligned_disjoint [OF assms(2,1)] assms(3) by (auto simp: in_window_iff)
  then show "store64 a v m (b + of_nat i) = m (b + of_nat i)"
    by (simp add: store64_def)
qed


section \<open>Page rounding\<close>

lemma and_not_mask_unat:
  fixes a :: uint64
  shows "unat (a AND NOT (mask n)) = unat a div 2 ^ n * 2 ^ n"
proof -
  have "a AND NOT (mask n) = push_bit n (drop_bit n a)"
    by (rule bit_word_eqI) (auto simp: bit_simps)
  moreover have "unat (drop_bit n a) = unat a div 2 ^ n"
    by (subst unat_drop_bit_eq) (simp add: drop_bit_eq_div)
  moreover have "unat a div 2 ^ n * 2 ^ n < 2 ^ 64"
    using le_less_trans [OF div_times_less_eq_dividend [of "unat a" "2 ^ n"]] unat_lt2p [of a] by simp
  moreover have "unat (push_bit n (drop_bit n a)) = take_bit 64 (push_bit n (unat (drop_bit n a)))"
    by (simp add: unsigned_push_bit_eq)
  ultimately show ?thesis
    by (simp add: push_bit_nat_def take_bit_nat_def)
qed

lemma PGSIZE_mask: "PGSIZE - 1 = mask 12"
  by (simp add: PGSIZE_def mask_eq_exp_minus_1)

lemma unat_PGROUNDDOWN: "unat (PGROUNDDOWN a) = unat a div 4096 * 4096"
  using and_not_mask_unat [of a 12] by (simp add: PGROUNDDOWN_def PGSIZE_mask)

lemma unat_PGROUNDUP:
  assumes "unat a + 4095 < 2 ^ 64"
  shows "unat (PGROUNDUP a) = (unat a + 4095) div 4096 * 4096"
proof -
  have "a + PGSIZE - 1 = a + of_nat 4095"
    by (simp add: PGSIZE_def)
  moreover have "unat (a + of_nat 4095) = unat a + 4095"
    by (rule unat_add_of_nat) (use assms in simp)
  ultimately have "unat (a + PGSIZE - 1) = unat a + 4095" by (simp only:)
  then show ?thesis
    using and_not_mask_unat [of "a + PGSIZE - 1" 12] by (simp add: PGROUNDUP_def PGSIZE_mask)
qed

end
