(* ===== verification/Spinlock.thy ===== *)
theory Spinlock
  imports Machine
begin

text \<open>
  kernel/spinlock.c: matched interrupt disabling (\<open>push_off\<close>, \<open>pop_off\<close>) and the spinlock
  itself. \<open>acquire\<close> is one iteration of the \<open>amoswap\<close> loop: it is \<open>None\<close> when this hart
  already holds the lock (the panic) and when another hart holds it (the loop spins until that
  hart releases). Later theories run whole critical sections with it; \<open>acquired\<close> and
  \<open>settle\<close> are the closed forms of the state inside and after such a section.
\<close>

section \<open>Operations\<close>

definition initlock :: "lock_id \<Rightarrow> string \<Rightarrow> 'a machine_scheme \<Rightarrow> 'a machine_scheme" where
  "initlock lk nm s = s\<lparr>spin := (spin s)(lk := \<lparr>locked = False, lname = nm, lcpu = None\<rparr>)\<rparr>"

definition holding :: "lock_id \<Rightarrow> 'a machine_scheme \<Rightarrow> bool" where
  "holding lk s \<longleftrightarrow> locked (spin s lk) \<and> lcpu (spin s lk) = Some (hart s)"

definition push_off :: "'a machine_scheme \<Rightarrow> 'a machine_scheme" where
  "push_off s =
     (let old = intr_get s;
          s = intr_off s;
          s = (if noff (mycpu s) = 0 then set_mycpu ((mycpu s)\<lparr>intena := old\<rparr>) s else s)
      in set_mycpu ((mycpu s)\<lparr>noff := noff (mycpu s) + 1\<rparr>) s)"

definition pop_off :: "'a machine_scheme \<Rightarrow> 'a machine_scheme option" where
  "pop_off s = do {
     panic_if (intr_get s) ''pop_off - interruptible'';
     panic_if (noff (mycpu s) < 1) ''pop_off'';
     let s = set_mycpu ((mycpu s)\<lparr>noff := noff (mycpu s) - 1\<rparr>) s;
     Some (if noff (mycpu s) = 0 \<and> intena (mycpu s) then intr_on s else s)
   }"

definition acquire :: "lock_id \<Rightarrow> 'a machine_scheme \<Rightarrow> 'a machine_scheme option" where
  "acquire lk s = do {
     let s = push_off s;
     panic_if (holding lk s) ''acquire'';
     if locked (spin s lk) then None
     else do {
       let s = s\<lparr>spin := (spin s)(lk := (spin s lk)\<lparr>locked := True\<rparr>)\<rparr>;
       Some (s\<lparr>spin := (spin s)(lk := (spin s lk)\<lparr>lcpu := Some (hart s)\<rparr>)\<rparr>)
     }
   }"

definition release :: "lock_id \<Rightarrow> 'a machine_scheme \<Rightarrow> 'a machine_scheme option" where
  "release lk s = do {
     panic_if (\<not> holding lk s) ''release'';
     let s = s\<lparr>spin := (spin s)(lk := (spin s lk)\<lparr>lcpu := None\<rparr>)\<rparr>;
     let s = s\<lparr>spin := (spin s)(lk := (spin s lk)\<lparr>locked := False\<rparr>)\<rparr>;
     pop_off s
   }"

section \<open>Well-formed lock state\<close>

text \<open>
  \<open>free lk s\<close>: nobody holds the lock, and its \<open>cpu\<close> field is null as \<open>release\<close> and
  \<open>initlock\<close> leave it. \<open>cpu_ok s\<close>: interrupts are off on this hart inside \<open>push_off\<close>.
\<close>

definition free :: "lock_id \<Rightarrow> 'a machine_scheme \<Rightarrow> bool" where
  "free lk s \<longleftrightarrow> \<not> locked (spin s lk) \<and> lcpu (spin s lk) = None"

definition cpu_ok :: "'a machine_scheme \<Rightarrow> bool" where
  "cpu_ok s \<longleftrightarrow> 0 \<le> noff (mycpu s) \<and> (0 < noff (mycpu s) \<longrightarrow> \<not> sie (mycpu s))"

text \<open>What a matched \<open>push_off\<close>/\<open>pop_off\<close> pair leaves behind: \<open>intena\<close> recorded anew at depth 0.\<close>

definition settle :: "'a machine_scheme \<Rightarrow> 'a machine_scheme" where
  "settle s = set_mycpu ((mycpu s)\<lparr>intena :=
     (if noff (mycpu s) = 0 then sie (mycpu s) else intena (mycpu s))\<rparr>) s"

definition acquired :: "lock_id \<Rightarrow> 'a machine_scheme \<Rightarrow> 'a machine_scheme" where
  "acquired lk s = (push_off s)\<lparr>spin := (spin s)(lk :=
     (spin s lk)\<lparr>locked := True, lcpu := Some (hart s)\<rparr>)\<rparr>"

lemma push_off_eq:
  "push_off s = set_mycpu \<lparr>noff = noff (mycpu s) + 1,
     intena = (if noff (mycpu s) = 0 then sie (mycpu s) else intena (mycpu s)), sie = False\<rparr> s"
  by (cases "mycpu s") (simp add: push_off_def intr_get_def intr_off_def Let_def)

lemma push_off_fields [simp]:
  "hart (push_off s) = hart s" "spin (push_off s) = spin s"
  "phys (push_off s) = phys s" "kend (push_off s) = kend s"
  by (simp_all add: push_off_eq)

lemma acquired_fields [simp]:
  "hart (acquired lk s) = hart s" "phys (acquired lk s) = phys s" "kend (acquired lk s) = kend s"
  "mycpu (acquired lk s) = mycpu (push_off s)"
  by (simp_all add: acquired_def mycpu_def)

lemma settle_fields [simp]:
  "hart (settle s) = hart s" "spin (settle s) = spin s"
  "phys (settle s) = phys s" "kend (settle s) = kend s" "settle (settle s) = settle s"
  by (simp_all add: settle_def)

lemma free_simps [simp]:
  "free lk (settle s) = free lk s" "free lk (push_off s) = free lk s"
  by (simp_all add: free_def)

lemma free_acquired [simp]: "free lk' (acquired lk s) \<longleftrightarrow> lk' \<noteq> lk \<and> free lk' s"
  by (auto simp: free_def acquired_def)

lemma cpu_ok_simps [simp]:
  "cpu_ok (settle s) = cpu_ok s"
  by (simp_all add: cpu_ok_def settle_def)

lemma cpu_ok_push_off: "cpu_ok s \<Longrightarrow> cpu_ok (push_off s)"
  by (simp add: cpu_ok_def push_off_eq)

lemma cpu_ok_acquired [simp]: "cpu_ok s \<Longrightarrow> cpu_ok (acquired lk s)"
  using cpu_ok_push_off [of s] by (simp add: cpu_ok_def)

lemma acquire_free [simp]: "free lk s \<Longrightarrow> acquire lk s = Some (acquired lk s)"
  by (simp add: acquire_def acquired_def free_def holding_def Let_def)

lemma acquire_Some_iff:
  "acquire lk s = Some t \<longleftrightarrow> \<not> locked (spin s lk) \<and> t = acquired lk s"
  by (auto simp: acquire_def acquired_def holding_def Let_def)

lemma cpu_pair_restore:
  assumes "cpu_ok s"
  shows "(let c = mycpu (push_off s)\<lparr>noff := noff (mycpu (push_off s)) - 1\<rparr>
     in if noff c = 0 \<and> intena c then c\<lparr>sie := True\<rparr> else c) = mycpu (settle s)"
  using assms
  by (cases "mycpu s") (auto simp: push_off_eq settle_def cpu_ok_def Let_def)

lemma spin_restore:
  "free lk s \<Longrightarrow> (spin s)(lk := (spin s lk)\<lparr>lcpu := None, locked := False\<rparr>) = spin s"
  by (cases "spin s lk") (auto simp: free_def)

lemma pop_off_push_off:
  assumes "cpu_ok s" "hart t = hart s" "cpus t = cpus (push_off s)"
  shows "pop_off t = Some (t\<lparr>cpus := cpus (settle s)\<rparr>)"
proof -
  have c: "mycpu t = mycpu (push_off s)"
    using assms(2,3) by (simp add: mycpu_def)
  have upd: "set_mycpu c t = t\<lparr>cpus := cpus (set_mycpu c s)\<rparr>" for c
    using assms(2,3) by (simp add: set_mycpu_def push_off_eq)
  have on: "\<not> intr_get t" "\<not> noff (mycpu t) < 1"
    using assms(1) by (simp_all add: c intr_get_def push_off_eq cpu_ok_def)
  have "pop_off t = Some (set_mycpu (mycpu (settle s)) t)"
    using on cpu_pair_restore [OF assms(1)]
    by (auto simp: pop_off_def intr_on_def c Let_def split: if_splits)
  then show ?thesis
    by (simp add: upd) (simp add: settle_def)
qed

lemma release_acquired [simp]:
  assumes "cpu_ok s" "free lk s"
  shows "release lk (acquired lk s) = Some (settle s)"
proof -
  let ?t = "acquired lk s"
  have h: "holding lk ?t"
    by (simp add: holding_def acquired_def)
  have sp: "(spin ?t)(lk := (spin ?t lk)\<lparr>lcpu := None, locked := False\<rparr>) = spin s"
    using spin_restore [OF assms(2)] by (cases "spin s lk") (simp add: acquired_def)
  have "pop_off (?t\<lparr>spin := spin s\<rparr>) = Some (?t\<lparr>spin := spin s, cpus := cpus (settle s)\<rparr>)"
    using pop_off_push_off [OF assms(1), of "?t\<lparr>spin := spin s\<rparr>"] by (simp add: acquired_def)
  then show ?thesis
    using h sp
    by (simp add: release_def Let_def)
      (simp add: acquired_def push_off_eq settle_def set_mycpu_def)
qed

text \<open>
  Lock operations commute with updates of the fields they do not touch. Each layer of kernel
  state repeats these rules for its own fields; they carry symbolic execution through a critical
  section down to \<open>release lk (acquired lk s)\<close>.
\<close>

definition rel_ok :: "lock_id \<Rightarrow> nat \<Rightarrow> (nat \<Rightarrow> cpu) \<Rightarrow> (lock_id \<Rightarrow> spinlock) \<Rightarrow> bool" where
  "rel_ok lk h c k \<longleftrightarrow> locked (k lk) \<and> lcpu (k lk) = Some h \<and> \<not> sie (c h) \<and> \<not> noff (c h) < 1"

definition rel_cpu :: "cpu \<Rightarrow> cpu" where
  "rel_cpu c = (let c = c\<lparr>noff := noff c - 1\<rparr> in if noff c = 0 \<and> intena c then c\<lparr>sie := True\<rparr> else c)"

definition push_cpu :: "cpu \<Rightarrow> cpu" where
  "push_cpu c = \<lparr>noff = noff c + 1, intena = (if noff c = 0 then sie c else intena c), sie = False\<rparr>"

definition settle_cpu :: "cpu \<Rightarrow> cpu" where
  "settle_cpu c = c\<lparr>intena := (if noff c = 0 then sie c else intena c)\<rparr>"

lemma push_off_form: "push_off s = s\<lparr>cpus := (cpus s)(hart s := push_cpu (cpus s (hart s)))\<rparr>"
  by (simp add: push_off_eq push_cpu_def set_mycpu_def mycpu_def)

lemma settle_form: "settle s = s\<lparr>cpus := (cpus s)(hart s := settle_cpu (cpus s (hart s)))\<rparr>"
  by (simp add: settle_def settle_cpu_def set_mycpu_def mycpu_def)

lemma acquired_form: "acquired lk s = s\<lparr>cpus := (cpus s)(hart s := push_cpu (cpus s (hart s))),
    spin := (spin s)(lk := (spin s lk)\<lparr>locked := True, lcpu := Some (hart s)\<rparr>)\<rparr>"
  by (simp add: acquired_def push_off_form)

lemma release_form: "release lk s =
    (if rel_ok lk (hart s) (cpus s) (spin s)
     then Some (s\<lparr>spin := (spin s)(lk := (spin s lk)\<lparr>lcpu := None, locked := False\<rparr>),
       cpus := (cpus s)(hart s := rel_cpu (cpus s (hart s)))\<rparr>) else None)"
  by (auto simp: release_def rel_ok_def rel_cpu_def holding_def pop_off_def intr_get_def intr_on_def
      mycpu_def set_mycpu_def Let_def)

lemmas lock_forms = push_off_form settle_form acquired_form release_form free_def cpu_ok_def holding_def mycpu_def

lemma acquired_settle [simp]: "acquired lk (settle s) = acquired lk s"
  by (simp add: acquired_form settle_form push_cpu_def settle_cpu_def)

lemma phys_frame [simp]:
  "release lk (phys_update f s) = map_option (phys_update f) (release lk s)"
  "acquired lk (phys_update f s) = phys_update f (acquired lk s)"
  "settle (phys_update f s) = phys_update f (settle s)"
  "free lk (phys_update f s) = free lk s" "cpu_ok (phys_update f s) = cpu_ok s"
  by (simp_all add: lock_forms)

section \<open>Nesting and mutual exclusion\<close>

primrec pop_off_n :: "nat \<Rightarrow> 'a machine_scheme \<Rightarrow> 'a machine_scheme option" where
  "pop_off_n 0 s = Some s"
| "pop_off_n (Suc n) s = do { s \<leftarrow> pop_off s; pop_off_n n s }"

lemma push_off_n_noff:
  "noff (mycpu ((push_off ^^ n) s)) = noff (mycpu s) + int n" "hart ((push_off ^^ n) s) = hart s"
  by (induction n) (simp_all add: push_off_eq)

lemma push_off_n_sie: "0 < n \<Longrightarrow> \<not> intr_get ((push_off ^^ n) s)"
  by (cases n) (simp_all add: push_off_eq intr_get_def)

lemma settle_push_off: "0 \<le> noff (mycpu s) \<Longrightarrow> settle (push_off s) = push_off s"
  by (simp add: settle_def push_off_eq)

lemma pop_off_push: "cpu_ok s \<Longrightarrow> pop_off (push_off s) = Some (settle s)"
  by (simp add: pop_off_push_off) (simp add: push_off_eq settle_def set_mycpu_def)

lemma cpu_ok_push_off_n: "cpu_ok s \<Longrightarrow> cpu_ok ((push_off ^^ n) s)"
  by (induction n) (simp_all add: cpu_ok_push_off)

lemma pop_off_n_push_off_n:
  assumes "cpu_ok s"
  shows "pop_off_n (Suc n) ((push_off ^^ Suc n) s) = Some (settle s)"
proof (induction n)
  case 0
  then show ?case using assms by (simp add: pop_off_push)
next
  case (Suc n)
  let ?t = "(push_off ^^ n) s"
  have ok: "cpu_ok ?t"
    by (rule cpu_ok_push_off_n [OF assms])
  then have "settle (push_off ?t) = push_off ?t"
    by (simp add: settle_push_off cpu_ok_def)
  then show ?case
    using Suc.IH ok by (simp add: pop_off_push cpu_ok_push_off)
qed

text \<open>Lock operations of several harts, interleaved in any order.\<close>

datatype lock_op = Acq lock_id | Rel lock_id

fun lock_op_step :: "lock_op \<Rightarrow> 'a machine_scheme \<Rightarrow> 'a machine_scheme option" where
  "lock_op_step (Acq lk) s = acquire lk s"
| "lock_op_step (Rel lk) s = release lk s"

fun run_lock_ops :: "(nat \<times> lock_op) list \<Rightarrow> 'a machine_scheme \<Rightarrow> 'a machine_scheme option" where
  "run_lock_ops [] s = Some s"
| "run_lock_ops ((h, op) # ops) s = do { s \<leftarrow> lock_op_step op (s\<lparr>hart := h\<rparr>); run_lock_ops ops s }"

lemma pop_off_spin: "pop_off s = Some t \<Longrightarrow> spin t = spin s \<and> hart t = hart s"
  by (auto simp: pop_off_def intr_on_def Let_def split: if_splits)

lemma release_spin:
  assumes "release lk s = Some t"
  shows "holding lk s" "\<And>k. k \<noteq> lk \<Longrightarrow> spin t k = spin s k" "\<not> locked (spin t lk)"
  using assms pop_off_spin by (fastforce simp: release_def Let_def split: if_splits)+

lemma other_hart_keeps_lock:
  assumes "lock_op_step op (s\<lparr>hart := g\<rparr>) = Some t" "g \<noteq> h"
    and "locked (spin s lk)" "lcpu (spin s lk) = Some h"
  shows "spin t lk = spin s lk \<and> op \<noteq> Acq lk"
proof (cases op)
  case (Acq k)
  with assms show ?thesis
    by (auto simp: acquire_Some_iff acquired_def)
next
  case (Rel k)
  with assms have "k \<noteq> lk"
    using release_spin(1) [of k "s\<lparr>hart := g\<rparr>" t] by (auto simp: holding_def)
  with Rel assms show ?thesis
    using release_spin(2) [of k "s\<lparr>hart := g\<rparr>" t lk] by simp
qed

lemma run_lock_ops_keep_lock:
  assumes "run_lock_ops ops s = Some t" "\<forall>p\<in>set ops. fst p \<noteq> h"
    and "locked (spin s lk)" "lcpu (spin s lk) = Some h"
  shows "spin t lk = spin s lk \<and> (\<forall>p\<in>set ops. snd p \<noteq> Acq lk)"
  using assms
proof (induction ops arbitrary: s)
  case Nil
  then show ?case by simp
next
  case (Cons p ops)
  obtain g op where p: "p = (g, op)" by (cases p)
  with Cons.prems(1) obtain u where
    u: "lock_op_step op (s\<lparr>hart := g\<rparr>) = Some u" "run_lock_ops ops u = Some t"
    by (auto simp: bind_eq_Some_conv)
  have "spin u lk = spin s lk \<and> op \<noteq> Acq lk"
    using other_hart_keeps_lock [OF u(1), of h lk] Cons.prems(2,3,4) p by simp
  with Cons.IH [OF u(2)] Cons.prems p show ?case by simp
qed

section \<open>Properties\<close>

text \<open>
  C10. Spinlocks give mutual exclusion. While hart h holds a lock, any interleaving of acquire() and
  release() calls of the other harts, on this and on other locks, contains no completed acquire()
  of this lock and leaves the lock held by h.
\<close>

theorem lock_mutual_exclusion:
  assumes "run_lock_ops ops s = Some t" "\<forall>p\<in>set ops. fst p \<noteq> h" "holding lk (s\<lparr>hart := h\<rparr>)"
  shows "holding lk (t\<lparr>hart := h\<rparr>) \<and> (\<forall>p\<in>set ops. snd p \<noteq> Acq lk)"
  using run_lock_ops_keep_lock [OF assms(1,2), of lk] assms(3) by (simp add: holding_def)

definition two_harts :: machine where
  "two_harts = \<lparr>hart = 0, cpus = (\<lambda>_. \<lparr>noff = 0, intena = False, sie = True\<rparr>),
     spin = (\<lambda>_. \<lparr>locked = False, lname = ''lock'', lcpu = None\<rparr>), phys = (\<lambda>_. 0), kend = 0\<rparr>"

lemma lock_mutual_exclusion_witness:
  "\<exists>s t. run_lock_ops [(0, Acq PidLock)] two_harts = Some s \<and>
     run_lock_ops [(2, Acq WaitLock), (2, Rel WaitLock)] s = Some t \<and> holding PidLock (t\<lparr>hart := 0\<rparr>)"
proof -
  let ?s = "acquired PidLock (two_harts\<lparr>hart := 0\<rparr>)"
  have free: "free lk two_harts" for lk by (simp add: two_harts_def free_def)
  have ok: "cpu_ok (?s\<lparr>hart := 2\<rparr>)" "free WaitLock (?s\<lparr>hart := 2\<rparr>)"
    by (simp_all add: two_harts_def cpu_ok_def free_def acquired_def mycpu_def push_off_eq set_mycpu_def)
  have run: "run_lock_ops [(0, Acq PidLock)] two_harts = Some ?s"
    using free [of PidLock] by (simp add: free_def)
  have "hart (acquired WaitLock (?s\<lparr>hart := 2\<rparr>)) = 2" by simp
  then have eq: "acquired WaitLock (?s\<lparr>hart := 2\<rparr>)\<lparr>hart := 2\<rparr> = acquired WaitLock (?s\<lparr>hart := 2\<rparr>)"
    by (metis machine.surjective machine.update_convs(1) machine.select_convs(1))
  have run2: "run_lock_ops [(2, Acq WaitLock), (2, Rel WaitLock)] ?s = Some (settle (?s\<lparr>hart := 2\<rparr>))"
    using ok by (simp add: eq)
  have "holding PidLock (?s\<lparr>hart := 0\<rparr>)" by (simp add: holding_def acquired_def)
  with lock_mutual_exclusion [OF run2, of 0 PidLock] run run2 show ?thesis by simp
qed



end
