(* ===== verification/Kstring.thy ===== *)
theory Kstring
  imports Machine
begin

text \<open>
  kernel/string.c on byte-addressed memory. Loops over an index run as folds over the index list;
  loops that walk pointers to a terminating NUL are recursive functions, and \<open>strlen\<close>, which has
  no bound, is \<open>None\<close> when no NUL byte follows.
\<close>

section \<open>Operations\<close>

definition set_byte :: "uint64 \<Rightarrow> uchar \<Rightarrow> nat \<Rightarrow> memory \<Rightarrow> memory" where
  "set_byte d c i m = m(d + of_nat i := c)"

definition memset :: "uint64 \<Rightarrow> uint \<Rightarrow> uint \<Rightarrow> memory \<Rightarrow> memory" where
  "memset dst c n m = fold (set_byte dst (ucast c)) [0..<unat n] m"

fun memcmp_loop :: "memory \<Rightarrow> uint64 \<Rightarrow> uint64 \<Rightarrow> nat \<Rightarrow> int" where
  "memcmp_loop m s1 s2 0 = 0"
| "memcmp_loop m s1 s2 (Suc n) =
     (if m s1 \<noteq> m s2 then uint (m s1) - uint (m s2) else memcmp_loop m (s1 + 1) (s2 + 1) n)"

definition memcmp :: "memory \<Rightarrow> uint64 \<Rightarrow> uint64 \<Rightarrow> uint \<Rightarrow> int" where
  "memcmp m v1 v2 n = memcmp_loop m v1 v2 (unat n)"

definition copy_byte :: "uint64 \<Rightarrow> uint64 \<Rightarrow> nat \<Rightarrow> memory \<Rightarrow> memory" where
  "copy_byte d s i m = m(d + of_nat i := m (s + of_nat i))"

definition memmove :: "uint64 \<Rightarrow> uint64 \<Rightarrow> uint \<Rightarrow> memory \<Rightarrow> memory" where
  "memmove dst src n m =
     (if n = 0 then m
      else if src < dst \<and> dst < src + ucast n
      then fold (copy_byte dst src) (rev [0..<unat n]) m
      else fold (copy_byte dst src) [0..<unat n] m)"

definition memcpy :: "uint64 \<Rightarrow> uint64 \<Rightarrow> uint \<Rightarrow> memory \<Rightarrow> memory" where
  "memcpy dst src n m = memmove dst src n m"

fun strncmp_loop :: "memory \<Rightarrow> uint64 \<Rightarrow> uint64 \<Rightarrow> nat \<Rightarrow> int" where
  "strncmp_loop m p q 0 = 0"
| "strncmp_loop m p q (Suc n) =
     (if m p \<noteq> 0 \<and> m p = m q then strncmp_loop m (p + 1) (q + 1) n else uint (m p) - uint (m q))"

definition strncmp :: "memory \<Rightarrow> uint64 \<Rightarrow> uint64 \<Rightarrow> uint \<Rightarrow> int" where
  "strncmp m p q n = strncmp_loop m p q (unat n)"

fun strncpy_pad :: "uint64 \<Rightarrow> nat \<Rightarrow> memory \<Rightarrow> memory" where
  "strncpy_pad s 0 m = m"
| "strncpy_pad s (Suc n) m = strncpy_pad (s + 1) n (m(s := 0))"

fun strncpy_loop :: "uint64 \<Rightarrow> uint64 \<Rightarrow> nat \<Rightarrow> memory \<Rightarrow> memory" where
  "strncpy_loop s t 0 m = m"
| "strncpy_loop s t (Suc n) m =
     (let m' = m(s := m t)
      in if m' s \<noteq> 0 then strncpy_loop (s + 1) (t + 1) n m' else strncpy_pad (s + 1) n m')"

definition strncpy :: "uint64 \<Rightarrow> uint64 \<Rightarrow> int \<Rightarrow> memory \<Rightarrow> memory" where
  "strncpy s t n m = strncpy_loop s t (nat n) m"

text \<open>The loop of \<open>safestrcpy\<close> with \<open>n\<close> the value after \<open>--n\<close>; it ends with the store \<open>*s = 0\<close>.\<close>

fun safestrcpy_loop :: "uint64 \<Rightarrow> uint64 \<Rightarrow> nat \<Rightarrow> memory \<Rightarrow> memory" where
  "safestrcpy_loop s t 0 m = m(s := 0)"
| "safestrcpy_loop s t (Suc n) m =
     (let m' = m(s := m t)
      in if m' s \<noteq> 0 then safestrcpy_loop (s + 1) (t + 1) n m' else m'(s + 1 := 0))"

definition safestrcpy :: "uint64 \<Rightarrow> uint64 \<Rightarrow> int \<Rightarrow> memory \<Rightarrow> memory" where
  "safestrcpy s t n m = (if n \<le> 0 then m else safestrcpy_loop s t (nat (n - 1)) m)"

partial_function (option) strlen_loop :: "memory \<Rightarrow> uint64 \<Rightarrow> nat \<Rightarrow> nat option" where
  "strlen_loop m s n = (if m (s + of_nat n) = 0 then Some n else strlen_loop m s (Suc n))"

definition strlen :: "memory \<Rightarrow> uint64 \<Rightarrow> nat option" where
  "strlen m s = strlen_loop m s 0"

section \<open>What the copies and fills do\<close>

text \<open>Block operations in closed form: \<open>x - d < n\<close> says that \<open>x\<close> is one of the \<open>n\<close> bytes at \<open>d\<close>.\<close>

definition fill :: "uint64 \<Rightarrow> uchar \<Rightarrow> uint64 \<Rightarrow> memory \<Rightarrow> memory" where
  "fill d c n m = (\<lambda>x. if x - d < n then c else m x)"

definition blit :: "uint64 \<Rightarrow> uint64 \<Rightarrow> uint64 \<Rightarrow> memory \<Rightarrow> memory" where
  "blit d s n m = (\<lambda>x. if x - d < n then m (s + (x - d)) else m x)"

lemma less_of_nat_Suc:
  fixes y :: uint64
  assumes "Suc n < 2 ^ 64"
  shows "y < of_nat (Suc n) \<longleftrightarrow> y = of_nat n \<or> y < of_nat n"
proof -
  have "unat (of_nat (Suc n) :: uint64) = Suc n" "unat (of_nat n :: uint64) = n"
    by (rule unat_of_nat_small, use assms in simp)+
  then show ?thesis
    by (metis less_Suc_eq unat_inj word_less_nat_alt)
qed

lemma fold_fill:
  "n < 2 ^ 64 \<Longrightarrow> fold (set_byte d c) [0..<n] m = fill d c (of_nat n) m"
proof (induction n)
  case 0
  then show ?case by (simp add: fill_def)
next
  case (Suc n)
  then have IH: "fold (set_byte d c) [0..<n] m = fill d c (of_nat n) m" by simp
  have "x - d = of_nat n \<longleftrightarrow> x = d + of_nat n" for x :: uint64
    by (auto simp: diff_eq_eq add.commute)
  then have "set_byte d c n (fill d c (of_nat n) m) = fill d c (of_nat (Suc n)) m"
    using less_of_nat_Suc [OF Suc.prems] by (auto simp: set_byte_def fill_def fun_eq_iff simp del: of_nat_Suc)
  then show ?case
    by (simp only: IH upt_Suc_append fold_append comp_apply fold.simps id_apply le0)
qed

lemma of_nat_unat_ucast: "of_nat (unat (n :: uint)) = (ucast n :: uint64)"
  by simp

lemma unat_uint_bound: "unat (n :: uint) < 2 ^ 64"
  using unat_lt2p [of n] by simp

lemma memset_eq: "memset dst c n m = fill dst (ucast c) (ucast n) m"
  unfolding memset_def by (simp add: fold_fill [OF unat_uint_bound])


text \<open>
  The direction test of \<open>memmove\<close>: whichever way the bytes go, each byte is read before it is
  overwritten, so the result is the block as it was before the call.
\<close>

lemma word_add_of_nat_neq:
  fixes d :: uint64
  assumes "i < 2 ^ 64" "j < 2 ^ 64" "i \<noteq> j"
  shows "d + of_nat i \<noteq> d + of_nat j"
proof
  assume "d + of_nat i = d + of_nat j"
  then have "unat (of_nat i :: uint64) = unat (of_nat j :: uint64)" by simp
  moreover have "unat (of_nat i :: uint64) = i" "unat (of_nat j :: uint64) = j"
    by (rule unat_of_nat_small, use assms in simp)+
  ultimately show False using assms(3) by simp
qed

text \<open>Copying byte after byte equals the block copy if no byte is read after it was overwritten.\<close>

lemma fold_copy_bytes:
  assumes "distinct is" "\<forall>i\<in>set is. i < 2 ^ 64"
    and "\<And>i j k. is ! j = i \<Longrightarrow> k < j \<Longrightarrow> j < length is \<Longrightarrow> d + of_nat (is ! k) \<noteq> s + of_nat i"
  shows "fold (copy_byte d s) is m =
    (\<lambda>x. if \<exists>i\<in>set is. x = d + of_nat i then m (s + (x - d)) else m x)"
  using assms
proof (induction "is" rule: rev_induct)
  case Nil
  then show ?case by simp
next
  case (snoc i "is")
  let ?c = "\<lambda>is x. if \<exists>i\<in>set is. x = d + of_nat i then m (s + (x - d)) else m x"
  have IH: "fold (copy_byte d s) is m = ?c is"
  proof (rule snoc.IH)
    fix i' j k
    assume *: "is ! j = i'" "k < j" "j < length is"
    then have "(is @ [i]) ! j = i'" "j < length (is @ [i])"
      by (simp_all add: nth_append)
    with *(2) have "d + of_nat ((is @ [i]) ! k) \<noteq> s + of_nat i'"
      by (intro snoc.prems(3))
    then show "d + of_nat (is ! k) \<noteq> s + of_nat i'"
      using * by (simp add: nth_append)
  qed (use snoc.prems in simp_all)
  have unread: "\<not> (\<exists>k\<in>set is. s + of_nat i = d + of_nat k)"
  proof
    assume "\<exists>k\<in>set is. s + of_nat i = d + of_nat k"
    then obtain k where "k < length is" "s + of_nat i = d + of_nat (is ! k)"
      by (metis in_set_conv_nth)
    with snoc.prems(3) [of "length is" i k] show False
      by (simp add: nth_append)
  qed
  have "copy_byte d s i (?c is) = ?c (is @ [i])"
    using unread by (auto simp: copy_byte_def fun_eq_iff)
  then show ?case
    by (simp only: IH fold_append comp_apply fold.simps id_apply)
qed


lemma in_block_iff:
  fixes x d :: uint64
  assumes "n < 2 ^ 64"
  shows "(\<exists>i\<in>{0..<n}. x = d + of_nat i) \<longleftrightarrow> x - d < of_nat n"
proof -
  have n: "unat (of_nat n :: uint64) = n"
    by (rule unat_of_nat_small) (use assms in simp)
  show ?thesis
  proof
    assume "\<exists>i\<in>{0..<n}. x = d + of_nat i"
    then obtain i where i: "i < n" "x = d + of_nat i" by auto
    then have "unat (of_nat i :: uint64) = i"
      by (intro unat_of_nat_small) (use assms in simp)
    with i n show "x - d < of_nat n" by (simp add: word_less_nat_alt)
  next
    assume "x - d < of_nat n"
    then show "\<exists>i\<in>{0..<n}. x = d + of_nat i"
      by (intro bexI [of _ "unat (x - d)"]) (auto simp: word_less_nat_alt n)
  qed
qed

lemma memmove_eq:
  assumes src: "unat src + unat n \<le> 2 ^ 64" and dst: "unat dst + unat n \<le> 2 ^ 64"
  shows "memmove dst src n m = blit dst src (ucast n) m"
proof -
  let ?n = "unat n"
  have n64: "?n < 2 ^ 64"
    by (rule unat_uint_bound)
  have at: "unat (a + of_nat i) = unat a + i" if "unat a + ?n \<le> 2 ^ 64" "i < ?n" for a :: uint64 and i
    by (rule unat_add_of_nat) (use that in simp)
  have block: "fold (copy_byte dst src) is m = blit dst src (ucast n) m"
    if "set is = {0..<?n}" "distinct is"
      and "\<And>j k. k < j \<Longrightarrow> j < length is \<Longrightarrow> dst + of_nat (is ! k) \<noteq> src + of_nat (is ! j)" for "is"
  proof -
    have "fold (copy_byte dst src) is m =
      (\<lambda>x. if \<exists>i\<in>set is. x = dst + of_nat i then m (src + (x - dst)) else m x)"
      by (rule fold_copy_bytes) (use that n64 in auto)
    then show ?thesis
      unfolding that(1) by (simp only: in_block_iff [OF n64] blit_def of_nat_unat_ucast)
  qed
  show ?thesis
  proof (cases "src < dst \<and> dst < src + ucast n")
    case True
    have "fold (copy_byte dst src) (rev [0..<?n]) m = blit dst src (ucast n) m"
    proof (rule block)
      fix j k assume kj: "k < j" "j < length (rev [0..<?n])"
      then have "rev [0..<?n] ! k = ?n - Suc k" "rev [0..<?n] ! j = ?n - Suc j"
        by (simp_all add: rev_nth)
      moreover have "unat (dst + of_nat (?n - Suc k)) = unat dst + (?n - Suc k)"
        "unat (src + of_nat (?n - Suc j)) = unat src + (?n - Suc j)"
        by (rule at [OF dst], use kj in simp) (rule at [OF src], use kj in simp)
      moreover have "unat src + (?n - Suc j) < unat dst + (?n - Suc k)"
        using True kj by (simp add: word_less_nat_alt) arith
      ultimately show "dst + of_nat (rev [0..<?n] ! k) \<noteq> src + of_nat (rev [0..<?n] ! j)"
        by (metis less_irrefl)
    qed simp_all
    with True show ?thesis
      by (auto simp: memmove_def)
  next
    case False
    have "fold (copy_byte dst src) [0..<?n] m = blit dst src (ucast n) m"
    proof (rule block)
      fix j k assume kj: "k < j" "j < length [0..<?n]"
      have "\<not> (unat dst + k = unat src + j)"
      proof
        assume eq: "unat dst + k = unat src + j"
        then have "unat src < unat dst" "unat dst < unat src + ?n"
          using kj by auto
        moreover have "unat src + ?n < 2 ^ 64"
          using \<open>unat src < unat dst\<close> dst by simp
        then have "unat (src + ucast n) = unat src + ?n"
          using unat_add_of_nat [of src ?n] by simp
        ultimately show False
          using False by (simp add: word_less_nat_alt)
      qed
      moreover have "unat (dst + of_nat k) = unat dst + k" "unat (src + of_nat j) = unat src + j"
        using kj by (simp_all add: at [OF dst] at [OF src])
      ultimately show "dst + of_nat ([0..<?n] ! k) \<noteq> src + of_nat ([0..<?n] ! j)"
        using kj by auto
    qed simp_all
    with False show ?thesis
      by (auto simp: memmove_def blit_def)
  qed
qed


section \<open>Strings\<close>

text \<open>\<open>cstring m s k\<close>: the first NUL byte at or after \<open>s\<close> is at \<open>s + k\<close>.\<close>

definition cstring :: "memory \<Rightarrow> uint64 \<Rightarrow> nat \<Rightarrow> bool" where
  "cstring m s k \<longleftrightarrow> m (s + of_nat k) = 0 \<and> (\<forall>i<k. m (s + of_nat i) \<noteq> 0)"

lemma strlen_loop_cstring:
  assumes "cstring m s k" "n \<le> k"
  shows "strlen_loop m s n = Some k"
  using assms(2)
proof (induction "k - n" arbitrary: n)
  case 0
  then have "n = k" by simp
  with assms(1) show ?case by (subst strlen_loop.simps) (simp add: cstring_def)
next
  case (Suc d)
  then have "n < k" by simp
  with assms(1) have "strlen_loop m s n = strlen_loop m s (Suc n)"
    by (subst strlen_loop.simps) (simp add: cstring_def)
  also have "\<dots> = Some k"
    using Suc.hyps(1) [of "Suc n"] Suc.hyps(2) \<open>n < k\<close> by simp
  finally show ?case .
qed

lemma strlen_loop_Some:
  assumes "strlen_loop m s n = Some k"
  shows "n \<le> k \<and> m (s + of_nat k) = 0 \<and> (\<forall>i. n \<le> i \<and> i < k \<longrightarrow> m (s + of_nat i) \<noteq> 0)"
proof (rule strlen_loop.raw_induct [where P =
      "\<lambda>m s n k. n \<le> k \<and> m (s + of_nat k) = 0 \<and> (\<forall>i. n \<le> i \<and> i < k \<longrightarrow> m (s + of_nat i) \<noteq> 0)",
      OF _ assms])
  fix f m s n k
  assume IH: "\<And>m s n k. f m s n = Some k \<Longrightarrow>
      n \<le> k \<and> m (s + of_nat k) = 0 \<and> (\<forall>i. n \<le> i \<and> i < k \<longrightarrow> m (s + of_nat i) \<noteq> 0)"
    and eq: "(if m (s + of_nat n) = 0 then Some n else f m s (Suc n)) = Some k"
  show "n \<le> k \<and> m (s + of_nat k) = 0 \<and> (\<forall>i. n \<le> i \<and> i < k \<longrightarrow> m (s + of_nat i) \<noteq> 0)"
  proof (cases "m (s + of_nat n) = 0")
    case True
    with eq show ?thesis by auto
  next
    case False
    with eq have "f m s (Suc n) = Some k" by simp
    from IH [OF this] have "Suc n \<le> k" "m (s + of_nat k) = 0"
      and tl: "\<And>i. Suc n \<le> i \<Longrightarrow> i < k \<Longrightarrow> m (s + of_nat i) \<noteq> 0" by auto
    moreover have "m (s + of_nat i) \<noteq> 0" if "n \<le> i" "i < k" for i
      using that tl [of i] False by (cases "i = n") auto
    ultimately show ?thesis by auto
  qed
qed

lemma strlen_iff: "strlen m s = Some k \<longleftrightarrow> cstring m s k"
proof
  assume "strlen m s = Some k"
  then show "cstring m s k"
    unfolding strlen_def cstring_def by (drule_tac strlen_loop_Some) simp
next
  assume "cstring m s k"
  then show "strlen m s = Some k"
    unfolding strlen_def by (rule strlen_loop_cstring) simp
qed

lemma cstring_Suc: "m s \<noteq> 0 \<Longrightarrow> cstring m s (Suc k) = cstring m (s + 1) k"
  by (auto simp: cstring_def add.assoc less_Suc_eq_0_disj)

lemma memcmp_loop_zero:
  "memcmp_loop m a b n = 0 \<longleftrightarrow> (\<forall>i<n. m (a + of_nat i) = m (b + of_nat i))"
proof (induction n arbitrary: a b)
  case 0
  then show ?case by simp
next
  case (Suc n)
  have "(\<forall>i<Suc n. m (a + of_nat i) = m (b + of_nat i)) \<longleftrightarrow>
      m a = m b \<and> (\<forall>i<n. m (a + 1 + of_nat i) = m (b + 1 + of_nat i))"
    by (auto simp: less_Suc_eq_0_disj add.assoc)
  moreover have "uint (m a) = uint (m b) \<longleftrightarrow> m a = m b"
    by (simp add: word_uint_eq_iff)
  ultimately show ?case using Suc by simp
qed


text \<open>The \<open>n\<close> bytes at \<open>s\<close> and the \<open>n\<close> bytes at \<open>t\<close> do not overlap.\<close>

definition apart :: "uint64 \<Rightarrow> uint64 \<Rightarrow> nat \<Rightarrow> bool" where
  "apart s t n \<longleftrightarrow> (\<forall>i<n. \<forall>j<n. s + of_nat i \<noteq> t + of_nat j)"

lemma apart_Suc: "apart s t (Suc n) \<Longrightarrow> apart (s + 1) (t + 1) n"
  unfolding apart_def
proof (intro allI impI)
  fix i j assume *: "\<forall>i<Suc n. \<forall>j<Suc n. s + of_nat i \<noteq> t + of_nat j" "i < n" "j < n"
  then have "s + of_nat (Suc i) \<noteq> t + of_nat (Suc j)" by blast
  then show "s + 1 + of_nat i \<noteq> t + 1 + of_nat j" by (simp add: add.assoc)
qed

lemma apart_read: "apart s t n \<Longrightarrow> 0 < n \<Longrightarrow> i < n \<Longrightarrow> (m(s := v)) (t + of_nat i) = m (t + of_nat i)"
  unfolding apart_def by (drule spec [of _ 0]) auto

lemma strncpy_pad_out:
  "(\<forall>i<n. x \<noteq> s + of_nat i) \<Longrightarrow> strncpy_pad s n m x = m x"
proof (induction n arbitrary: s m)
  case (Suc n)
  then have "\<forall>i<n. x \<noteq> s + 1 + of_nat i" "x \<noteq> s"
    by (auto simp: add.assoc less_Suc_eq_0_disj)
  with Suc.IH show ?case by simp
qed simp

lemma strncpy_loop_out:
  "(\<forall>i<n. x \<noteq> s + of_nat i) \<Longrightarrow> strncpy_loop s t n m x = m x"
proof (induction n arbitrary: s t m)
  case (Suc n)
  then have "\<forall>i<n. x \<noteq> s + 1 + of_nat i" "x \<noteq> s"
    by (auto simp: add.assoc less_Suc_eq_0_disj)
  with Suc.IH show ?case by (simp add: strncpy_pad_out Let_def)
qed simp

lemma not_below:
  fixes s :: uint64
  assumes "n < 2 ^ 64"
  shows "\<forall>i<n. s \<noteq> s + 1 + of_nat i"
proof (intro allI impI)
  fix i assume "i < n"
  then have "s + of_nat 0 \<noteq> s + of_nat (Suc i)"
    by (intro word_add_of_nat_neq) (use assms in simp_all)
  then show "s \<noteq> s + 1 + of_nat i" by (simp add: add.assoc)
qed

lemma strncpy_pad_in: "i < n \<Longrightarrow> n < 2 ^ 64 \<Longrightarrow> strncpy_pad s n m (s + of_nat i) = 0"
proof (induction n arbitrary: s m i)
  case (Suc n)
  show ?case
  proof (cases i)
    case 0
    then show ?thesis
      using not_below [of n s] Suc.prems by (simp add: strncpy_pad_out)
  next
    case (Suc j)
    then show ?thesis
      using Suc.IH [of j "s + 1"] Suc.prems by (simp add: add.assoc)
  qed
qed simp

lemma ex_le_Suc_shift: "(\<exists>k\<le>Suc j. P k) \<longleftrightarrow> P 0 \<or> (\<exists>k\<le>j. P (Suc k))"
proof
  assume "\<exists>k\<le>Suc j. P k"
  then obtain k where "k \<le> Suc j" "P k" by blast
  then show "P 0 \<or> (\<exists>k\<le>j. P (Suc k))" by (cases k) auto
next
  assume "P 0 \<or> (\<exists>k\<le>j. P (Suc k))"
  then show "\<exists>k\<le>Suc j. P k" by (auto intro: exI [of _ "Suc _"])
qed

lemma strncpy_loop_in:
  "apart s t n \<Longrightarrow> i < n \<Longrightarrow> n < 2 ^ 64 \<Longrightarrow>
   strncpy_loop s t n m (s + of_nat i) =
     (if \<exists>j\<le>i. m (t + of_nat j) = 0 then 0 else m (t + of_nat i))"
proof (induction n arbitrary: s t m i)
  case 0
  then show ?case by (simp only: not_less0)
next
  case (Suc n)
  let ?m = "m(s := m t)"
  have keep: "?m (t + 1 + of_nat j) = m (t + 1 + of_nat j)" if "j < n" for j
    using apart_read [OF Suc.prems(1), of "Suc j" m "m t"] that by (simp add: add.assoc)
  show ?case
  proof (cases i)
    case 0
    then show ?thesis
      using not_below [of n s] Suc.prems
      by (simp add: strncpy_loop_out strncpy_pad_out)
  next
    case i: (Suc j)
    then have j: "j < n" "n < 2 ^ 64" using Suc.prems by simp_all
    have ex: "(\<exists>k\<le>i. m (t + of_nat k) = 0) \<longleftrightarrow> m t = 0 \<or> (\<exists>k\<le>j. m (t + 1 + of_nat k) = 0)"
      unfolding i ex_le_Suc_shift by (simp add: add.assoc)
    have ex': "(\<exists>k\<le>j. ?m (t + 1 + of_nat k) = 0) \<longleftrightarrow> (\<exists>k\<le>j. m (t + 1 + of_nat k) = 0)"
      by (rule ex_cong) (use keep j(1) in \<open>simp del: fun_upd_apply\<close>)
    have at: "s + of_nat i = s + 1 + of_nat j" "t + of_nat i = t + 1 + of_nat j"
      by (simp_all add: i add.assoc)
    have step: "strncpy_loop s t (Suc n) m (s + 1 + of_nat j) =
      (if m t = 0 then 0 else strncpy_loop (s + 1) (t + 1) n ?m (s + 1 + of_nat j))"
      by (simp add: Let_def strncpy_pad_in [OF j])
    have "strncpy_loop (s + 1) (t + 1) n ?m (s + 1 + of_nat j) =
      (if \<exists>k\<le>j. m (t + 1 + of_nat k) = 0 then 0 else m (t + 1 + of_nat j))"
      using Suc.IH [OF apart_Suc [OF Suc.prems(1)] j, of ?m] by (simp only: ex' keep [OF j(1)])
    then show ?thesis
      by (simp only: at step ex) (cases "m t = 0"; simp only: if_True if_False simp_thms)
  qed
qed


lemma safestrcpy_loop_out:
  "(\<forall>i\<le>n. x \<noteq> s + of_nat i) \<Longrightarrow> safestrcpy_loop s t n m x = m x"
proof (induction n arbitrary: s t m)
  case 0
  then show ?case by simp
next
  case (Suc n)
  have "x \<noteq> s + 1 + of_nat i" if "i \<le> n" for i
    using Suc.prems [rule_format, of "Suc i"] that by (simp add: add.assoc)
  moreover have "x \<noteq> s" "x \<noteq> s + 1"
    using Suc.prems [rule_format, of 0] Suc.prems [rule_format, of 1] by simp_all
  ultimately show ?case
    using Suc.IH by (simp add: Let_def)
qed

lemma safestrcpy_loop_keeps:
  "n < 2 ^ 64 - 1 \<Longrightarrow> safestrcpy_loop (s + 1) t n m s = m s"
proof (rule safestrcpy_loop_out, intro allI impI)
  fix i assume "n < 2 ^ 64 - 1" "i \<le> n"
  then show "s \<noteq> s + 1 + of_nat i"
    using not_below [of "Suc i" s] by auto
qed

lemma safestrcpy_loop_in:
  "apart s t (Suc n) \<Longrightarrow> Suc n < 2 ^ 64 \<Longrightarrow> i \<le> n \<Longrightarrow> \<forall>j<i. m (t + of_nat j) \<noteq> 0 \<Longrightarrow>
   safestrcpy_loop s t n m (s + of_nat i) = (if i = n then 0 else m (t + of_nat i))"
proof (induction n arbitrary: s t m i)
  case 0
  then show ?case by simp
next
  case (Suc n)
  let ?m = "m(s := m t)"
  have keep: "?m (t + 1 + of_nat j) = m (t + 1 + of_nat j)" if "j \<le> n" for j
    using apart_read [OF Suc.prems(1), of "Suc j" m "m t"] that by (simp add: add.assoc)
  show ?case
  proof (cases i)
    case 0
    then show ?thesis
      using safestrcpy_loop_keeps [of n s "t + 1" ?m] Suc.prems(2) by (simp add: Let_def)
  next
    case i: (Suc j)
    have nz: "m t \<noteq> 0" "\<forall>l<j. m (t + 1 + of_nat l) \<noteq> 0"
      using Suc.prems(4) by (auto simp: i less_Suc_eq_0_disj add.assoc)
    have "safestrcpy_loop (s + 1) (t + 1) n ?m (s + 1 + of_nat j) =
        (if j = n then 0 else ?m (t + 1 + of_nat j))"
    proof (rule Suc.IH [OF apart_Suc [OF Suc.prems(1)]])
      show "\<forall>l<j. ?m (t + 1 + of_nat l) \<noteq> 0"
        using nz(2) keep Suc.prems(3) i by (simp del: fun_upd_apply)
    qed (use Suc.prems i in simp_all)
    then show ?thesis
      using keep [of j] nz(1) Suc.prems(3)
      by (simp add: i Let_def add.assoc)
  qed
qed

lemma safestrcpy_cstring:
  assumes "apart s t (nat n)" "0 < n" "n < 2 ^ 63" "cstring m t k"
  shows "cstring (safestrcpy s t n m) s (min k (nat n - 1))"
    and "\<forall>i<min k (nat n - 1). safestrcpy s t n m (s + of_nat i) = m (t + of_nat i)"
proof -
  obtain l where l: "nat n = Suc l"
    using assms(2) by (cases "nat n") simp_all
  have R: "safestrcpy s t n m = safestrcpy_loop s t l m"
    using assms(2) l by (simp add: safestrcpy_def nat_diff_distrib)
  have "Suc l < 2 ^ 64"
    using assms(3) l [symmetric] by simp
  then have at: "safestrcpy_loop s t l m (s + of_nat i) = (if i = l then 0 else m (t + of_nat i))"
    if "i \<le> min k l" for i
    using safestrcpy_loop_in [of s t l i m] assms(1,4) that by (simp add: l cstring_def)
  show "\<forall>i<min k (nat n - 1). safestrcpy s t n m (s + of_nat i) = m (t + of_nat i)"
    using at by (simp add: R l)
  show "cstring (safestrcpy s t n m) s (min k (nat n - 1))"
    using at [of "min k l"] at assms(4) by (auto simp: R l cstring_def min_def split: if_splits)
qed

section \<open>Properties\<close>

text \<open>
  C36. memmove() is correct for overlapping ranges. Whichever direction the code picks, the n bytes
  at \<open>dst\<close> are afterwards the n bytes that were at \<open>src\<close> before the call, and no other byte of
  memory changes (for ranges that do not wrap around the end of the address space).
\<close>

theorem memmove_overlap:
  assumes "unat src + unat n \<le> 2 ^ 64" "unat dst + unat n \<le> 2 ^ 64"
  shows "memmove dst src n m x = (if x - dst < ucast n then m (src + (x - dst)) else m x)"
  by (simp add: memmove_eq [OF assms] blit_def)

lemma memmove_overlap_witness:
  "memmove 0x102 0x100 5 (\<lambda>a. ucast a) 0x104 = 2 \<and> memmove 0x102 0x100 5 (\<lambda>a. ucast a) 0x107 = 7"
  using memmove_overlap [of "0x100" 5 "0x102" "\<lambda>a. ucast a" "0x104"]
    memmove_overlap [of "0x100" 5 "0x102" "\<lambda>a. ucast a" "0x107"] by simp

text \<open>
  C37. strncpy() fills exactly n bytes. For a destination that does not overlap the source, byte i
  of the destination is byte i of the source as long as no NUL came before, and NUL from then on;
  nothing outside the n bytes is written.
\<close>

theorem strncpy_fills:
  assumes "apart s t (nat n)" "n < 2 ^ 63"
  shows "(\<forall>i<nat n. strncpy s t n m (s + of_nat i) =
      (if \<exists>j\<le>i. m (t + of_nat j) = 0 then 0 else m (t + of_nat i))) \<and>
    (\<forall>x. (\<forall>i<nat n. x \<noteq> s + of_nat i) \<longrightarrow> strncpy s t n m x = m x)"
proof -
  have "nat n < 2 ^ 64" using assms(2) by simp
  then show ?thesis
    using strncpy_loop_in [OF assms(1)] strncpy_loop_out unfolding strncpy_def by blast
qed

lemma apart_example: "apart 0x200 0x100 (nat 3)"
proof -
  have "(i::nat) < 3 \<Longrightarrow> i = 0 \<or> i = 1 \<or> i = 2" for i by auto
  then show ?thesis unfolding apart_def by (auto dest!: \<open>\<And>i. i < 3 \<Longrightarrow> i = 0 \<or> i = 1 \<or> i = 2\<close>)
qed

lemma strncpy_fills_witness:
  "strncpy 0x200 0x100 3 (\<lambda>a. if a = 0x100 then 65 else 0) (0x200 + of_nat 0) = 65 \<and>
   strncpy 0x200 0x100 3 (\<lambda>a. if a = 0x100 then 65 else 0) (0x200 + of_nat 2) = 0"
proof -
  let ?m = "\<lambda>a :: uint64. if a = 0x100 then (65 :: uchar) else 0"
  have *: "strncpy 0x200 0x100 3 ?m (0x200 + of_nat i) =
      (if \<exists>j\<le>i. ?m (0x100 + of_nat j) = 0 then 0 else ?m (0x100 + of_nat i))" if "i < nat 3" for i
    using strncpy_fills [OF apart_example, of ?m] that by simp
  have "\<exists>j\<le>2. ?m (0x100 + of_nat j) = 0" by (rule exI [of _ 1]) simp
  then show ?thesis using * [of 0] * [of 2] by simp
qed

text \<open>
  C38. safestrcpy() always leaves a string. Copying a NUL-terminated string of length k into a
  buffer of n > 0 bytes that does not overlap it leaves a NUL-terminated string of length
  \<open>min k (n - 1)\<close> whose bytes are the first bytes of the source, and strlen() finds that length.
\<close>

theorem safestrcpy_truncates:
  assumes "apart s t (nat n)" "0 < n" "n < 2 ^ 63" "strlen m t = Some k"
  shows "strlen (safestrcpy s t n m) s = Some (min k (nat n - 1)) \<and>
    (\<forall>i<min k (nat n - 1). safestrcpy s t n m (s + of_nat i) = m (t + of_nat i))"
  using safestrcpy_cstring [OF assms(1-3)] assms(4) unfolding strlen_iff by blast

lemma safestrcpy_truncates_witness:
  "strlen (safestrcpy 0x200 0x100 3 (\<lambda>a. if a = 0x105 then 0 else 65)) 0x200 = Some 2"
proof -
  let ?m = "\<lambda>a :: uint64. if a = 0x105 then (0 :: uchar) else 65"
  have "cstring ?m 0x100 5"
    unfolding cstring_def
  proof (intro conjI allI impI)
    fix i :: nat assume "i < 5"
    then have "i = 0 \<or> i = 1 \<or> i = 2 \<or> i = 3 \<or> i = 4" by auto
    then show "?m (0x100 + of_nat i) \<noteq> 0" by auto
  qed simp
  then have "strlen ?m 0x100 = Some 5" by (simp add: strlen_iff)
  then show ?thesis using safestrcpy_truncates [OF apart_example, of ?m 5] by simp
qed

end
