(* ===== verification/Kalloc.thy ===== *)
theory Kalloc
  imports Spinlock Kstring
begin

text \<open>
  kernel/kalloc.c, the physical page allocator: a singly linked list of free pages threaded
  through the first eight bytes of each page (\<open>struct run\<close>). \<open>kmem_inv ps s\<close> abstracts the list
  in memory to the HOL list \<open>ps\<close>; the locale \<open>page_allocator\<close> is the contract the users of pages
  (page tables, pipes, trapframes) rely on.
\<close>

section \<open>State and operations\<close>

record kmem = machine +
  freelist :: uint64

definition kfree :: "uint64 \<Rightarrow> 'a kmem_scheme \<Rightarrow> 'a kmem_scheme option" where
  "kfree pa s = do {
     panic_if (pa mod PGSIZE \<noteq> 0 \<or> pa < kend s \<or> PHYSTOP \<le> pa) ''kfree'';
     let s = s\<lparr>phys := memset pa 1 (ucast PGSIZE) (phys s)\<rparr>;
     s \<leftarrow> acquire KmemLock s;
     let s = s\<lparr>phys := store64 pa (freelist s) (phys s)\<rparr>;
     let s = s\<lparr>freelist := pa\<rparr>;
     release KmemLock s
   }"

definition kalloc :: "'a kmem_scheme \<Rightarrow> (uint64 \<times> 'a kmem_scheme) option" where
  "kalloc s = do {
     s \<leftarrow> acquire KmemLock s;
     let r = freelist s;
     let s = (if r \<noteq> 0 then s\<lparr>freelist := load64 (phys s) r\<rparr> else s);
     s \<leftarrow> release KmemLock s;
     let s = (if r \<noteq> 0 then s\<lparr>phys := memset r 5 (ucast PGSIZE) (phys s)\<rparr> else s);
     Some (r, s)
   }"

partial_function (option) freerange_loop ::
  "uint64 \<Rightarrow> uint64 \<Rightarrow> 'a kmem_scheme \<Rightarrow> 'a kmem_scheme option" where
  "freerange_loop p pa_end s =
     (if p + PGSIZE \<le> pa_end
      then do { s \<leftarrow> kfree p s; freerange_loop (p + PGSIZE) pa_end s }
      else Some s)"

definition freerange :: "uint64 \<Rightarrow> uint64 \<Rightarrow> 'a kmem_scheme \<Rightarrow> 'a kmem_scheme option" where
  "freerange pa_start pa_end s = freerange_loop (PGROUNDUP pa_start) pa_end s"

definition kinit :: "'a kmem_scheme \<Rightarrow> 'a kmem_scheme option" where
  "kinit s = (let s = initlock KmemLock ''kmem'' s in freerange (kend s) PHYSTOP s)"

section \<open>Frame rules of this layer\<close>

lemma freelist_frame [simp]:
  "release lk (freelist_update f s) = map_option (freelist_update f) (release lk s)"
  "acquired lk (freelist_update f s) = freelist_update f (acquired lk s)"
  "settle (freelist_update f s) = freelist_update f (settle s)"
  "free lk (freelist_update f s) = free lk s" "cpu_ok (freelist_update f s) = cpu_ok s"
  "freelist (acquired lk s) = freelist s" "freelist (settle s) = freelist s"
  by (simp_all add: lock_forms)

lemma kalloc_eq:
  assumes "cpu_ok s" "free KmemLock s"
  shows "kalloc s = Some (freelist s,
     if freelist s = 0 then settle s
     else (settle s)\<lparr>freelist := load64 (phys s) (freelist s),
       phys := fill (freelist s) 5 PGSIZE (phys s)\<rparr>)"
  using assms
  by (simp add: kalloc_def memset_eq PGSIZE_def Let_def)

lemma kfree_eq:
  assumes "cpu_ok s" "free KmemLock s"
    and "pa mod PGSIZE = 0" "kend s \<le> pa" "pa < PHYSTOP"
  shows "kfree pa s = Some ((settle s)\<lparr>
     phys := store64 pa (freelist s) (fill pa 1 PGSIZE (phys s)), freelist := pa\<rparr>)"
proof -
  have "\<not> (pa mod PGSIZE \<noteq> 0 \<or> pa < kend s \<or> PHYSTOP \<le> pa)"
    using assms by auto
  then show ?thesis
    using assms(1,2) by (simp add: kfree_def memset_eq PGSIZE_def Let_def)
qed

lemma kfree_panics:
  "pa mod PGSIZE \<noteq> 0 \<or> pa < kend s \<or> PHYSTOP \<le> pa \<Longrightarrow> kfree pa s = None"
  by (simp add: kfree_def)

section \<open>The free list in memory\<close>

definition page_ok :: "'a kmem_scheme \<Rightarrow> uint64 \<Rightarrow> bool" where
  "page_ok s pa \<longleftrightarrow> pa mod PGSIZE = 0 \<and> kend s \<le> pa \<and> pa < PHYSTOP"

fun free_list :: "memory \<Rightarrow> uint64 \<Rightarrow> uint64 list \<Rightarrow> bool" where
  "free_list m p [] \<longleftrightarrow> p = 0"
| "free_list m p (q # qs) \<longleftrightarrow> p = q \<and> q \<noteq> 0 \<and> free_list m (load64 m q) qs"

definition kmem_inv :: "uint64 list \<Rightarrow> 'a kmem_scheme \<Rightarrow> bool" where
  "kmem_inv ps s \<longleftrightarrow> free_list (phys s) (freelist s) ps \<and> distinct ps \<and>
     (\<forall>p\<in>set ps. page_ok s p) \<and> 0 < kend s"

text \<open>Pages are disjoint, so what one page holds does not change when another is written.\<close>

lemma page_ok_aligned: "page_ok s p \<Longrightarrow> aligned 4096 p"
proof -
  assume "page_ok s p"
  then have "unat p mod unat PGSIZE = 0"
    by (simp add: page_ok_def unat_mod [symmetric])
  then show ?thesis
    by (simp add: aligned_def PGSIZE_def)
qed

lemma in_page_iff: "x - p < PGSIZE \<longleftrightarrow> (\<exists>i<4096. x = p + of_nat i)"
  using in_block_iff [of 4096 x p] by (auto simp: PGSIZE_def)

lemma pages_disjoint:
  assumes "aligned 4096 p" "aligned 4096 q" "p \<noteq> q" "x - p < PGSIZE"
  shows "\<not> x - q < PGSIZE"
  using aligned_disjoint [OF assms(1,2), of _ _] assms(3,4)
  by (auto simp: in_page_iff)

lemma word_in_page:
  assumes "i < 8"
  shows "p + of_nat i - p < PGSIZE"
  using assms by (simp add: PGSIZE_def word_less_nat_alt unat_of_nat_small)

lemma load64_other_page:
  assumes "aligned 4096 p" "aligned 4096 q" "p \<noteq> q"
    and "\<And>x. \<not> x - p < PGSIZE \<Longrightarrow> m' x = m x"
  shows "load64 m' q = load64 m q"
proof (rule load64_cong)
  fix i :: nat assume "i < 8"
  then have "q + of_nat i - q < PGSIZE" by (rule word_in_page)
  then show "m' (q + of_nat i) = m (q + of_nat i)"
    using pages_disjoint [OF assms(2,1)] assms(3,4) by blast
qed

lemma free_list_frame:
  assumes "free_list m h ps" "aligned 4096 p" "p \<notin> set ps"
    and "\<forall>q\<in>set ps. aligned 4096 q" "\<And>x. \<not> x - p < PGSIZE \<Longrightarrow> m' x = m x"
  shows "free_list m' h ps"
  using assms
proof (induction ps arbitrary: h)
  case Nil
  then show ?case by simp
next
  case (Cons q qs)
  then have "load64 m' q = load64 m q"
    by (intro load64_other_page [of p]) auto
  with Cons show ?case by auto
qed

lemma store64_outside_page:
  assumes "\<not> x - p < PGSIZE"
  shows "store64 p v m x = m x"
proof -
  have "\<not> x - p < 8"
    using assms by (auto simp: PGSIZE_def word_less_nat_alt)
  then show ?thesis by (simp add: store64_def)
qed

lemma kmem_inv_aligned: "kmem_inv ps s \<Longrightarrow> q \<in> set ps \<Longrightarrow> aligned 4096 q"
  by (auto simp: kmem_inv_def intro: page_ok_aligned)

lemma kmem_inv_settle [simp]: "kmem_inv ps (settle s) = kmem_inv ps s"
  by (simp add: kmem_inv_def page_ok_def)

lemma kmem_inv_nonzero: "kmem_inv ps s \<Longrightarrow> 0 \<notin> set ps"
  by (auto simp: kmem_inv_def page_ok_def)

text \<open>
  What the callers of the allocator may rely on: apart from memory, the list head and the
  re-recorded \<open>intena\<close>, the kernel state is the same.
\<close>

definition kmem_same :: "'a kmem_scheme \<Rightarrow> 'a kmem_scheme \<Rightarrow> bool" where
  "kmem_same s s' \<longleftrightarrow> settle s' = (settle s)\<lparr>phys := phys s', freelist := freelist s'\<rparr>"

lemma kmem_same_refl [simp]: "kmem_same s s"
  by (simp add: kmem_same_def)

lemma kmem_same_trans: "kmem_same s t \<Longrightarrow> kmem_same t u \<Longrightarrow> kmem_same s u"
  by (simp add: kmem_same_def)

lemma kmem_same_upd [simp]:
  "kmem_same s (settle s)" "kmem_same s t \<Longrightarrow> kmem_same s (t\<lparr>phys := m\<rparr>)"
  "kmem_same s t \<Longrightarrow> kmem_same s (t\<lparr>freelist := f\<rparr>)"
  by (simp_all add: kmem_same_def)

lemma kmem_sameD:
  assumes "kmem_same s s'"
  shows "hart s' = hart s" "spin s' = spin s" "kend s' = kend s"
    "free lk s' = free lk s" "cpu_ok s' = cpu_ok s" "page_ok s' = page_ok s"
proof -
  note eq = assms [unfolded kmem_same_def]
  show "hart s' = hart s" "spin s' = spin s" "kend s' = kend s"
    using arg_cong [OF eq, of hart] arg_cong [OF eq, of spin] arg_cong [OF eq, of kend] by simp_all
  then show "free lk s' = free lk s" "page_ok s' = page_ok s"
    by (simp_all add: free_def page_ok_def fun_eq_iff)
  show "cpu_ok s' = cpu_ok s"
    using arg_cong [OF eq, of cpu_ok] by simp
qed

text \<open>Freeing a page that is not on the list pushes it; nothing outside that page is written.\<close>

lemma kfree_inv:
  assumes "kmem_inv ps s" "page_ok s pa" "pa \<notin> set ps" "cpu_ok s" "free KmemLock s"
  shows "\<exists>s'. kfree pa s = Some s' \<and> kmem_inv (pa # ps) s' \<and> kmem_same s s' \<and>
    (\<forall>x. \<not> x - pa < PGSIZE \<longrightarrow> phys s' x = phys s x)"
proof -
  let ?m = "store64 pa (freelist s) (fill pa 1 PGSIZE (phys s))"
  have out: "\<not> x - pa < PGSIZE \<Longrightarrow> ?m x = phys s x" for x
    by (simp add: store64_outside_page fill_def)
  have "free_list ?m (freelist s) ps"
    by (rule free_list_frame [of "phys s" _ _ pa])
      (use assms out kmem_inv_aligned page_ok_aligned in \<open>auto simp: kmem_inv_def\<close>)
  moreover have "pa \<noteq> 0"
    using assms(1,2) by (auto simp: kmem_inv_def page_ok_def)
  moreover have "kfree pa s = Some ((settle s)\<lparr>phys := ?m, freelist := pa\<rparr>)"
    using kfree_eq [of s pa] assms(2,4,5) by (simp add: page_ok_def)
  ultimately show ?thesis
    using assms out by (auto simp: kmem_inv_def page_ok_def)
qed

text \<open>Allocation pops the list; the page handed out is filled with junk, nothing else is written.\<close>

lemma kalloc_inv:
  assumes "kmem_inv (p # ps) s" "cpu_ok s" "free KmemLock s"
  shows "\<exists>s'. kalloc s = Some (p, s') \<and> kmem_inv ps s' \<and> kmem_same s s' \<and>
    (\<forall>x. phys s' x = (if x - p < PGSIZE then 5 else phys s x))"
proof -
  let ?m = "fill p 5 PGSIZE (phys s)"
  have fl: "freelist s = p" "p \<noteq> 0" "free_list (phys s) (load64 (phys s) p) ps"
    using assms(1) by (auto simp: kmem_inv_def)
  have "free_list ?m (load64 (phys s) p) ps"
    by (rule free_list_frame [of "phys s" _ _ p])
      (use fl assms(1) in \<open>auto simp: kmem_inv_def fill_def intro: page_ok_aligned\<close>)
  then show ?thesis
    using kalloc_eq [OF assms(2,3)] fl assms by (auto simp: kmem_inv_def page_ok_def fill_def)
qed

lemma kalloc_empty:
  assumes "kmem_inv [] s" "cpu_ok s" "free KmemLock s"
  shows "kalloc s = Some (0, settle s)"
  using assms kalloc_eq [OF assms(2,3)] by (simp add: kmem_inv_def)

section \<open>The allocator's contract\<close>

locale page_allocator =
  fixes inv :: "uint64 list \<Rightarrow> 's \<Rightarrow> bool"
    and valid :: "'s \<Rightarrow> uint64 \<Rightarrow> bool"
    and alloc :: "'s \<Rightarrow> (uint64 \<times> 's) option"
    and dealloc :: "uint64 \<Rightarrow> 's \<Rightarrow> 's option"
  assumes inv_distinct: "inv ps s \<Longrightarrow> distinct ps \<and> 0 \<notin> set ps"
    and alloc_Nil: "inv [] s \<Longrightarrow> \<exists>s'. alloc s = Some (0, s') \<and> inv [] s'"
    and alloc_Cons: "inv (p # ps) s \<Longrightarrow> \<exists>s'. alloc s = Some (p, s') \<and> inv ps s' \<and> valid s' = valid s"
    and inv_valid: "inv ps s \<Longrightarrow> p \<in> set ps \<Longrightarrow> valid s p"
    and dealloc_Cons: "inv ps s \<Longrightarrow> valid s p \<Longrightarrow> p \<notin> set ps \<Longrightarrow>
      \<exists>s'. dealloc p s = Some s' \<and> inv (p # ps) s' \<and> valid s' = valid s"
begin

primrec alloc_n :: "nat \<Rightarrow> 's \<Rightarrow> (uint64 list \<times> 's) option" where
  "alloc_n 0 s = Some ([], s)"
| "alloc_n (Suc n) s = do { (p, s) \<leftarrow> alloc s; (ps, s) \<leftarrow> alloc_n n s; Some (p # ps, s) }"

primrec dealloc_all :: "uint64 list \<Rightarrow> 's \<Rightarrow> 's option" where
  "dealloc_all [] s = Some s"
| "dealloc_all (p # ps) s = do { s \<leftarrow> dealloc p s; dealloc_all ps s }"

lemma alloc_n_pages:
  "inv ps s \<Longrightarrow> n \<le> length ps \<Longrightarrow>
   \<exists>s'. alloc_n n s = Some (take n ps, s') \<and> inv (drop n ps) s' \<and> valid s' = valid s"
proof (induction n arbitrary: ps s)
  case 0
  then show ?case by auto
next
  case (Suc n)
  then obtain p qs where ps: "ps = p # qs" by (cases ps) auto
  obtain t where t: "alloc s = Some (p, t)" "inv qs t" "valid t = valid s"
    using alloc_Cons Suc.prems(1) unfolding ps by blast
  obtain s' where "alloc_n n t = Some (take n qs, s')" "inv (drop n qs) s'" "valid s' = valid t"
    using Suc.IH [OF t(2)] Suc.prems(2) by (auto simp: ps)
  with t show ?case by (auto simp: ps)
qed

lemma dealloc_all_pages:
  "inv ps s \<Longrightarrow> distinct qs \<Longrightarrow> set qs \<inter> set ps = {} \<Longrightarrow> \<forall>q\<in>set qs. valid s q \<Longrightarrow>
   \<exists>s'. dealloc_all qs s = Some s' \<and> inv (rev qs @ ps) s' \<and> valid s' = valid s"
proof (induction qs arbitrary: ps s)
  case Nil
  then show ?case by auto
next
  case (Cons q qs)
  obtain t where t: "dealloc q s = Some t" "inv (q # ps) t" "valid t = valid s"
    using dealloc_Cons [of ps s q] Cons.prems by auto
  with Cons.IH [OF t(2)] Cons.prems show ?case by auto
qed

text \<open>Pages are conserved: giving back what was allocated restores the pool.\<close>

lemma alloc_dealloc_n:
  assumes "inv ps s" "n \<le> length ps"
  shows "\<exists>s1 s2. alloc_n n s = Some (take n ps, s1) \<and> dealloc_all (rev (take n ps)) s1 = Some s2 \<and> inv ps s2"
proof -
  obtain s1 where s1: "alloc_n n s = Some (take n ps, s1)" "inv (drop n ps) s1" "valid s1 = valid s"
    using alloc_n_pages [OF assms] by blast
  have d: "distinct ps"
    using inv_distinct [OF assms(1)] by simp
  have "\<exists>s2. dealloc_all (rev (take n ps)) s1 = Some s2 \<and> inv (rev (rev (take n ps)) @ drop n ps) s2 \<and>
      valid s2 = valid s1"
  proof (rule dealloc_all_pages [OF s1(2)])
    show "set (rev (take n ps)) \<inter> set (drop n ps) = {}"
      using d by (simp add: set_take_disj_set_drop_if_distinct)
    show "\<forall>q\<in>set (rev (take n ps)). valid s1 q"
      using inv_valid [OF assms(1)] s1(3) by (auto dest: in_set_takeD)
  qed (use d in simp)
  with s1(1) show ?thesis by auto
qed

end

definition kmem_ready :: "uint64 list \<Rightarrow> 'a kmem_scheme \<Rightarrow> bool" where
  "kmem_ready ps s \<longleftrightarrow> kmem_inv ps s \<and> cpu_ok s \<and> free KmemLock s"

interpretation kmem: page_allocator kmem_ready page_ok kalloc kfree
proof (unfold_locales, goal_cases)
  case (1 ps s)
  then show ?case using kmem_inv_nonzero by (auto simp: kmem_ready_def kmem_inv_def)
next
  case (2 s)
  then show ?case using kalloc_empty [of s] by (simp add: kmem_ready_def)
next
  case (3 p ps s)
  then show ?case
    using kalloc_inv [of p ps s] by (auto simp: kmem_ready_def kmem_sameD)
next
  case (4 ps s p)
  then show ?case by (simp add: kmem_ready_def kmem_inv_def)
next
  case (5 ps s p)
  then show ?case
    using kfree_inv [of ps s p] by (auto simp: kmem_ready_def kmem_sameD)
qed

lemma kmem_ready_frame:
  assumes "kmem_ready ps s" "aligned 4096 p" "p \<notin> set ps" "\<And>x. \<not> x - p < PGSIZE \<Longrightarrow> m x = phys s x"
  shows "kmem_ready ps (s\<lparr>phys := m\<rparr>)"
proof -
  have "free_list m (freelist s) ps"
    by (rule free_list_frame [of "phys s" _ _ p])
      (use assms in \<open>auto simp: kmem_ready_def kmem_inv_def intro: page_ok_aligned\<close>)
  then show ?thesis
    using assms(1) by (auto simp: kmem_ready_def kmem_inv_def page_ok_def)
qed

section \<open>Boot: every page of the range is freed\<close>

definition page_seq :: "uint64 \<Rightarrow> nat \<Rightarrow> uint64 list" where
  "page_seq p n = map (\<lambda>i. p + of_nat (i * 4096)) [0..<n]"

lemma page_seq_Suc: "page_seq p (Suc n) = p # page_seq (p + PGSIZE) n"
proof -
  have "page_seq p (Suc n) = p # map (\<lambda>i. p + of_nat (Suc i * 4096)) [0..<n]"
    unfolding page_seq_def by (subst upt_conv_Cons) (simp_all add: map_Suc_upt [symmetric] o_def del: upt_Suc)
  then show ?thesis
    by (simp add: page_seq_def PGSIZE_def algebra_simps)
qed

lemma page_seq_distinct:
  assumes "unat p + n * 4096 \<le> 2 ^ 64"
  shows "distinct (page_seq p n)"
  unfolding page_seq_def distinct_map
proof (intro conjI inj_onI)
  fix i j assume *: "i \<in> set [0..<n]" "j \<in> set [0..<n]" "p + of_nat (i * 4096) = p + of_nat (j * 4096)"
  have u: "unat (p + of_nat (k * 4096)) = unat p + k * 4096" if "k < n" for k
    by (rule unat_add_of_nat) (use that assms in auto)
  from * have "unat (p + of_nat (i * 4096)) = unat (p + of_nat (j * 4096))" by (simp only:)
  with * show "i = j" using u [of i] u [of j] by simp
qed simp

lemma round_up_le_iff:
  fixes q :: nat
  assumes "0 < m" "m dvd q"
  shows "(x + (m - 1)) div m * m \<le> q \<longleftrightarrow> x \<le> q"
proof -
  obtain k where q: "q = k * m" using assms(2) by (metis dvd_def mult.commute)
  have "(x + (m - 1)) div m * m \<le> q \<longleftrightarrow> (x + (m - 1)) div m < Suc k"
    using assms(1) by (simp add: q less_Suc_eq_le)
  also have "\<dots> \<longleftrightarrow> x + (m - 1) < Suc k * m"
    by (rule div_less_iff_less_mult [OF assms(1)])
  also have "\<dots> \<longleftrightarrow> x \<le> q"
    using assms(1) by (simp add: q) arith
  finally show ?thesis .
qed

lemma set_page_seq:
  assumes "unat p + n * 4096 < 2 ^ 64" "unat p mod 4096 = 0"
  shows "set (page_seq p n) = {q. unat q mod 4096 = 0 \<and> unat p \<le> unat q \<and> unat q < unat p + n * 4096}"
proof (intro set_eqI iffI)
  fix q assume "q \<in> set (page_seq p n)"
  then obtain i where i: "i < n" "q = p + of_nat (i * 4096)" by (auto simp: page_seq_def)
  then have "unat q = unat p + i * 4096"
    using assms(1) unat_add_of_nat [of p "i * 4096"] by simp
  with i assms(2) show "q \<in> {q. unat q mod 4096 = 0 \<and> unat p \<le> unat q \<and> unat q < unat p + n * 4096}"
    by simp
next
  fix q :: uint64
  assume q: "q \<in> {q. unat q mod 4096 = 0 \<and> unat p \<le> unat q \<and> unat q < unat p + n * 4096}"
  define i where "i = (unat q - unat p) div 4096"
  have "4096 dvd unat q - unat p" by (rule dvd_diff_nat) (use q assms(2) in auto)
  then have i: "unat q = unat p + i * 4096" "i < n"
    using q by (auto simp: i_def)
  have "unat (p + of_nat (i * 4096)) = unat p + i * 4096"
    by (rule unat_add_of_nat) (use i assms(1) in simp)
  with i have "q = p + of_nat (i * 4096)" by (intro unat_inj) simp
  with i show "q \<in> set (page_seq p n)" by (auto simp: page_seq_def)
qed

lemma aligned_page_ok:
  "unat p mod 4096 = 0 \<Longrightarrow> kend s \<le> p \<Longrightarrow> p < PHYSTOP \<Longrightarrow> page_ok s p"
  unfolding page_ok_def by (simp add: PGSIZE_def unat_mod unat_inj [symmetric])

lemma unat_add_PGSIZE: "unat p + 4096 \<le> unat (q :: uint64) \<Longrightarrow> unat (p + PGSIZE) = unat p + 4096"
  using unat_add_of_nat [of p 4096] unat_lt2p [of q] by (simp add: PGSIZE_def)

lemma freerange_loop_pages:
  assumes "kmem_ready ps s" "unat p mod 4096 = 0" "kend s \<le> p" "pa_end \<le> PHYSTOP"
    "unat p + n * 4096 \<le> unat pa_end" "unat pa_end < unat p + n * 4096 + 4096"
    "\<forall>q\<in>set ps. \<not> p \<le> q"
  shows "\<exists>s'. freerange_loop p pa_end s = Some s' \<and> kmem_ready (rev (page_seq p n) @ ps) s'"
  using assms
proof (induction n arbitrary: p s ps)
  case 0
  have "unat (p + PGSIZE) = unat p + 4096 \<and> \<not> p + PGSIZE \<le> pa_end"
    using 0(4-6) unat_add_of_nat [of p 4096] by (auto simp: PGSIZE_def PHYSTOP_def KERNBASE_def word_le_nat_alt)
  with 0(1) show ?case
    by (subst freerange_loop.simps) (auto simp: page_seq_def)
next
  case (Suc n)
  have pg: "unat (p + PGSIZE) = unat p + 4096"
    using Suc.prems(5) by (intro unat_add_PGSIZE [of _ pa_end]) simp
  have le: "p + PGSIZE \<le> pa_end" "p < p + PGSIZE"
    using Suc.prems(5) pg by (auto simp: word_le_nat_alt word_less_nat_alt)
  have ok: "page_ok s p"
    using Suc.prems(2-4) le by (intro aligned_page_ok) auto
  moreover have "p \<notin> set ps" using Suc.prems(7) by auto
  ultimately obtain t where t: "kfree p s = Some t" "kmem_ready (p # ps) t" "page_ok t = page_ok s"
    using kmem.dealloc_Cons Suc.prems(1) by blast
  have "kend t \<le> p" using t(3) ok by (metis page_ok_def)
  then have "\<exists>s'. freerange_loop (p + PGSIZE) pa_end t = Some s' \<and>
      kmem_ready (rev (page_seq (p + PGSIZE) n) @ p # ps) s'"
    using Suc.prems pg le by (intro Suc.IH [OF t(2)]) auto
  with t(1) le(1) show ?case
    by (subst freerange_loop.simps) (auto simp: page_seq_Suc)
qed

lemma initlock_simps [simp]:
  "phys (initlock lk n s) = phys s" "kend (initlock lk n s) = kend s" "free lk (initlock lk n s)"
  "cpu_ok (initlock lk n s) = cpu_ok s" "freelist (initlock lk n s) = freelist s"
  by (simp_all add: initlock_def free_def cpu_ok_def mycpu_def)

text \<open>
  C7. The allocator boots with every page. Booting with an empty list, kinit() returns and the free
  list holds exactly the page-aligned addresses from the end of the kernel image to PHYSTOP,
  each once, with the allocator's invariant established.
\<close>

theorem kinit_all_pages:
  assumes "cpu_ok s" "freelist s = 0" "0 < kend s" "kend s \<le> PHYSTOP"
  shows "\<exists>s' ps. kinit s = Some s' \<and> kmem_ready ps s' \<and>
    set ps = {p. unat p mod 4096 = 0 \<and> kend s \<le> p \<and> p < PHYSTOP}"
proof -
  define s0 where "s0 = initlock KmemLock ''kmem'' s"
  define p where "p = PGROUNDUP (kend s)"
  define n where "n = (unat PHYSTOP - unat p) div 4096"
  have H: "unat PHYSTOP = 2281701376" "unat (kend s) \<le> 2281701376"
    using assms(4) by (simp_all add: PHYSTOP_def KERNBASE_def word_le_nat_alt)
  have up: "unat p = (unat (kend s) + 4095) div 4096 * 4096"
    unfolding p_def using H by (intro unat_PGROUNDUP) simp
  have pm: "unat p mod 4096 = 0" "kend s \<le> p"
    unfolding word_le_nat_alt using up by auto
  have np: "unat p + n * 4096 = unat PHYSTOP"
  proof -
    have "unat p \<le> 2281701376" using round_up_le_iff [of 4096 2281701376] up H(2) by simp
    moreover have "4096 dvd 2281701376 - unat p" by (rule dvd_diff_nat) (use pm in auto)
    ultimately show ?thesis by (simp add: n_def H)
  qed
  have "kmem_ready [] s0"
    using assms by (simp add: kmem_ready_def kmem_inv_def s0_def)
  then have "\<exists>s'. freerange_loop p PHYSTOP s0 = Some s' \<and> kmem_ready (rev (page_seq p n) @ []) s'"
    using pm np by (intro freerange_loop_pages) (auto simp: s0_def)
  moreover have "set (page_seq p n) = {q. unat q mod 4096 = 0 \<and> kend s \<le> q \<and> q < PHYSTOP}"
  proof -
    have "unat p \<le> unat q \<longleftrightarrow> unat (kend s) \<le> unat q" if "unat q mod 4096 = 0" for q :: uint64
      using that up round_up_le_iff [of 4096 "unat q" "unat (kend s)"] by auto
    then show ?thesis
      using set_page_seq [of p n] pm np H by (auto simp: word_le_nat_alt word_less_nat_alt)
  qed
  moreover have "kinit s = freerange_loop p PHYSTOP s0"
    by (simp add: kinit_def freerange_def p_def s0_def)
  ultimately show ?thesis by (metis append_Nil2 set_rev)
qed

definition boot_example :: kmem where
  "boot_example = \<lparr>hart = 0, cpus = (\<lambda>_. \<lparr>noff = 0, intena = False, sie = False\<rparr>),
     spin = (\<lambda>_. \<lparr>locked = True, lname = ''garbage'', lcpu = Some 3\<rparr>), phys = (\<lambda>_. 0),
     kend = 0x87FF0001, freelist = 0\<rparr>"

lemma kinit_all_pages_witness:
  "\<exists>s' ps. kinit boot_example = Some s' \<and> kmem_ready ps s' \<and> 0x87FF1000 \<in> set ps \<and> 0x87FF0000 \<notin> set ps"
proof -
  have h: "cpu_ok boot_example" "freelist boot_example = 0" "0 < kend boot_example" "kend boot_example \<le> PHYSTOP"
    by (simp_all add: boot_example_def cpu_ok_def mycpu_def PHYSTOP_def KERNBASE_def)
  have "(0x87FF1000 :: uint64) \<in> {p. unat p mod 4096 = 0 \<and> kend boot_example \<le> p \<and> p < PHYSTOP}"
    "(0x87FF0000 :: uint64) \<notin> {p. unat p mod 4096 = 0 \<and> kend boot_example \<le> p \<and> p < PHYSTOP}"
    by (simp_all add: boot_example_def PHYSTOP_def KERNBASE_def)
  moreover obtain s' ps where "kinit boot_example = Some s'" "kmem_ready ps s'"
    "set ps = {p. unat p mod 4096 = 0 \<and> kend boot_example \<le> p \<and> p < PHYSTOP}"
    using kinit_all_pages [OF h] by blast
  ultimately show ?thesis by (intro exI [of _ s'] exI [of _ ps]) simp
qed

text \<open>
  C8. Pages are conserved and never handed out twice. From a state with free pages \<open>ps\<close>, n calls
  of kalloc() return the first n pages of the list, pairwise different and nonzero; freeing them in
  the reverse order with kfree() succeeds and gives back exactly the free list \<open>ps\<close>. This is the
  allocator contract, interpreted on kalloc() and kfree().
\<close>

theorem kalloc_kfree_conserve:
  assumes "kmem_ready ps s" "n \<le> length ps"
  shows "\<exists>s1 s2. kmem.alloc_n n s = Some (take n ps, s1) \<and> distinct (take n ps) \<and> 0 \<notin> set (take n ps) \<and>
    kmem.dealloc_all (rev (take n ps)) s1 = Some s2 \<and> kmem_ready ps s2"
  using kmem.alloc_dealloc_n [OF assms] kmem.inv_distinct [OF assms(1)]
  by (metis distinct_take in_set_takeD)

definition two_pages :: kmem where
  "two_pages = \<lparr>hart = 0, cpus = (\<lambda>_. \<lparr>noff = 0, intena = False, sie = True\<rparr>),
     spin = (\<lambda>_. \<lparr>locked = False, lname = ''kmem'', lcpu = None\<rparr>),
     phys = store64 0x80100000 0x80101000 (\<lambda>_. 0), kend = 0x80080000, freelist = 0x80100000\<rparr>"

lemma two_pages_ready: "kmem_ready [0x80100000, 0x80101000] two_pages"
proof -
  have "le_get 8 (\<lambda>i. 0) = 0" by (simp add: numeral_eq_Suc)
  then have z: "load64 (\<lambda>_. 0) a = 0" for a by (simp add: load64_def)
  have "load64 (store64 0x80100000 0x80101000 (\<lambda>_. 0)) 0x80101000 = 0"
    by (subst load64_store64_other) (simp_all add: aligned_def z)
  then show ?thesis
    by (simp add: kmem_ready_def kmem_inv_def two_pages_def page_ok_def PGSIZE_def PHYSTOP_def KERNBASE_def
        cpu_ok_def mycpu_def free_def)
qed

lemma kalloc_kfree_conserve_witness:
  "\<exists>s1 s2. kmem.alloc_n 2 two_pages = Some ([0x80100000, 0x80101000], s1) \<and>
    kmem.dealloc_all [0x80101000, 0x80100000] s1 = Some s2 \<and> kmem_ready [0x80100000, 0x80101000] s2"
  using kalloc_kfree_conserve [OF two_pages_ready, of 2] by auto



end
