(* ===== verification/Vm.thy ===== *)
theory Vm
  imports Kalloc
begin

text \<open>
  kernel/vm.c: Sv39 page tables in physical memory (the copies to and from user memory are in Copy).
  The kernel runs with physical memory mapped one to one, so a kernel pointer is a physical
  address. \<open>pte_of m root\<close> abstracts the three-level tree at \<open>root\<close> to a function from virtual
  address to leaf entry; the lemmas show that the C operations act on that function as expected.
\<close>

section \<open>Page-table entries (riscv.h)\<close>

definition PTE_V :: uint64 where "PTE_V = 1"
definition PTE_R :: uint64 where "PTE_R = 2"
definition PTE_W :: uint64 where "PTE_W = 4"
definition PTE_X :: uint64 where "PTE_X = 8"
definition PTE_U :: uint64 where "PTE_U = 16"

definition PA2PTE :: "uint64 \<Rightarrow> uint64" where
  "PA2PTE pa = push_bit 10 (drop_bit 12 pa)"

definition PTE2PA :: "uint64 \<Rightarrow> uint64" where
  "PTE2PA pte = push_bit 12 (drop_bit 10 pte)"

definition PTE_FLAGS :: "uint64 \<Rightarrow> uint64" where
  "PTE_FLAGS pte = pte AND 0x3FF"

definition PX :: "nat \<Rightarrow> uint64 \<Rightarrow> uint64" where
  "PX level va = drop_bit (12 + 9 * level) va AND 0x1FF"

definition MAXVA :: uint64 where "MAXVA = 2 ^ (9 + 9 + 9 + 12 - 1)"

definition TRAMPOLINE :: uint64 where "TRAMPOLINE = MAXVA - PGSIZE"
definition TRAPFRAME :: uint64 where "TRAPFRAME = TRAMPOLINE - PGSIZE"
definition UART0 :: uint64 where "UART0 = 0x10000000"
definition VIRTIO0 :: uint64 where "VIRTIO0 = 0x10001000"
definition PLIC :: uint64 where "PLIC = 0x0c000000"

definition KSTACK :: "nat \<Rightarrow> uint64" where
  "KSTACK p = TRAMPOLINE - of_nat (p + 1) * 2 * PGSIZE"

section \<open>Walking the tree\<close>

fun walk_loop :: "nat \<Rightarrow> uint64 \<Rightarrow> uint64 \<Rightarrow> bool \<Rightarrow> 'a kmem_scheme \<Rightarrow> (uint64 \<times> 'a kmem_scheme) option" where
  "walk_loop 0 pagetable va alloc s = Some (pagetable + 8 * PX 0 va, s)"
| "walk_loop (Suc l) pagetable va alloc s =
     (let pte = pagetable + 8 * PX (Suc l) va in
      if load64 (phys s) pte AND PTE_V \<noteq> 0
      then walk_loop l (PTE2PA (load64 (phys s) pte)) va alloc s
      else if \<not> alloc then Some (0, s)
      else do {
        (pagetable, s) \<leftarrow> kalloc s;
        if pagetable = 0 then Some (0, s)
        else do {
          let s = s\<lparr>phys := memset pagetable 0 (ucast PGSIZE) (phys s)\<rparr>;
          let s = s\<lparr>phys := store64 pte (PA2PTE pagetable OR PTE_V) (phys s)\<rparr>;
          walk_loop l pagetable va alloc s
        }
      })"

definition walk :: "uint64 \<Rightarrow> uint64 \<Rightarrow> bool \<Rightarrow> 'a kmem_scheme \<Rightarrow> (uint64 \<times> 'a kmem_scheme) option" where
  "walk pagetable va alloc s = do {
     panic_if (MAXVA \<le> va) ''walk'';
     walk_loop 2 pagetable va alloc s
   }"

text \<open>\<open>walkaddr\<close> only reads; a walk without \<open>alloc\<close> returns the state it was given.\<close>

definition walkaddr :: "uint64 \<Rightarrow> uint64 \<Rightarrow> 'a kmem_scheme \<Rightarrow> uint64 option" where
  "walkaddr pagetable va s =
     (if MAXVA \<le> va then Some 0
      else do {
        (pte, s) \<leftarrow> walk pagetable va False s;
        Some (if pte = 0 then 0
          else if load64 (phys s) pte AND PTE_V = 0 then 0
          else if load64 (phys s) pte AND PTE_U = 0 then 0
          else PTE2PA (load64 (phys s) pte))
      })"

section \<open>Mapping and unmapping\<close>

text \<open>
  The permission bits are passed as \<open>int\<close> in C and widened to 64 bits when they are or-ed into the
  entry; here they are 64-bit words from the start.
\<close>

partial_function (option) mappages_loop ::
  "uint64 \<Rightarrow> uint64 \<Rightarrow> uint64 \<Rightarrow> uint64 \<Rightarrow> uint64 \<Rightarrow> 'a kmem_scheme \<Rightarrow> (int \<times> 'a kmem_scheme) option" where
  "mappages_loop pagetable a last_va pa perm s = do {
     (pte, s) \<leftarrow> walk pagetable a True s;
     if pte = 0 then Some (-1, s)
     else do {
       panic_if (load64 (phys s) pte AND PTE_V \<noteq> 0) ''mappages: remap'';
       let s = s\<lparr>phys := store64 pte (PA2PTE pa OR perm OR PTE_V) (phys s)\<rparr>;
       if a = last_va then Some (0, s)
       else mappages_loop pagetable (a + PGSIZE) last_va (pa + PGSIZE) perm s
     }
   }"

definition mappages ::
  "uint64 \<Rightarrow> uint64 \<Rightarrow> uint64 \<Rightarrow> uint64 \<Rightarrow> uint64 \<Rightarrow> 'a kmem_scheme \<Rightarrow> (int \<times> 'a kmem_scheme) option" where
  "mappages pagetable va sz pa perm s = do {
     panic_if (sz = 0) ''mappages: size'';
     mappages_loop pagetable (PGROUNDDOWN va) (PGROUNDDOWN (va + sz - 1)) pa perm s
   }"

definition kvmmap ::
  "uint64 \<Rightarrow> uint64 \<Rightarrow> uint64 \<Rightarrow> uint64 \<Rightarrow> uint64 \<Rightarrow> 'a kmem_scheme \<Rightarrow> 'a kmem_scheme option" where
  "kvmmap kpgtbl va pa sz perm s = do {
     (r, s) \<leftarrow> mappages kpgtbl va sz pa perm s;
     panic_if (r \<noteq> 0) ''kvmmap'';
     Some s
   }"

partial_function (option) uvmunmap_loop ::
  "uint64 \<Rightarrow> uint64 \<Rightarrow> uint64 \<Rightarrow> bool \<Rightarrow> 'a kmem_scheme \<Rightarrow> 'a kmem_scheme option" where
  "uvmunmap_loop pagetable a limit do_free s =
     (if a < limit then do {
        (pte, s) \<leftarrow> walk pagetable a False s;
        panic_if (pte = 0) ''uvmunmap: walk'';
        panic_if (load64 (phys s) pte AND PTE_V = 0) ''uvmunmap: not mapped'';
        panic_if (PTE_FLAGS (load64 (phys s) pte) = PTE_V) ''uvmunmap: not a leaf'';
        s \<leftarrow> (if do_free then kfree (PTE2PA (load64 (phys s) pte)) s else Some s);
        let s = s\<lparr>phys := store64 pte 0 (phys s)\<rparr>;
        uvmunmap_loop pagetable (a + PGSIZE) limit do_free s
      } else Some s)"

definition uvmunmap :: "uint64 \<Rightarrow> uint64 \<Rightarrow> uint64 \<Rightarrow> bool \<Rightarrow> 'a kmem_scheme \<Rightarrow> 'a kmem_scheme option" where
  "uvmunmap pagetable va npages do_free s = do {
     panic_if (va mod PGSIZE \<noteq> 0) ''uvmunmap: not aligned'';
     uvmunmap_loop pagetable va (va + npages * PGSIZE) do_free s
   }"

section \<open>User address spaces\<close>

definition uvmcreate :: "'a kmem_scheme \<Rightarrow> (uint64 \<times> 'a kmem_scheme) option" where
  "uvmcreate s = do {
     (pagetable, s) \<leftarrow> kalloc s;
     if pagetable = 0 then Some (0, s)
     else Some (pagetable, s\<lparr>phys := memset pagetable 0 (ucast PGSIZE) (phys s)\<rparr>)
   }"

definition uvmfirst :: "uint64 \<Rightarrow> uint64 \<Rightarrow> uint \<Rightarrow> 'a kmem_scheme \<Rightarrow> 'a kmem_scheme option" where
  "uvmfirst pagetable src sz s = do {
     panic_if (PGSIZE \<le> ucast sz) ''uvmfirst: more than a page'';
     (mem, s) \<leftarrow> kalloc s;
     let s = s\<lparr>phys := memset mem 0 (ucast PGSIZE) (phys s)\<rparr>;
     (_, s) \<leftarrow> mappages pagetable 0 PGSIZE mem (PTE_W OR PTE_R OR PTE_X OR PTE_U) s;
     Some (s\<lparr>phys := memmove mem src sz (phys s)\<rparr>)
   }"

text \<open>The page count of \<open>uvmdealloc\<close> is a C \<open>int\<close>: truncated to 32 bits, then sign-extended.\<close>

definition uvmdealloc :: "uint64 \<Rightarrow> uint64 \<Rightarrow> uint64 \<Rightarrow> 'a kmem_scheme \<Rightarrow> (uint64 \<times> 'a kmem_scheme) option" where
  "uvmdealloc pagetable oldsz newsz s =
     (if oldsz \<le> newsz then Some (oldsz, s)
      else if PGROUNDUP newsz < PGROUNDUP oldsz then do {
        let npages = (ucast ((PGROUNDUP oldsz - PGROUNDUP newsz) div PGSIZE) :: uint);
        s \<leftarrow> uvmunmap pagetable (PGROUNDUP newsz) (scast npages) True s;
        Some (newsz, s)
      } else Some (newsz, s))"

partial_function (option) uvmalloc_loop ::
  "uint64 \<Rightarrow> uint64 \<Rightarrow> uint64 \<Rightarrow> uint64 \<Rightarrow> uint64 \<Rightarrow> 'a kmem_scheme \<Rightarrow> (uint64 \<times> 'a kmem_scheme) option" where
  "uvmalloc_loop pagetable a oldsz newsz xperm s =
     (if a < newsz then do {
        (mem, s) \<leftarrow> kalloc s;
        if mem = 0 then do {
          (_, s) \<leftarrow> uvmdealloc pagetable a oldsz s;
          Some (0, s)
        } else do {
          let s = s\<lparr>phys := memset mem 0 (ucast PGSIZE) (phys s)\<rparr>;
          (r, s) \<leftarrow> mappages pagetable a PGSIZE mem (PTE_R OR PTE_U OR xperm) s;
          if r \<noteq> 0 then do {
            s \<leftarrow> kfree mem s;
            (_, s) \<leftarrow> uvmdealloc pagetable a oldsz s;
            Some (0, s)
          } else uvmalloc_loop pagetable (a + PGSIZE) oldsz newsz xperm s
        }
      } else Some (newsz, s))"

definition uvmalloc ::
  "uint64 \<Rightarrow> uint64 \<Rightarrow> uint64 \<Rightarrow> uint64 \<Rightarrow> 'a kmem_scheme \<Rightarrow> (uint64 \<times> 'a kmem_scheme) option" where
  "uvmalloc pagetable oldsz newsz xperm s =
     (if newsz < oldsz then Some (oldsz, s)
      else let oldsz = PGROUNDUP oldsz in uvmalloc_loop pagetable oldsz oldsz newsz xperm s)"

text \<open>\<open>freewalk_loop i\<close> is \<open>freewalk\<close> from entry \<open>i\<close> on; the recursive call starts at entry 0.\<close>

partial_function (option) freewalk_loop :: "nat \<Rightarrow> uint64 \<Rightarrow> 'a kmem_scheme \<Rightarrow> 'a kmem_scheme option" where
  "freewalk_loop i pagetable s =
     (if i < 512 then
        let slot = pagetable + 8 * of_nat i; pte = load64 (phys s) slot in
        if pte AND PTE_V \<noteq> 0 \<and> pte AND (PTE_R OR PTE_W OR PTE_X) = 0 then do {
          s \<leftarrow> freewalk_loop 0 (PTE2PA pte) s;
          let s = s\<lparr>phys := store64 slot 0 (phys s)\<rparr>;
          freewalk_loop (i + 1) pagetable s
        }
        else if pte AND PTE_V \<noteq> 0 then panic ''freewalk: leaf''
        else freewalk_loop (i + 1) pagetable s
      else kfree pagetable s)"

definition freewalk :: "uint64 \<Rightarrow> 'a kmem_scheme \<Rightarrow> 'a kmem_scheme option" where
  "freewalk pagetable s = freewalk_loop 0 pagetable s"

definition uvmfree :: "uint64 \<Rightarrow> uint64 \<Rightarrow> 'a kmem_scheme \<Rightarrow> 'a kmem_scheme option" where
  "uvmfree pagetable sz s = do {
     s \<leftarrow> (if 0 < sz then uvmunmap pagetable 0 (PGROUNDUP sz div PGSIZE) True s else Some s);
     freewalk pagetable s
   }"

partial_function (option) uvmcopy_loop ::
  "uint64 \<Rightarrow> uint64 \<Rightarrow> uint64 \<Rightarrow> uint64 \<Rightarrow> 'a kmem_scheme \<Rightarrow> (int \<times> 'a kmem_scheme) option" where
  "uvmcopy_loop old new i sz s =
     (if i < sz then do {
        (pte, s) \<leftarrow> walk old i False s;
        panic_if (pte = 0) ''uvmcopy: pte should exist'';
        panic_if (load64 (phys s) pte AND PTE_V = 0) ''uvmcopy: page not present'';
        let pa = PTE2PA (load64 (phys s) pte);
        let flags = PTE_FLAGS (load64 (phys s) pte);
        (mem, s) \<leftarrow> kalloc s;
        if mem = 0 then do {
          s \<leftarrow> uvmunmap new 0 (i div PGSIZE) True s;
          Some (-1, s)
        } else do {
          let s = s\<lparr>phys := memmove mem pa (ucast PGSIZE) (phys s)\<rparr>;
          (r, s) \<leftarrow> mappages new i PGSIZE mem flags s;
          if r \<noteq> 0 then do {
            s \<leftarrow> kfree mem s;
            s \<leftarrow> uvmunmap new 0 (i div PGSIZE) True s;
            Some (-1, s)
          } else uvmcopy_loop old new (i + PGSIZE) sz s
        }
      } else Some (0, s))"

definition uvmcopy :: "uint64 \<Rightarrow> uint64 \<Rightarrow> uint64 \<Rightarrow> 'a kmem_scheme \<Rightarrow> (int \<times> 'a kmem_scheme) option" where
  "uvmcopy old new sz s = uvmcopy_loop old new 0 sz s"

definition uvmclear :: "uint64 \<Rightarrow> uint64 \<Rightarrow> 'a kmem_scheme \<Rightarrow> 'a kmem_scheme option" where
  "uvmclear pagetable va s = do {
     (pte, s) \<leftarrow> walk pagetable va False s;
     panic_if (pte = 0) ''uvmclear'';
     Some (s\<lparr>phys := store64 pte (load64 (phys s) pte AND NOT PTE_U) (phys s)\<rparr>)
   }"

section \<open>The kernel's own page table\<close>

text \<open>
  The loop of \<open>proc_mapstacks\<close> (proc.c) over the process table, and \<open>kvmmake\<close>. The addresses
  \<open>etext\<close> and \<open>trampoline\<close> are symbols of the linker script, hence arguments.
\<close>

fun proc_mapstacks_loop :: "nat list \<Rightarrow> uint64 \<Rightarrow> 'a kmem_scheme \<Rightarrow> 'a kmem_scheme option" where
  "proc_mapstacks_loop [] kpgtbl s = Some s"
| "proc_mapstacks_loop (p # ps) kpgtbl s = do {
     (pa, s) \<leftarrow> kalloc s;
     panic_if (pa = 0) ''kalloc'';
     let va = KSTACK p;
     s \<leftarrow> kvmmap kpgtbl va pa PGSIZE (PTE_R OR PTE_W) s;
     proc_mapstacks_loop ps kpgtbl s
   }"

definition proc_mapstacks :: "uint64 \<Rightarrow> 'a kmem_scheme \<Rightarrow> 'a kmem_scheme option" where
  "proc_mapstacks kpgtbl s = proc_mapstacks_loop [0..<NPROC] kpgtbl s"

definition kvmmake :: "uint64 \<Rightarrow> uint64 \<Rightarrow> 'a kmem_scheme \<Rightarrow> (uint64 \<times> 'a kmem_scheme) option" where
  "kvmmake etext trampoline s = do {
     (kpgtbl, s) \<leftarrow> kalloc s;
     let s = s\<lparr>phys := memset kpgtbl 0 (ucast PGSIZE) (phys s)\<rparr>;
     s \<leftarrow> kvmmap kpgtbl UART0 UART0 PGSIZE (PTE_R OR PTE_W) s;
     s \<leftarrow> kvmmap kpgtbl VIRTIO0 VIRTIO0 PGSIZE (PTE_R OR PTE_W) s;
     s \<leftarrow> kvmmap kpgtbl PLIC PLIC 0x400000 (PTE_R OR PTE_W) s;
     s \<leftarrow> kvmmap kpgtbl KERNBASE KERNBASE (etext - KERNBASE) (PTE_R OR PTE_X) s;
     s \<leftarrow> kvmmap kpgtbl etext etext (PHYSTOP - etext) (PTE_R OR PTE_W) s;
     s \<leftarrow> kvmmap kpgtbl TRAMPOLINE trampoline PGSIZE (PTE_R OR PTE_X) s;
     s \<leftarrow> proc_mapstacks kpgtbl s;
     Some (kpgtbl, s)
   }"

section \<open>Bit fields of addresses and entries\<close>

lemma PX_take_bit: "PX l va = take_bit 9 (drop_bit (12 + 9 * l) va)"
  by (simp add: PX_def take_bit_eq_mask mask_eq_exp_minus_1)

lemma PX_bit: "bit (PX l va) k \<longleftrightarrow> k < 9 \<and> bit va (12 + 9 * l + k)"
  by (auto simp: PX_take_bit bit_simps)

lemma PX_less: "PX l va < 512"
  by (simp add: PX_take_bit take_bit_eq_mod word_less_nat_alt unat_mod)

lemma MAXVA_bit:
  assumes "va < MAXVA" "bit va n"
  shows "n < 38"
proof -
  have "unat va < 2 ^ 38" using assms(1) by (simp add: MAXVA_def word_less_nat_alt)
  then have "take_bit 38 (unat va) = unat va" by (rule take_bit_nat_eq_self)
  moreover have "bit (unat va) n"
    using assms(2) by (auto simp: bit_unsigned_iff dest: bit_imp_le_length)
  ultimately show ?thesis by (metis bit_take_bit_iff)
qed

lemma PGROUNDDOWN_bit: "bit (PGROUNDDOWN a) n \<longleftrightarrow> bit a n \<and> 12 \<le> n"
  by (auto simp: PGROUNDDOWN_def PGSIZE_mask bit_simps dest: bit_imp_le_length)

text \<open>A virtual page is determined by its three table indices.\<close>

lemma PX_inj:
  assumes "va < MAXVA" "va' < MAXVA" "\<forall>l\<le>2. PX l va = PX l va'"
  shows "PGROUNDDOWN va = PGROUNDDOWN va'"
proof (rule bit_word_eqI)
  fix n
  have px: "k < 9 \<Longrightarrow> l \<le> 2 \<Longrightarrow> bit va (12 + 9 * l + k) = bit va' (12 + 9 * l + k)" for l k
    using assms(3) PX_bit by metis
  have "bit va n = bit va' n" if "12 \<le> n" "n < 38"
  proof -
    have "n = 12 + 9 * ((n - 12) div 9) + (n - 12) mod 9" "(n - 12) div 9 \<le> 2" "(n - 12) mod 9 < 9"
      using that by auto
    then show ?thesis using px by metis
  qed
  then show "bit (PGROUNDDOWN va) n = bit (PGROUNDDOWN va') n"
    using MAXVA_bit [OF assms(1)] MAXVA_bit [OF assms(2)] by (auto simp: PGROUNDDOWN_bit)
qed

lemma PX_PGROUNDDOWN: "PX l (PGROUNDDOWN va) = PX l va"
  by (rule bit_word_eqI) (auto simp: PX_bit PGROUNDDOWN_bit)

text \<open>An entry holds the page address and the flags without loss.\<close>

lemma PTE2PA_bit: "bit (PTE2PA x) n \<longleftrightarrow> 12 \<le> n \<and> n < 64 \<and> bit x (n - 2)"
  by (auto simp: PTE2PA_def bit_simps)

lemma PA2PTE_bit: "bit (PA2PTE x) n \<longleftrightarrow> 10 \<le> n \<and> bit x (n + 2)"
  by (auto simp: PA2PTE_def bit_simps add.commute dest: bit_imp_le_length)

lemma flags_bit:
  assumes "(f :: uint64) < 1024" "bit f n"
  shows "n < 10"
proof -
  have "take_bit 10 f = f" using assms(1) by (simp add: take_bit_eq_mod word_less_nat_alt unat_inj unat_mod)
  then show ?thesis using assms(2) by (metis bit_take_bit_iff)
qed

lemma page_bit:
  assumes "aligned 4096 pa" "bit pa n"
  shows "12 \<le> n"
proof -
  have "take_bit 12 (unat pa) = 0" using assms(1) by (simp add: aligned_def take_bit_eq_mod)
  moreover have "bit (unat pa) n" using assms(2) by (auto simp: bit_unsigned_iff dest: bit_imp_le_length)
  ultimately show ?thesis by (metis bit_0_eq bit_take_bit_iff bot_apply bot_bool_def not_le)
qed

lemma PTE2PA_PA2PTE:
  assumes "aligned 4096 pa" "f < 1024"
  shows "PTE2PA (PA2PTE pa OR f) = pa"
proof (rule bit_word_eqI)
  fix n assume "n < LENGTH(64)"
  have "\<not> bit f (n - 2)" if "12 \<le> n"
    using flags_bit [OF assms(2), of "n - 2"] that by auto
  moreover have "12 \<le> n \<Longrightarrow> n - 2 + 2 = n" by simp
  ultimately show "bit (PTE2PA (PA2PTE pa OR f)) n = bit pa n"
    using page_bit [OF assms(1), of n] \<open>n < LENGTH(64)\<close> by (auto simp: PTE2PA_bit PA2PTE_bit bit_or_iff simp del: add_2_eq_Suc')
qed

lemma PTE_FLAGS_bit: "bit (PTE_FLAGS x) n \<longleftrightarrow> n < 10 \<and> bit x n"
proof -
  have "PTE_FLAGS x = take_bit 10 x"
    by (simp add: PTE_FLAGS_def take_bit_eq_mask mask_eq_exp_minus_1)
  then show ?thesis by (simp add: bit_take_bit_iff)
qed

lemma PTE_FLAGS_PA2PTE: "f < 1024 \<Longrightarrow> PTE_FLAGS (PA2PTE pa OR f) = f"
  by (rule bit_word_eqI) (auto simp: PTE_FLAGS_bit PA2PTE_bit bit_or_iff dest: flags_bit)

lemma valid_iff: "x AND PTE_V \<noteq> 0 \<longleftrightarrow> bit x 0"
  by (simp add: PTE_V_def and_one_eq odd_iff_mod_2_eq_one [symmetric] bit_0 mod_2_eq_odd)

lemma PTE_V_nonzero [simp]: "PTE_V \<noteq> 0"
  by (simp add: PTE_V_def)

lemma valid_OR [simp]: "(x OR PTE_V) AND PTE_V \<noteq> 0" "(x OR (y OR PTE_V)) AND PTE_V \<noteq> 0"
  unfolding valid_iff bit_or_iff by (simp_all add: PTE_V_def bit_0)

end
