(* ===== verification/PageTable.thy ===== *)
theory PageTable
  imports Vm
begin

text \<open>
  The page table as a data structure: \<open>ptable m root lvl\<close> says that the pages in \<open>dom lvl\<close> form
  a three-level tree below \<open>root\<close>, and \<open>pte_of m root\<close> is the function from virtual address to
  leaf entry that the tree represents. \<open>walk\<close> may add table pages but never changes that function;
  storing through the pointer \<open>walk\<close> returns changes it at exactly one virtual page.
\<close>

section \<open>The tree\<close>

abbreviation slot :: "uint64 \<Rightarrow> uint64 \<Rightarrow> uint64" where
  "slot q i \<equiv> q + 8 * i"

abbreviation valid :: "uint64 \<Rightarrow> bool" where
  "valid e \<equiv> e AND PTE_V \<noteq> 0"

fun leaf :: "memory \<Rightarrow> nat \<Rightarrow> uint64 \<Rightarrow> uint64 \<Rightarrow> uint64 option" where
  "leaf m 0 pt va = Some (slot pt (PX 0 va))"
| "leaf m (Suc l) pt va =
     (let e = load64 m (slot pt (PX (Suc l) va)) in if valid e then leaf m l (PTE2PA e) va else None)"

definition pte_at :: "memory \<Rightarrow> nat \<Rightarrow> uint64 \<Rightarrow> uint64 \<Rightarrow> uint64" where
  "pte_at m l pt va = (case leaf m l pt va of None \<Rightarrow> 0 | Some a \<Rightarrow> load64 m a)"

definition pte_of :: "memory \<Rightarrow> uint64 \<Rightarrow> uint64 \<Rightarrow> uint64" where
  "pte_of m root va = pte_at m 2 root va"

definition ptable :: "memory \<Rightarrow> uint64 \<Rightarrow> (uint64 \<rightharpoonup> nat) \<Rightarrow> bool" where
  "ptable m root lvl \<longleftrightarrow> lvl root = Some 2 \<and> (\<forall>q\<in>dom lvl. aligned 4096 q) \<and>
     (\<forall>q l i. lvl q = Some (Suc l) \<longrightarrow> i < 512 \<longrightarrow> valid (load64 m (slot q i)) \<longrightarrow>
        lvl (PTE2PA (load64 m (slot q i))) = Some l) \<and>
     (\<forall>q l i q' l' i'. lvl q = Some (Suc l) \<longrightarrow> lvl q' = Some (Suc l') \<longrightarrow> i < 512 \<longrightarrow> i' < 512 \<longrightarrow>
        valid (load64 m (slot q i)) \<longrightarrow> valid (load64 m (slot q' i')) \<longrightarrow>
        PTE2PA (load64 m (slot q i)) = PTE2PA (load64 m (slot q' i')) \<longrightarrow> q = q' \<and> i = i')"

lemma ptableD:
  assumes "ptable m root lvl"
  shows ptable_root: "lvl root = Some 2"
    and ptable_aligned: "lvl q = Some l \<Longrightarrow> aligned 4096 q"
    and ptable_child: "lvl q = Some (Suc l) \<Longrightarrow> i < 512 \<Longrightarrow> valid (load64 m (slot q i)) \<Longrightarrow>
        lvl (PTE2PA (load64 m (slot q i))) = Some l"
    and ptable_inj: "lvl q = Some (Suc l) \<Longrightarrow> lvl q' = Some (Suc l') \<Longrightarrow> i < 512 \<Longrightarrow> i' < 512 \<Longrightarrow>
        valid (load64 m (slot q i)) \<Longrightarrow> valid (load64 m (slot q' i')) \<Longrightarrow>
        PTE2PA (load64 m (slot q i)) = PTE2PA (load64 m (slot q' i')) \<Longrightarrow> q = q' \<and> i = i'"
proof -
  show "lvl root = Some 2" using assms by (simp add: ptable_def)
  show "lvl q = Some l \<Longrightarrow> aligned 4096 q" using assms by (auto simp: ptable_def)
  show "lvl q = Some (Suc l) \<Longrightarrow> i < 512 \<Longrightarrow> valid (load64 m (slot q i)) \<Longrightarrow>
        lvl (PTE2PA (load64 m (slot q i))) = Some l"
    using assms unfolding ptable_def by metis
  show "lvl q = Some (Suc l) \<Longrightarrow> lvl q' = Some (Suc l') \<Longrightarrow> i < 512 \<Longrightarrow> i' < 512 \<Longrightarrow>
        valid (load64 m (slot q i)) \<Longrightarrow> valid (load64 m (slot q' i')) \<Longrightarrow>
        PTE2PA (load64 m (slot q i)) = PTE2PA (load64 m (slot q' i')) \<Longrightarrow> q = q' \<and> i = i'"
    using assms unfolding ptable_def by metis
qed

text \<open>Table slots are aligned words inside their page, so two slots coincide or are disjoint.\<close>

lemma slot_of_nat: "i < 512 \<Longrightarrow> slot q i = q + of_nat (8 * unat i) \<and> 8 * unat i < 4096"
  by (simp add: word_less_nat_alt)

lemma page_dvd: "(4096::nat) dvd 2 ^ 64"
  by simp

lemma slot_eq:
  assumes "aligned 4096 q" "aligned 4096 q'" "i < 512" "i' < 512" "slot q i = slot q' i'"
  shows "q = q' \<and> i = i'"
proof -
  define k k' where "k = 8 * unat i" and "k' = 8 * unat i'"
  note s = slot_of_nat [OF assms(3), of q, folded k_def] slot_of_nat [OF assms(4), of q', folded k'_def]
  have k: "q + of_nat k = q' + of_nat k'" "k < 4096" "k' < 4096"
    using s assms(5) by metis+
  have "q = q'"
    using aligned_disjoint [OF assms(1,2) page_dvd k(2,3)] k(1) by blast
  moreover have "unat (q + of_nat k) = unat q + k" "unat (q' + of_nat k') = unat q' + k'"
    using aligned_add_less [OF assms(1) page_dvd k(2)] aligned_add_less [OF assms(2) page_dvd k(3)] by auto
  ultimately have "k = k'" using k(1) by (metis add_left_cancel)
  with \<open>q = q'\<close> show ?thesis by (simp add: unat_inj k_def k'_def)
qed

lemma slot_aligned:
  assumes "aligned 4096 q" "i < 512"
  shows "aligned 8 (slot q i)"
proof -
  have "unat (slot q i) = unat q + 8 * unat i"
    using aligned_add_less [OF assms(1) page_dvd conjunct2 [OF slot_of_nat [OF assms(2)]]]
      slot_of_nat [OF assms(2), of q] by metis
  moreover have "8 dvd unat q"
    using assms(1) dvd_trans [of 8 4096 "unat q"] by (simp add: aligned_def mod_eq_0_iff_dvd)
  ultimately show ?thesis by (simp add: aligned_def)
qed

lemma slot_in_page:
  assumes "i < 512" "k < 8"
  shows "slot q i + of_nat k - q < PGSIZE"
proof -
  have "slot q i + of_nat k = q + of_nat (8 * unat i + k)" by simp
  moreover have "8 * unat i + k < 4096"
    using assms by (auto simp: word_less_nat_alt)
  ultimately show ?thesis unfolding in_page_iff by blast
qed

section \<open>Reading the tree\<close>

lemma leaf_cong:
  assumes "ptable m root lvl"
    and "\<And>q l i. lvl q = Some (Suc l) \<Longrightarrow> i < 512 \<Longrightarrow> load64 m' (slot q i) = load64 m (slot q i)"
  shows "lvl q = Some l \<Longrightarrow> leaf m' l q va = leaf m l q va"
proof (induction l arbitrary: q)
  case 0
  then show ?case by simp
next
  case (Suc l)
  then show ?case
    using assms(2) [OF Suc.prems PX_less] ptable_child [OF assms(1) Suc.prems PX_less] by (simp add: Let_def)
qed

lemma ptable_cong:
  assumes "ptable m root lvl"
    and eq: "\<And>q l i. lvl q = Some (Suc l) \<Longrightarrow> i < 512 \<Longrightarrow> load64 m' (slot q i) = load64 m (slot q i)"
  shows "ptable m' root lvl"
  using assms(1) unfolding ptable_def by (simp add: eq cong: imp_cong)

lemma leaf_slot:
  "ptable m root lvl \<Longrightarrow> lvl q = Some l \<Longrightarrow> leaf m l q va = Some a \<Longrightarrow>
   \<exists>q0. lvl q0 = Some 0 \<and> a = slot q0 (PX 0 va)"
proof (induction l arbitrary: q)
  case 0
  then show ?case by auto
next
  case (Suc l)
  then show ?case
    using ptable_child [OF Suc.prems(1,2) PX_less] by (auto simp: Let_def split: if_splits)
qed

lemma leaf_inj:
  "ptable m root lvl \<Longrightarrow> lvl q = Some l \<Longrightarrow> lvl q' = Some l \<Longrightarrow>
   leaf m l q va = Some a \<Longrightarrow> leaf m l q' va' = Some a \<Longrightarrow> q = q' \<and> (\<forall>k\<le>l. PX k va = PX k va')"
proof (induction l arbitrary: q q')
  case 0
  then have "slot q (PX 0 va) = slot q' (PX 0 va')" by simp
  then show ?case
    using slot_eq [of q q'] ptable_aligned [OF 0(1)] 0(2,3) PX_less by blast
next
  case (Suc l)
  note pt = Suc.prems(1)
  define e e' where "e = load64 m (slot q (PX (Suc l) va))" and "e' = load64 m (slot q' (PX (Suc l) va'))"
  have v: "valid e" "valid e'" "leaf m l (PTE2PA e) va = Some a" "leaf m l (PTE2PA e') va' = Some a"
    using Suc.prems(4,5) by (auto simp: e_def e'_def Let_def split: if_splits)
  have c: "lvl (PTE2PA e) = Some l" "lvl (PTE2PA e') = Some l"
    using v(1,2) ptable_child [OF pt Suc.prems(2) PX_less] ptable_child [OF pt Suc.prems(3) PX_less]
    unfolding e_def e'_def by blast+
  have IH: "PTE2PA e = PTE2PA e'" "\<forall>k\<le>l. PX k va = PX k va'"
    using Suc.IH [OF pt c v(3,4)] by auto
  then have "q = q' \<and> PX (Suc l) va = PX (Suc l) va'"
    using ptable_inj [OF pt Suc.prems(2,3) PX_less PX_less] v(1,2) unfolding e_def e'_def by blast
  with IH(2) show ?case using le_Suc_eq by auto
qed

lemma leaf_same_page:
  assumes "ptable m root lvl" "va < MAXVA" "va' < MAXVA"
    "leaf m 2 root va = Some a" "leaf m 2 root va' = Some a"
  shows "PGROUNDDOWN va = PGROUNDDOWN va'"
proof -
  have "lvl root = Some 2" by (rule ptable_root [OF assms(1)])
  then show ?thesis
    using PX_inj [OF assms(2,3)] leaf_inj [OF assms(1) _ _ assms(4,5)] by blast
qed

lemma leaf_PX_cong: "(\<And>k. PX k va = PX k va') \<Longrightarrow> leaf m l q va = leaf m l q va'"
  by (induction l arbitrary: q) (simp_all add: Let_def)

lemma pte_of_page: "PGROUNDDOWN va = PGROUNDDOWN va' \<Longrightarrow> leaf m l q va = leaf m l q va'"
  using leaf_PX_cong PX_PGROUNDDOWN by metis

section \<open>Writing a leaf entry\<close>

lemma slot_store_other:
  assumes "aligned 4096 q" "aligned 4096 q'" "i < 512" "i' < 512" "q \<noteq> q' \<or> i \<noteq> i'"
  shows "load64 (store64 (slot q i) v m) (slot q' i') = load64 m (slot q' i')"
proof -
  have "slot q i \<noteq> slot q' i'" using slot_eq [OF assms(1-4)] assms(5) by blast
  then show ?thesis
    by (rule load64_store64_other [OF slot_aligned [OF assms(1,3)] slot_aligned [OF assms(2,4)]])
qed

lemma store_leaf:
  assumes pt: "ptable m root lvl" and va: "va < MAXVA" "leaf m 2 root va = Some a"
  shows "ptable (store64 a v m) root lvl"
    and "leaf (store64 a v m) 2 root va' = leaf m 2 root va'"
    and "va' < MAXVA \<Longrightarrow> pte_of (store64 a v m) root va' =
      (if PGROUNDDOWN va' = PGROUNDDOWN va then v else pte_of m root va')"
proof -
  obtain q0 where q0: "lvl q0 = Some 0" "a = slot q0 (PX 0 va)"
    using leaf_slot [OF pt ptable_root [OF pt] va(2)] by blast
  have inner: "load64 (store64 a v m) (slot q i) = load64 m (slot q i)"
    if "lvl q = Some (Suc l)" "i < 512" for q l i
  proof -
    have "q0 \<noteq> q" using that q0(1) by auto
    then show ?thesis unfolding q0(2)
      using that q0(1) by (intro slot_store_other ptable_aligned [OF pt] PX_less) auto
  qed
  show pt': "ptable (store64 a v m) root lvl"
    by (rule ptable_cong [OF pt inner])
  show leaf': "leaf (store64 a v m) 2 root va' = leaf m 2 root va'" for va'
    by (rule leaf_cong [OF pt inner ptable_root [OF pt]])
  show "pte_of (store64 a v m) root va' =
      (if PGROUNDDOWN va' = PGROUNDDOWN va then v else pte_of m root va')" if va': "va' < MAXVA"
  proof (cases "PGROUNDDOWN va' = PGROUNDDOWN va")
    case True
    then have "leaf m 2 root va' = Some a" using pte_of_page va(2) by metis
    with True show ?thesis by (simp add: pte_of_def pte_at_def leaf')
  next
    case False
    have "load64 (store64 a v m) b = load64 m b" if b: "leaf m 2 root va' = Some b" for b
    proof -
      obtain q1 where q1: "lvl q1 = Some 0" "b = slot q1 (PX 0 va')"
        using leaf_slot [OF pt ptable_root [OF pt] b] by blast
      have "a \<noteq> b" using leaf_same_page [OF pt va(1) va' va(2)] b False by metis
      then show ?thesis unfolding q0(2) q1(2)
        using q0(1) q1(1) by (intro slot_store_other ptable_aligned [OF pt] PX_less) auto
    qed
    with False show ?thesis by (simp add: pte_of_def pte_at_def leaf' split: option.split)
  qed
qed

section \<open>Adding a table page\<close>

lemma zero_invalid [simp]: "\<not> valid 0"
  by simp

lemma add_page:
  assumes pt: "ptable m root lvl" and q: "lvl q = Some (Suc l)" "i < 512" "\<not> valid (load64 m (slot q i))"
    and p: "lvl p = None" "aligned 4096 p"
    and old: "\<And>q' l' j. lvl q' = Some l' \<Longrightarrow> j < 512 \<Longrightarrow> q' \<noteq> q \<or> j \<noteq> i \<Longrightarrow>
        load64 m' (slot q' j) = load64 m (slot q' j)"
    and new: "load64 m' (slot q i) = PA2PTE p OR PTE_V"
    and zero: "\<And>j. j < 512 \<Longrightarrow> load64 m' (slot p j) = 0"
  shows "ptable m' root (lvl(p \<mapsto> l))"
    and "lvl q' = Some l' \<Longrightarrow> pte_at m' l' q' va = pte_at m l' q' va"
proof -
  have pa: "PTE2PA (PA2PTE p OR PTE_V) = p"
    by (rule PTE2PA_PA2PTE [OF p(2)]) (simp add: PTE_V_def)
  have neq: "q \<noteq> p" "root \<noteq> p" using q(1) p(1) ptable_root [OF pt] by auto
  have fresh: "PTE2PA (load64 m (slot q' j)) \<noteq> p"
    if "lvl q' = Some (Suc l')" "j < 512" "valid (load64 m (slot q' j))" for q' l' j
    using ptable_child [OF pt that] p(1) by auto
  show "ptable m' root (lvl(p \<mapsto> l))"
    unfolding ptable_def
  proof (intro conjI allI impI ballI)
    show "(lvl(p \<mapsto> l)) root = Some 2" using neq ptable_root [OF pt] by simp
  next
    fix q' assume "q' \<in> dom (lvl(p \<mapsto> l))"
    then show "aligned 4096 q'" using p ptable_aligned [OF pt] by (auto split: if_splits)
  next
    fix q' l' j
    assume *: "(lvl(p \<mapsto> l)) q' = Some (Suc l')" "j < 512" "valid (load64 m' (slot q' j))"
    then have "q' \<noteq> p" using zero by auto
    with * have l': "lvl q' = Some (Suc l')" by simp
    show "(lvl(p \<mapsto> l)) (PTE2PA (load64 m' (slot q' j))) = Some l'"
    proof (cases "q' = q \<and> j = i")
      case True
      then show ?thesis using l' q(1) new pa by simp
    next
      case False
      then have "load64 m' (slot q' j) = load64 m (slot q' j)" using old l' *(2) by blast
      then show ?thesis using ptable_child [OF pt l' *(2)] *(3) fresh [OF l' *(2)] by auto
    qed
  next
    fix q1 l1 i1 q2 l2 i2
    assume *: "(lvl(p \<mapsto> l)) q1 = Some (Suc l1)" "(lvl(p \<mapsto> l)) q2 = Some (Suc l2)" "i1 < 512" "i2 < 512"
      "valid (load64 m' (slot q1 i1))" "valid (load64 m' (slot q2 i2))"
      "PTE2PA (load64 m' (slot q1 i1)) = PTE2PA (load64 m' (slot q2 i2))"
    then have "q1 \<noteq> p" "q2 \<noteq> p" using zero by auto
    with * have l1: "lvl q1 = Some (Suc l1)" "lvl q2 = Some (Suc l2)" by auto
    consider "q1 = q \<and> i1 = i" | "q2 = q \<and> i2 = i" | "q1 \<noteq> q \<or> i1 \<noteq> i" "q2 \<noteq> q \<or> i2 \<noteq> i" by blast
    then have "q1 = q2 \<and> i1 = i2"
    proof cases
      case 1
      then have "PTE2PA (load64 m' (slot q2 i2)) = p" using *(7) new pa by simp
      then show ?thesis using fresh [OF l1(2) *(4)] *(6) old [OF l1(2) *(4)] 1 by metis
    next
      case 2
      then have "PTE2PA (load64 m' (slot q1 i1)) = p" using *(7) new pa by simp
      then show ?thesis using fresh [OF l1(1) *(3)] *(5) old [OF l1(1) *(3)] 2 by metis
    next
      case 3
      then show ?thesis
        using ptable_inj [OF pt l1 *(3,4)] *(5-7) old [OF l1(1) *(3)] old [OF l1(2) *(4)] by metis
    qed
    then show "q1 = q2" "i1 = i2" by auto
  qed
  have z: "pte_at m' l p va = 0"
    by (cases l) (auto simp: pte_at_def Let_def zero PX_less)
  show "lvl q' = Some l' \<Longrightarrow> pte_at m' l' q' va = pte_at m l' q' va"
  proof (induction l' arbitrary: q')
    case 0
    have "q' \<noteq> q" using 0 q(1) by auto
    then show ?case using old [OF 0 PX_less] by (simp add: pte_at_def)
  next
    case (Suc k)
    show ?case
    proof (cases "q' = q \<and> PX (Suc k) va = i")
      case True
      then have "k = l" using Suc.prems q(1) by simp
      with True show ?thesis using new pa q(3) z by (simp add: pte_at_def Let_def)
    next
      case False
      then have "load64 m' (slot q' (PX (Suc k) va)) = load64 m (slot q' (PX (Suc k) va))"
        using old [OF Suc.prems PX_less] by blast
      then show ?thesis
        using Suc.IH ptable_child [OF pt Suc.prems PX_less] by (simp add: pte_at_def Let_def)
    qed
  qed
qed

section \<open>Walking with allocation\<close>

text \<open>
  \<open>vm_inv\<close>: the allocator's invariant and the tree's, over disjoint sets of pages.
  \<open>vm_ext\<close>: some free pages became table pages; the represented function is the same, memory
  outside table pages is untouched, and so is every other part of the kernel state.
\<close>

definition vm_inv :: "uint64 \<Rightarrow> (uint64 \<rightharpoonup> nat) \<Rightarrow> uint64 list \<Rightarrow> 'a kmem_scheme \<Rightarrow> bool" where
  "vm_inv root lvl ps s \<longleftrightarrow> kmem_ready ps s \<and> ptable (phys s) root lvl \<and>
     (\<forall>q\<in>dom lvl. page_ok s q) \<and> dom lvl \<inter> set ps = {}"

definition vm_ext :: "uint64 \<Rightarrow> (uint64 \<rightharpoonup> nat) \<Rightarrow> uint64 list \<Rightarrow> 'a kmem_scheme \<Rightarrow>
    (uint64 \<rightharpoonup> nat) \<Rightarrow> uint64 list \<Rightarrow> 'a kmem_scheme \<Rightarrow> bool" where
  "vm_ext root lvl ps s lvl' ps' s' \<longleftrightarrow> vm_inv root lvl' ps' s' \<and> lvl \<subseteq>\<^sub>m lvl' \<and>
     (\<exists>us. ps = us @ ps' \<and> dom lvl' = dom lvl \<union> set us) \<and> kmem_same s s' \<and>
     (\<forall>l q va. lvl q = Some l \<longrightarrow> pte_at (phys s') l q va = pte_at (phys s) l q va) \<and>
     (\<forall>l q i. lvl q = Some (Suc l) \<longrightarrow> i < 512 \<longrightarrow> valid (load64 (phys s) (slot q i)) \<longrightarrow>
        load64 (phys s') (slot q i) = load64 (phys s) (slot q i)) \<and>
     (\<forall>x. (\<forall>q\<in>dom lvl'. \<not> x - q < PGSIZE) \<longrightarrow> phys s' x = phys s x)"

lemma vm_ext_refl: "vm_inv root lvl ps s \<Longrightarrow> vm_ext root lvl ps s lvl ps s"
  by (auto simp: vm_ext_def)

lemma vm_ext_trans:
  assumes "vm_ext root lvl ps s lvl' ps' s'" "vm_ext root lvl' ps' s' lvl'' ps'' s''"
  shows "vm_ext root lvl ps s lvl'' ps'' s''"
proof -
  note d = assms [unfolded vm_ext_def]
  have sub: "lvl q = Some l \<Longrightarrow> lvl' q = Some l" for q l
    using d(1) by (auto simp: map_le_def dom_def)
  have dom: "dom lvl' \<subseteq> dom lvl''" using d(2) by auto
  show ?thesis
    unfolding vm_ext_def
  proof (intro conjI allI impI)
    show "vm_inv root lvl'' ps'' s''" using d(2) by blast
    show "lvl \<subseteq>\<^sub>m lvl''" by (rule map_le_trans [of _ lvl']) (use d in simp_all)
    show "\<exists>us. ps = us @ ps'' \<and> dom lvl'' = dom lvl \<union> set us" using d by (metis append.assoc set_append Un_assoc)
    show "kmem_same s s''" by (rule kmem_same_trans [of _ s']) (use d in simp_all)
    show "pte_at (phys s'') l q va = pte_at (phys s) l q va" if "lvl q = Some l" for l q va
      using d that sub [OF that] by metis
    show "load64 (phys s'') (slot q i) = load64 (phys s) (slot q i)"
      if "lvl q = Some (Suc l)" "i < 512" "valid (load64 (phys s) (slot q i))" for l q i
      using d that sub [OF that(1)] by metis
    show "phys s'' x = phys s x" if "\<forall>q\<in>dom lvl''. \<not> x - q < PGSIZE" for x
    proof -
      have "phys s'' x = phys s' x" "\<forall>q\<in>dom lvl'. \<not> x - q < PGSIZE" using d(2) that dom by blast+
      then show ?thesis using d(1) by simp
    qed
  qed
qed

lemma vm_inv_settle: "vm_inv root lvl ps (settle s) = vm_inv root lvl ps s"
  by (simp add: vm_inv_def kmem_ready_def page_ok_def)

lemma vm_invD:
  assumes "vm_inv root lvl ps s" "lvl q = Some l"
  shows "aligned 4096 q" "page_ok s q" "q \<notin> set ps" "q \<noteq> 0"
proof -
  have "q \<in> dom lvl" using assms(2) by blast
  with assms(1) show pg: "page_ok s q" and "q \<notin> set ps" by (auto simp: vm_inv_def)
  show "aligned 4096 q" by (rule page_ok_aligned [OF pg])
  have "0 < kend s" using assms(1) by (simp add: vm_inv_def kmem_ready_def kmem_inv_def)
  with pg show "q \<noteq> 0" by (auto simp: page_ok_def)
qed

lemma slot_nonzero:
  assumes "aligned 4096 q" "q \<noteq> 0" "i < 512"
  shows "slot q i \<noteq> 0"
  using slot_eq [OF assms(1) _ assms(3), of 0 0] assms(2) by (auto simp: aligned_def)

lemma slot_outside_page:
  assumes "aligned 4096 q" "aligned 4096 p" "q \<noteq> p" "i < 512"
    "\<And>x. \<not> x - p < PGSIZE \<Longrightarrow> m' x = m x"
  shows "load64 m' (slot q i) = load64 m (slot q i)"
proof (rule load64_cong)
  fix k :: nat assume "k < 8"
  then have "slot q i + of_nat k - q < PGSIZE" by (rule slot_in_page [OF assms(4)])
  then show "m' (slot q i + of_nat k) = m (slot q i + of_nat k)"
    using pages_disjoint [OF assms(1,2,3)] assms(5) by blast
qed

lemma store64_slot_outside:
  assumes "i < 512" "\<not> x - q < PGSIZE"
  shows "store64 (slot q i) v m x = m x"
proof -
  have "\<not> x - slot q i < 8"
    using slot_in_page [OF assms(1)] assms(2) by (auto simp: in_window_iff)
  then show ?thesis by (simp add: store64_def)
qed

lemma le_get_zero: "le_get n (\<lambda>i. 0) = 0"
  by (induction n) simp_all

lemma load64_zero:
  assumes "\<And>k. k < 8 \<Longrightarrow> m (a + of_nat k) = 0"
  shows "load64 m a = 0"
proof -
  have "le_get 8 (\<lambda>i. m (a + of_nat i)) = le_get 8 (\<lambda>i. 0)" by (rule le_get_cong) (simp add: assms)
  also have "\<dots> = 0" by (rule le_get_zero)
  finally show ?thesis by (simp add: load64_def)
qed

lemma vm_alloc_step:
  assumes inv: "vm_inv root lvl (p # ps) s" and q: "lvl q = Some (Suc l)" "i < 512"
    and bad: "\<not> valid (load64 (phys s) (slot q i))"
  obtains s1 where "kalloc s = Some (p, s1)" "p \<noteq> 0"
    "vm_ext root lvl (p # ps) s (lvl(p \<mapsto> l)) ps
       (s1\<lparr>phys := store64 (slot q i) (PA2PTE p OR PTE_V) (fill p 0 PGSIZE (phys s1))\<rparr>)"
proof -
  have rdy: "kmem_ready (p # ps) s" and pt: "ptable (phys s) root lvl"
    using inv by (auto simp: vm_inv_def)
  obtain s1 where s1: "kalloc s = Some (p, s1)" "kmem_inv ps s1" "kmem_same s s1"
    "\<forall>x. phys s1 x = (if x - p < PGSIZE then 5 else phys s x)"
    using kalloc_inv rdy unfolding kmem_ready_def by blast
  define m where "m = fill p 0 PGSIZE (phys s1)"
  define m' where "m' = store64 (slot q i) (PA2PTE p OR PTE_V) m"
  have p: "page_ok s p" "p \<noteq> 0" "p \<notin> set ps" "lvl p = None"
    using rdy inv kmem_inv_nonzero [of "p # ps" s] by (auto simp: kmem_ready_def kmem_inv_def vm_inv_def)
  have al: "aligned 4096 p" by (rule page_ok_aligned [OF p(1)])
  have pq: "q \<noteq> p" using p(4) q(1) by auto
  have m_out: "\<not> x - p < PGSIZE \<Longrightarrow> m x = phys s x" for x by (simp add: m_def fill_def s1(4))
  have old: "load64 m' (slot q' j) = load64 (phys s) (slot q' j)"
    if "lvl q' = Some l'" "j < 512" "q' \<noteq> q \<or> j \<noteq> i" for q' l' j
  proof -
    have "load64 m' (slot q' j) = load64 m (slot q' j)" unfolding m'_def
      using that q vm_invD [OF inv] by (intro slot_store_other) auto
    also have "\<dots> = load64 (phys s) (slot q' j)"
      using that p(4) al m_out vm_invD [OF inv] by (intro slot_outside_page [of _ p]) auto
    finally show ?thesis .
  qed
  have new: "load64 m' (slot q i) = PA2PTE p OR PTE_V" by (simp add: m'_def)
  have zero: "load64 m' (slot p j) = 0" if "j < 512" for j
  proof -
    have "load64 m' (slot p j) = load64 m (slot p j)" unfolding m'_def
      using that q al pq vm_invD [OF inv] by (intro slot_store_other) auto
    also have "\<dots> = 0"
      using slot_in_page [OF that] by (intro load64_zero) (simp add: m_def fill_def)
    finally show ?thesis .
  qed
  have ap1: "ptable m' root (lvl(p \<mapsto> l))"
    by (rule add_page(1) [OF pt q bad p(4) al]) (fact old new zero)+
  have ap2: "pte_at m' l' q' va = pte_at (phys s) l' q' va" if "lvl q' = Some l'" for l' q' va
    by (rule add_page(2) [OF pt q bad p(4) al]) (fact old new zero that)+
  have rdy1: "kmem_ready ps (s1\<lparr>phys := m\<rparr>)"
    using s1 rdy al p(3) by (intro kmem_ready_frame [of _ _ p]) (auto simp: kmem_ready_def kmem_sameD m_def fill_def)
  have rdy2: "kmem_ready ps (s1\<lparr>phys := m\<rparr>\<lparr>phys := m'\<rparr>)"
    by (rule kmem_ready_frame [OF rdy1 vm_invD(1) [OF inv q(1)]])
      (use vm_invD(3) [OF inv q(1)] store64_slot_outside [OF q(2)] in \<open>auto simp: m'_def\<close>)
  have "vm_ext root lvl (p # ps) s (lvl(p \<mapsto> l)) ps (s1\<lparr>phys := m'\<rparr>)"
    unfolding vm_ext_def
  proof (intro conjI allI impI)
    show "vm_inv root (lvl(p \<mapsto> l)) ps (s1\<lparr>phys := m'\<rparr>)"
      using rdy2 ap1 inv p s1(3) by (auto simp: vm_inv_def kmem_sameD page_ok_def)
    show "lvl \<subseteq>\<^sub>m lvl(p \<mapsto> l)" using p(4) by (auto simp: map_le_def)
    show "\<exists>us. p # ps = us @ ps \<and> dom (lvl(p \<mapsto> l)) = dom lvl \<union> set us" by (rule exI [of _ "[p]"]) auto
    show "kmem_same s (s1\<lparr>phys := m'\<rparr>)" using s1(3) by simp
    show "pte_at (phys (s1\<lparr>phys := m'\<rparr>)) l' q' va = pte_at (phys s) l' q' va" if "lvl q' = Some l'" for l' q' va
      using ap2 [OF that] by simp
    show "load64 (phys (s1\<lparr>phys := m'\<rparr>)) (slot q' j) = load64 (phys s) (slot q' j)"
      if "lvl q' = Some (Suc l')" "j < 512" "valid (load64 (phys s) (slot q' j))" for l' q' j
      using old [OF that(1,2)] bad that(3) by auto
    show "phys (s1\<lparr>phys := m'\<rparr>) x = phys s x" if "\<forall>q\<in>dom (lvl(p \<mapsto> l)). \<not> x - q < PGSIZE" for x
    proof -
      have "\<not> x - p < PGSIZE" "\<not> x - q < PGSIZE" using that q(1) by auto
      then show ?thesis using store64_slot_outside [OF q(2)] m_out by (simp add: m'_def)
    qed
  qed
  then show thesis using that [OF s1(1) p(2)] by (simp add: m'_def m_def)
qed

lemma walk_loop_alloc:
  "vm_inv root lvl ps s \<Longrightarrow> lvl q = Some l \<Longrightarrow>
   \<exists>a s' lvl' ps'. walk_loop l q va True s = Some (a, s') \<and> vm_ext root lvl ps s lvl' ps' s' \<and>
     (if a = 0 then ps' = [] else leaf (phys s') l q va = Some a)"
proof (induction l arbitrary: q s lvl ps)
  case 0
  then show ?case
    using slot_nonzero [OF vm_invD(1) [OF 0] vm_invD(4) [OF 0] PX_less] vm_ext_refl [OF 0(1)] by fastforce
next
  case (Suc l)
  define sl where "sl = slot q (PX (Suc l) va)"
  show ?case
  proof (cases "valid (load64 (phys s) sl)")
    case True
    have "lvl (PTE2PA (load64 (phys s) sl)) = Some l"
    proof -
      have "ptable (phys s) root lvl" using Suc.prems(1) by (simp add: vm_inv_def)
      from ptable_child [OF this Suc.prems(2) PX_less] True show ?thesis by (simp add: sl_def)
    qed
    from Suc.IH [OF Suc.prems(1) this] obtain a s' lvl' ps' where
      w: "walk_loop l (PTE2PA (load64 (phys s) sl)) va True s = Some (a, s')"
      "vm_ext root lvl ps s lvl' ps' s'"
      "if a = 0 then ps' = [] else leaf (phys s') l (PTE2PA (load64 (phys s) sl)) va = Some a"
      by blast
    have "load64 (phys s') sl = load64 (phys s) sl"
      using w(2) Suc.prems(2) PX_less True unfolding vm_ext_def sl_def by blast
    with w True show ?thesis by (auto simp: sl_def Let_def split: if_splits)
  next
    case False
    show ?thesis
    proof (cases ps)
      case Nil
      then have "kalloc s = Some (0, settle s)"
        using Suc.prems(1) kalloc_empty by (auto simp: vm_inv_def kmem_ready_def)
      moreover have "vm_ext root lvl ps s lvl ps (settle s)"
        using Suc.prems(1) by (auto simp: vm_ext_def vm_inv_settle)
      ultimately show ?thesis using False Nil by (auto simp: sl_def Let_def)
    next
      case (Cons p ps')
      obtain s1 where s1: "kalloc s = Some (p, s1)" "p \<noteq> 0"
        "vm_ext root lvl ps s (lvl(p \<mapsto> l)) ps'
           (s1\<lparr>phys := store64 sl (PA2PTE p OR PTE_V) (fill p 0 PGSIZE (phys s1))\<rparr>)" (is "vm_ext _ _ _ _ _ _ ?t")
        using vm_alloc_step [OF Suc.prems(1) [unfolded Cons] Suc.prems(2) PX_less] False
        unfolding sl_def Cons by metis
      have inv: "vm_inv root (lvl(p \<mapsto> l)) ps' ?t" using s1(3) by (simp add: vm_ext_def)
      obtain a s' lvl' ps'' where
        w: "walk_loop l p va True ?t = Some (a, s')" "vm_ext root (lvl(p \<mapsto> l)) ps' ?t lvl' ps'' s'"
        "if a = 0 then ps'' = [] else leaf (phys s') l p va = Some a"
        using Suc.IH [OF inv fun_upd_same] by blast
      have "q \<noteq> p" using vm_invD(3) [OF Suc.prems] Cons by auto
      then have "(lvl(p \<mapsto> l)) q = Some (Suc l)" using Suc.prems(2) by simp
      moreover have "load64 (phys ?t) sl = PA2PTE p OR PTE_V" by simp
      ultimately have "load64 (phys s') sl = PA2PTE p OR PTE_V"
        using w(2) PX_less unfolding vm_ext_def sl_def by (metis valid_OR(1))
      moreover have "PTE2PA (PA2PTE p OR PTE_V) = p"
        using inv by (intro PTE2PA_PA2PTE) (auto simp: vm_inv_def ptable_def PTE_V_def)
      ultimately have "if a = 0 then ps'' = [] else leaf (phys s') (Suc l) q va = Some a"
        using w(3) by (simp add: sl_def)
      moreover have "walk_loop (Suc l) q va True s = Some (a, s')"
        using False s1(1,2) w(1) by (simp add: sl_def memset_eq PGSIZE_def)
      ultimately show ?thesis using vm_ext_trans [OF s1(3) w(2)] by blast
    qed
  qed
qed

section \<open>Mapping, unmapping and translation on the represented function\<close>

lemma walk_loop_read:
  "walk_loop l q va False s = Some (case leaf (phys s) l q va of None \<Rightarrow> 0 | Some a \<Rightarrow> a, s)"
  by (induction l arbitrary: q) (simp_all add: Let_def)

lemma leaf_nonzero:
  assumes "vm_inv root lvl ps s" "leaf (phys s) 2 root va = Some a"
  shows "a \<noteq> 0"
proof -
  have pt: "ptable (phys s) root lvl" using assms(1) by (simp add: vm_inv_def)
  then obtain q0 where "lvl q0 = Some 0" "a = slot q0 (PX 0 va)"
    using leaf_slot [OF pt ptable_root [OF pt] assms(2)] by blast
  then show ?thesis using slot_nonzero [OF vm_invD(1,4) [OF assms(1)] PX_less] by metis
qed

lemma vm_inv_root: "vm_inv root lvl ps s \<Longrightarrow> lvl root = Some 2"
  by (simp add: vm_inv_def ptable_def)

definition translate :: "uint64 \<Rightarrow> 'a kmem_scheme \<Rightarrow> uint64 \<Rightarrow> uint64" where
  "translate root s va = (let e = pte_of (phys s) root va in
     if va < MAXVA \<and> valid e \<and> e AND PTE_U \<noteq> 0 then PTE2PA e else 0)"

lemma walkaddr_eq:
  assumes "vm_inv root lvl ps s"
  shows "walkaddr root va s = Some (translate root s va)"
proof (cases "leaf (phys s) 2 root va")
  case None
  then show ?thesis
    by (auto simp: walkaddr_def walk_def walk_loop_read translate_def pte_of_def pte_at_def Let_def not_le)
next
  case (Some a)
  then show ?thesis using leaf_nonzero [OF assms Some]
    by (auto simp: walkaddr_def walk_def walk_loop_read translate_def pte_of_def pte_at_def Let_def not_le)
qed

text \<open>One page: \<open>walk\<close> with allocation, then a store through the pointer.\<close>

lemma walk_store:
  assumes inv: "vm_inv root lvl ps s" and va: "va < MAXVA"
  obtains s' lvl' where "walk root va True s = Some (0, s')" "vm_ext root lvl ps s lvl' [] s'"
  | a s' lvl' ps' where "walk root va True s = Some (a, s')" "a \<noteq> 0" "vm_ext root lvl ps s lvl' ps' s'"
      "leaf (phys s') 2 root va = Some a"
proof -
  have "lvl root = Some 2" by (rule vm_inv_root [OF inv])
  from walk_loop_alloc [OF inv this, of va] va show thesis
    using that by (auto simp: walk_def not_le [symmetric] split: if_splits)
qed

lemma vm_ext_pte_of:
  assumes "vm_ext root lvl ps s lvl' ps' s'" "vm_inv root lvl ps s"
  shows "pte_of (phys s') root va = pte_of (phys s) root va"
  using assms(1) vm_inv_root [OF assms(2)] by (auto simp: vm_ext_def pte_of_def)

lemma vm_inv_store_leaf:
  assumes inv: "vm_inv root lvl ps s" and lf: "va < MAXVA" "leaf (phys s) 2 root va = Some a"
  shows "vm_inv root lvl ps (s\<lparr>phys := store64 a v (phys s)\<rparr>)"
proof -
  have pt: "ptable (phys s) root lvl" using inv by (simp add: vm_inv_def)
  obtain q0 where q0: "lvl q0 = Some 0" "a = slot q0 (PX 0 va)"
    using leaf_slot [OF pt ptable_root [OF pt] lf(2)] by blast
  have "kmem_ready ps (s\<lparr>phys := store64 a v (phys s)\<rparr>)"
    using inv vm_invD [OF inv q0(1)] store64_slot_outside [OF PX_less] unfolding q0(2)
    by (intro kmem_ready_frame [of _ _ q0]) (auto simp: vm_inv_def)
  then show ?thesis
    using inv store_leaf(1) [OF pt lf] by (auto simp: vm_inv_def page_ok_def)
qed

lemma page_diff_shift:
  fixes d :: uint64
  assumes "aligned 4096 d" "Suc k * 4096 \<le> 2 ^ 64"
  shows "unat d < Suc k * 4096 \<longleftrightarrow> d = 0 \<or> unat (d - PGSIZE) < k * 4096"
proof (cases "d = 0")
  case True
  then show ?thesis by simp
next
  case False
  then have "0 < unat d" by (simp add: unat_gt_0)
  with assms(1) have "4096 \<le> unat d" by (auto simp: aligned_def dest: dvd_imp_le)
  then have "unat (d - PGSIZE) = unat d - 4096"
    by (simp add: PGSIZE_def unat_sub word_le_nat_alt)
  with False \<open>4096 \<le> unat d\<close> show ?thesis by auto
qed

lemma aligned_mult: "aligned 4096 (x * 4096)"
  by (simp add: aligned_def unat_word_ariths mod_mod_cancel)

lemma aligned_factor: "aligned 4096 a \<Longrightarrow> \<exists>x. a = x * 4096"
proof -
  assume "aligned 4096 a"
  then have "unat a = unat a div 4096 * 4096" by (metis aligned_def mod_mult_div_eq add.left_neutral mult.commute)
  then have "a = of_nat (unat a div 4096) * 4096" by (metis of_nat_mult of_nat_numeral of_nat_unat ucast_id)
  then show ?thesis ..
qed

lemma aligned_diff: "aligned 4096 a \<Longrightarrow> aligned 4096 b \<Longrightarrow> aligned 4096 (a - b)"
  using aligned_factor [of a] aligned_factor [of b] aligned_mult by (metis left_diff_distrib)

lemma aligned_PGROUNDDOWN: "aligned 4096 (PGROUNDDOWN a)"
  by (simp add: aligned_def unat_PGROUNDDOWN)

lemma aligned_PGROUNDDOWN_id: "aligned 4096 a \<Longrightarrow> PGROUNDDOWN a = a"
  using unat_PGROUNDDOWN [of a] by (intro unat_inj) (auto simp: aligned_def)

lemma map_step:
  assumes inv: "vm_inv root lvl ps s" and a: "aligned 4096 a" "a < MAXVA" "\<not> valid (pte_of (phys s) root a)"
  obtains t lvl' where "\<And>b. mappages_loop root a b pa perm s = Some (-1, t)"
      "vm_inv root lvl' [] t" "kmem_same s t"
  | t lvl' ps' where "\<And>b. mappages_loop root a b pa perm s =
        (if a = b then Some (0, t) else mappages_loop root (a + PGSIZE) b (pa + PGSIZE) perm t)"
      "vm_inv root lvl' ps' t" "kmem_same s t"
      "\<And>va. va < MAXVA \<Longrightarrow> pte_of (phys t) root va =
        (if PGROUNDDOWN va = a then PA2PTE pa OR perm OR PTE_V else pte_of (phys s) root va)"
proof (rule walk_store [OF inv a(2)])
  fix s' lvl' assume w: "walk root a True s = Some (0, s')" "vm_ext root lvl ps s lvl' [] s'"
  have "mappages_loop root a b pa perm s = Some (-1, s')" for b
    by (subst mappages_loop.simps) (simp add: w)
  with w(2) show thesis by (intro that(1)) (auto simp: vm_ext_def)
next
  fix p s' lvl' ps'
  assume w: "walk root a True s = Some (p, s')" "p \<noteq> 0" "vm_ext root lvl ps s lvl' ps' s'"
    "leaf (phys s') 2 root a = Some p"
  define t where "t = s'\<lparr>phys := store64 p (PA2PTE pa OR perm OR PTE_V) (phys s')\<rparr>"
  have inv': "vm_inv root lvl' ps' s'" "kmem_same s s'" using w(3) by (auto simp: vm_ext_def)
  have pt: "ptable (phys s') root lvl'" using inv'(1) by (simp add: vm_inv_def)
  have "load64 (phys s') p = pte_of (phys s) root a"
    using vm_ext_pte_of [OF w(3) inv, of a] w(4) by (simp add: pte_of_def pte_at_def)
  then have "mappages_loop root a b pa perm s =
      (if a = b then Some (0, t) else mappages_loop root (a + PGSIZE) b (pa + PGSIZE) perm t)" for b
    by (subst mappages_loop.simps) (use a(3) w(1,2) in \<open>simp add: t_def Let_def\<close>)
  moreover have "vm_inv root lvl' ps' t"
    unfolding t_def by (rule vm_inv_store_leaf [OF inv'(1) a(2) w(4)])
  moreover have "pte_of (phys t) root va =
      (if PGROUNDDOWN va = a then PA2PTE pa OR perm OR PTE_V else pte_of (phys s) root va)" if "va < MAXVA" for va
    using store_leaf(3) [OF pt a(2) w(4) that] vm_ext_pte_of [OF w(3) inv] aligned_PGROUNDDOWN_id [OF a(1)]
    by (simp add: t_def)
  moreover have "kmem_same s t" using inv'(2) by (simp add: t_def)
  ultimately show thesis using that(2) by blast
qed

lemma mappages_loop_ok:
  assumes "vm_inv root lvl ps s" "aligned 4096 a" "unat a + Suc n * 4096 \<le> 2 ^ 38"
    and "\<And>va. va < MAXVA \<Longrightarrow> unat (PGROUNDDOWN va - a) < Suc n * 4096 \<Longrightarrow> \<not> valid (pte_of (phys s) root va)"
  shows "\<exists>r s' lvl' ps'. mappages_loop root a (a + of_nat (n * 4096)) pa perm s = Some (r, s') \<and>
    vm_inv root lvl' ps' s' \<and> kmem_same s s' \<and> (r = 0 \<or> r = -1 \<and> ps' = []) \<and>
    (r = 0 \<longrightarrow> (\<forall>va<MAXVA. pte_of (phys s') root va =
       (let d = PGROUNDDOWN va - a in
        if unat d < Suc n * 4096 then PA2PTE (pa + d) OR perm OR PTE_V else pte_of (phys s) root va)))"
  using assms
proof (induction n arbitrary: a pa s lvl ps)
  case 0
  have a: "a < MAXVA" "\<not> valid (pte_of (phys s) root a)"
    using 0(3) 0(4) [of a] aligned_PGROUNDDOWN_id [OF 0(2)] by (auto simp: MAXVA_def word_less_nat_alt)
  have d: "unat (PGROUNDDOWN va - a) < 4096 \<longleftrightarrow> PGROUNDDOWN va = a" for va
    using page_diff_shift [OF aligned_diff [OF aligned_PGROUNDDOWN 0(2)], of 0] by auto
  show ?case
    by (rule map_step [OF 0(1,2) a, of pa perm]) (auto simp: d Let_def)
next
  case (Suc n)
  have a: "a < MAXVA" "\<not> valid (pte_of (phys s) root a)"
    using Suc.prems(3) Suc.prems(4) [of a] aligned_PGROUNDDOWN_id [OF Suc.prems(2)]
    by (auto simp: MAXVA_def word_less_nat_alt)
  have d: "unat (PGROUNDDOWN va - a) < Suc (Suc n) * 4096 \<longleftrightarrow>
      PGROUNDDOWN va = a \<or> unat (PGROUNDDOWN va - (a + PGSIZE)) < Suc n * 4096" for va
    using page_diff_shift [OF aligned_diff [OF aligned_PGROUNDDOWN Suc.prems(2)], of "Suc n"] Suc.prems(3)
    by (auto simp: diff_diff_add)
  show ?case
  proof (rule map_step [OF Suc.prems(1,2) a, of pa perm])
    fix t lvl' assume "\<And>b. mappages_loop root a b pa perm s = Some (-1, t)" "vm_inv root lvl' [] t" "kmem_same s t"
    then show ?thesis by auto
  next
    fix t lvl' ps'
    assume t: "\<And>b. mappages_loop root a b pa perm s =
        (if a = b then Some (0, t) else mappages_loop root (a + PGSIZE) b (pa + PGSIZE) perm t)"
      "vm_inv root lvl' ps' t" "kmem_same s t"
      "\<And>va. va < MAXVA \<Longrightarrow> pte_of (phys t) root va =
        (if PGROUNDDOWN va = a then PA2PTE pa OR perm OR PTE_V else pte_of (phys s) root va)"
    have ua: "unat (a + PGSIZE) = unat a + 4096"
      using unat_add_of_nat [of a 4096] Suc.prems(3) by (simp add: PGSIZE_def)
    have far: "\<not> unat (a - (a + PGSIZE)) < Suc n * 4096"
    proof -
      have "unat (a - (a + PGSIZE)) = 2 ^ 64 - 4096" by (simp add: PGSIZE_def)
      then show ?thesis using Suc.prems(3) by simp
    qed
    define b where "b = a + of_nat (Suc n * 4096)"
    have b: "b = a + PGSIZE + of_nat (n * 4096)" by (simp add: b_def PGSIZE_def algebra_simps)
    have "unat b = unat a + Suc n * 4096"
      unfolding b_def by (rule unat_add_of_nat) (use Suc.prems(3) in simp)
    then have ab: "a \<noteq> b" by auto
    have "\<exists>r s' lvl'' ps''. mappages_loop root (a + PGSIZE) b (pa + PGSIZE) perm t = Some (r, s') \<and>
      vm_inv root lvl'' ps'' s' \<and> kmem_same t s' \<and> (r = 0 \<or> r = -1 \<and> ps'' = []) \<and>
      (r = 0 \<longrightarrow> (\<forall>va<MAXVA. pte_of (phys s') root va =
        (let d = PGROUNDDOWN va - (a + PGSIZE) in
         if unat d < Suc n * 4096 then PA2PTE (pa + PGSIZE + d) OR perm OR PTE_V else pte_of (phys t) root va)))"
      unfolding b
    proof (rule Suc.IH [OF t(2)])
      show "aligned 4096 (a + PGSIZE)" using Suc.prems(2) ua by (simp add: aligned_def)
      show "unat (a + PGSIZE) + Suc n * 4096 \<le> 2 ^ 38" using ua Suc.prems(3) by simp
      show "\<not> valid (pte_of (phys t) root va)"
        if "va < MAXVA" "unat (PGROUNDDOWN va - (a + PGSIZE)) < Suc n * 4096" for va
        using that far t(4) [OF that(1)] d [of va] Suc.prems(4) [OF that(1)] by metis
    qed
    then obtain r s' lvl'' ps'' where IH: "mappages_loop root (a + PGSIZE) b (pa + PGSIZE) perm t = Some (r, s')"
      "vm_inv root lvl'' ps'' s'" "kmem_same t s'" "r = 0 \<or> r = -1 \<and> ps'' = []"
      "r = 0 \<longrightarrow> (\<forall>va<MAXVA. pte_of (phys s') root va =
        (let d = PGROUNDDOWN va - (a + PGSIZE) in
         if unat d < Suc n * 4096 then PA2PTE (pa + PGSIZE + d) OR perm OR PTE_V else pte_of (phys t) root va))"
      by blast
    have "pte_of (phys s') root va = (let d = PGROUNDDOWN va - a in
        if unat d < Suc (Suc n) * 4096 then PA2PTE (pa + d) OR perm OR PTE_V else pte_of (phys s) root va)"
      if "r = 0" "va < MAXVA" for va
      using IH(5) that t(4) [OF that(2)] d [of va] far by (auto simp: Let_def)
    moreover have "mappages_loop root a b pa perm s = Some (r, s')" using t(1) ab IH(1) by simp
    ultimately show ?thesis
      using IH(2,4) kmem_same_trans [OF t(3) IH(3)] unfolding b_def by blast
  qed
qed

lemma mult_diff_less:
  fixes c :: nat
  assumes "0 < c"
  shows "x * c - y * c < Suc n * c \<longleftrightarrow> x * c \<le> y * c + n * c"
proof -
  have "x * c - y * c < Suc n * c \<longleftrightarrow> x - y < Suc n"
    using assms by (simp only: diff_mult_distrib [symmetric] mult_less_cancel2 simp_thms)
  also have "\<dots> \<longleftrightarrow> x \<le> y + n" by arith
  also have "\<dots> \<longleftrightarrow> x * c \<le> y * c + n * c"
    using assms by (simp only: add_mult_distrib [symmetric] mult_le_cancel2 simp_thms)
  finally show ?thesis .
qed

lemma page_range:
  assumes "sz \<noteq> 0" "unat va + unat sz \<le> 2 ^ 38"
  obtains n where "PGROUNDDOWN (va + sz - 1) = PGROUNDDOWN va + of_nat (n * 4096)"
    "unat (PGROUNDDOWN va) + Suc n * 4096 \<le> 2 ^ 38"
    "\<And>v. unat (PGROUNDDOWN v - PGROUNDDOWN va) < Suc n * 4096 \<longleftrightarrow>
       PGROUNDDOWN va \<le> PGROUNDDOWN v \<and> PGROUNDDOWN v \<le> PGROUNDDOWN (va + sz - 1)"
proof -
  define e where "e = va + sz - 1"
  define n where "n = unat e div 4096 - unat va div 4096"
  have "0 < unat sz" using assms(1) by (simp add: unat_gt_0)
  then have e: "unat e = unat va + unat sz - 1"
    using assms(2) unat_add_small [of va sz] by (simp add: e_def unat_sub word_le_nat_alt)
  have le: "unat va div 4096 \<le> unat e div 4096" using \<open>0 < unat sz\<close> by (intro div_le_mono) (simp add: e)
  have bound: "unat e div 4096 < 2 ^ 26" using e assms(2) \<open>0 < unat sz\<close> by (simp add: less_mult_imp_div_less)
  have u: "unat (PGROUNDDOWN va) = unat va div 4096 * 4096" "unat (PGROUNDDOWN e) = unat e div 4096 * 4096"
    by (simp_all add: unat_PGROUNDDOWN)
  have ue: "unat (PGROUNDDOWN e) = unat (PGROUNDDOWN va) + n * 4096"
    using le by (simp add: u n_def diff_mult_distrib)
  have eq: "PGROUNDDOWN e = PGROUNDDOWN va + of_nat (n * 4096)"
    using ue bound u(2) unat_add_of_nat [of "PGROUNDDOWN va" "n * 4096"] by (intro unat_inj) simp
  have lim: "unat (PGROUNDDOWN va) + Suc n * 4096 \<le> 2 ^ 38"
    using ue bound u(2) by simp
  have "unat (PGROUNDDOWN v - PGROUNDDOWN va) < Suc n * 4096 \<longleftrightarrow>
     PGROUNDDOWN va \<le> PGROUNDDOWN v \<and> PGROUNDDOWN v \<le> PGROUNDDOWN e" for v
  proof (cases "PGROUNDDOWN va \<le> PGROUNDDOWN v")
    case True
    then have "unat (PGROUNDDOWN v - PGROUNDDOWN va) = unat (PGROUNDDOWN v) - unat (PGROUNDDOWN va)"
      by (simp add: unat_sub)
    moreover have "unat (PGROUNDDOWN v) = unat v div 4096 * 4096" by (simp add: unat_PGROUNDDOWN)
    moreover note mult_diff_less [of 4096 "unat v div 4096" "unat va div 4096" n]
    ultimately show ?thesis using True ue u by (simp add: word_le_nat_alt)
  next
    case False
    have "unat (PGROUNDDOWN v - PGROUNDDOWN va) = 2 ^ 64 + unat (PGROUNDDOWN v) - unat (PGROUNDDOWN va)"
      using False by (simp add: unat_sub_if_size word_le_nat_alt word_size)
    then show ?thesis using False lim by simp
  qed
  then show thesis using that eq lim unfolding e_def by blast
qed

text \<open>
  C3. mappages() maps exactly the range it is asked to map. On a well-formed page table, for a
  nonempty range below MAXVA none of whose pages is mapped, the call returns; either 0, and then
  the page of offset d in the range maps to pa + d with the given permissions and every other
  virtual address translates as before, or -1, and then the allocator has run out of pages. In both
  cases the table stays well-formed and no other kernel state changes.
\<close>

theorem mappages_maps:
  assumes "vm_inv root lvl ps s" "sz \<noteq> 0" "unat va + unat sz \<le> 2 ^ 38"
    and "\<And>v. v < MAXVA \<Longrightarrow> PGROUNDDOWN va \<le> PGROUNDDOWN v \<Longrightarrow>
      PGROUNDDOWN v \<le> PGROUNDDOWN (va + sz - 1) \<Longrightarrow> \<not> valid (pte_of (phys s) root v)"
  shows "\<exists>r s' lvl' ps'. mappages root va sz pa perm s = Some (r, s') \<and>
    vm_inv root lvl' ps' s' \<and> kmem_same s s' \<and> (r = 0 \<or> r = -1 \<and> ps' = []) \<and>
    (r = 0 \<longrightarrow> (\<forall>v<MAXVA. pte_of (phys s') root v =
       (if PGROUNDDOWN va \<le> PGROUNDDOWN v \<and> PGROUNDDOWN v \<le> PGROUNDDOWN (va + sz - 1)
        then PA2PTE (pa + (PGROUNDDOWN v - PGROUNDDOWN va)) OR perm OR PTE_V else pte_of (phys s) root v)))"
proof (rule page_range [OF assms(2,3)])
  fix n
  assume n: "PGROUNDDOWN (va + sz - 1) = PGROUNDDOWN va + of_nat (n * 4096)"
    "unat (PGROUNDDOWN va) + Suc n * 4096 \<le> 2 ^ 38"
    "\<And>v. unat (PGROUNDDOWN v - PGROUNDDOWN va) < Suc n * 4096 \<longleftrightarrow>
       PGROUNDDOWN va \<le> PGROUNDDOWN v \<and> PGROUNDDOWN v \<le> PGROUNDDOWN (va + sz - 1)"
  have "\<not> valid (pte_of (phys s) root v)"
    if "v < MAXVA" "unat (PGROUNDDOWN v - PGROUNDDOWN va) < Suc n * 4096" for v
    using assms(4) that unfolding n(3) by blast
  from mappages_loop_ok [OF assms(1) aligned_PGROUNDDOWN n(2) this, of pa perm]
  show ?thesis using assms(2) unfolding n(3) n(1) [symmetric] mappages_def Let_def by simp
qed

text \<open>Writes to a page that is not a table page do not affect the tree.\<close>

lemma tree_frame:
  assumes pt: "ptable m root lvl" and p: "aligned 4096 p" "lvl p = None"
    and out: "\<And>x. \<not> x - p < PGSIZE \<Longrightarrow> m' x = m x"
  shows "ptable m' root lvl" "leaf m' 2 root va = leaf m 2 root va" "pte_of m' root va = pte_of m root va"
proof -
  have same: "load64 m' (slot q i) = load64 m (slot q i)" if "lvl q = Some l" "i < 512" for q l i
  proof (rule slot_outside_page [OF ptable_aligned [OF pt that(1)] p(1) _ that(2) out])
    show "q \<noteq> p" using that(1) p(2) by auto
  qed
  show "ptable m' root lvl" by (rule ptable_cong [OF pt same])
  show lf: "leaf m' 2 root va = leaf m 2 root va" by (rule leaf_cong [OF pt same ptable_root [OF pt]])
  have "load64 m' b = load64 m b" if b: "leaf m 2 root va = Some b" for b
    using leaf_slot [OF pt ptable_root [OF pt] b] same PX_less by blast
  then show "pte_of m' root va = pte_of m root va"
    by (auto simp: pte_of_def pte_at_def lf split: option.split)
qed

lemma vm_inv_kfree:
  assumes inv: "vm_inv root lvl ps s" and p: "page_ok s p" "p \<notin> set ps" "lvl p = None"
  obtains t where "kfree p s = Some t" "vm_inv root lvl (p # ps) t" "kmem_same s t"
    "\<And>va. leaf (phys t) 2 root va = leaf (phys s) 2 root va"
    "\<And>va. pte_of (phys t) root va = pte_of (phys s) root va"
proof -
  have pt: "ptable (phys s) root lvl" and rdy: "kmem_ready ps s" using inv by (auto simp: vm_inv_def)
  obtain t where t: "kfree p s = Some t" "kmem_inv (p # ps) t" "kmem_same s t"
    "\<forall>x. \<not> x - p < PGSIZE \<longrightarrow> phys t x = phys s x"
    using kfree_inv [OF _ p(1,2)] rdy unfolding kmem_ready_def by blast
  note fr = tree_frame [OF pt page_ok_aligned [OF p(1)] p(3), of "phys t"]
  have "vm_inv root lvl (p # ps) t"
    using inv rdy t p(3) fr(1) by (auto simp: vm_inv_def kmem_ready_def kmem_sameD)
  then show thesis using that t(1,3) fr(2,3) t(4) by blast
qed

lemma unmap_step:
  assumes inv: "vm_inv root lvl ps s" and a: "aligned 4096 a" "a < MAXVA"
    and e: "e = pte_of (phys s) root a" "valid e" "PTE_FLAGS e \<noteq> PTE_V"
    and p: "do_free \<Longrightarrow> page_ok s (PTE2PA e) \<and> PTE2PA e \<notin> set ps \<and> lvl (PTE2PA e) = None"
  obtains t where
    "\<And>b. a < b \<Longrightarrow> uvmunmap_loop root a b do_free s = uvmunmap_loop root (a + PGSIZE) b do_free t"
    "vm_inv root lvl (if do_free then PTE2PA e # ps else ps) t" "kmem_same s t"
    "\<And>va. va < MAXVA \<Longrightarrow> pte_of (phys t) root va =
      (if PGROUNDDOWN va = a then 0 else pte_of (phys s) root va)"
proof -
  obtain q where q: "leaf (phys s) 2 root a = Some q" "load64 (phys s) q = e"
    using e(1,2) by (auto simp: pte_of_def pte_at_def split: option.splits)
  have w: "walk root a False s = Some (q, s)" "q \<noteq> 0"
    using a(2) q(1) leaf_nonzero [OF inv q(1)] by (auto simp: walk_def walk_loop_read)
  obtain t1 where t1: "(if do_free then kfree (PTE2PA e) s else Some s) = Some t1"
    "vm_inv root lvl (if do_free then PTE2PA e # ps else ps) t1" "kmem_same s t1"
    "leaf (phys t1) 2 root a = Some q" "\<And>va. pte_of (phys t1) root va = pte_of (phys s) root va"
  proof (cases do_free)
    case True
    with p have p': "page_ok s (PTE2PA e)" "PTE2PA e \<notin> set ps" "lvl (PTE2PA e) = None" by auto
    show ?thesis
      by (rule vm_inv_kfree [OF inv p']) (use True q(1) in \<open>auto intro: that\<close>)
  next
    case False
    then show ?thesis using inv q(1) that by simp
  qed
  define t where "t = t1\<lparr>phys := store64 q 0 (phys t1)\<rparr>"
  have pt: "ptable (phys t1) root lvl" using t1(2) by (simp add: vm_inv_def)
  have "uvmunmap_loop root a b do_free s = uvmunmap_loop root (a + PGSIZE) b do_free t" if "a < b" for b
    by (subst uvmunmap_loop.simps) (use that w t1(1) q(2) e(2,3) in \<open>auto simp: t_def split: if_splits\<close>)
  moreover have "vm_inv root lvl (if do_free then PTE2PA e # ps else ps) t"
    unfolding t_def by (rule vm_inv_store_leaf [OF t1(2) a(2) t1(4)])
  moreover have "kmem_same s t" using t1(3) by (simp add: t_def)
  moreover have "pte_of (phys t) root va = (if PGROUNDDOWN va = a then 0 else pte_of (phys s) root va)"
    if "va < MAXVA" for va
    using store_leaf(3) [OF pt a(2) t1(4) that] t1(5) aligned_PGROUNDDOWN_id [OF a(1)] by (simp add: t_def)
  ultimately show thesis by (rule that)
qed

text \<open>The physical pages that \<open>n\<close> virtual pages from \<open>a\<close> on are mapped to.\<close>

definition mapped_pages :: "memory \<Rightarrow> uint64 \<Rightarrow> uint64 \<Rightarrow> nat \<Rightarrow> uint64 list" where
  "mapped_pages m root a n = map (\<lambda>va. PTE2PA (pte_of m root va)) (page_seq a n)"

lemma mapped_pages_cong:
  "(\<And>va. va \<in> set (page_seq a n) \<Longrightarrow> pte_of m' root va = pte_of m root va) \<Longrightarrow>
   mapped_pages m' root a n = mapped_pages m root a n"
  by (simp add: mapped_pages_def)

lemma uvmunmap_loop_ok:
  assumes "vm_inv root lvl ps s" "aligned 4096 a" "unat a + n * 4096 \<le> 2 ^ 38"
    and "\<And>va. va \<in> set (page_seq a n) \<Longrightarrow>
      valid (pte_of (phys s) root va) \<and> PTE_FLAGS (pte_of (phys s) root va) \<noteq> PTE_V"
    and "do_free \<Longrightarrow> distinct (mapped_pages (phys s) root a n)"
    and "\<And>p. do_free \<Longrightarrow> p \<in> set (mapped_pages (phys s) root a n) \<Longrightarrow> page_ok s p \<and> p \<notin> set ps \<and> lvl p = None"
  shows "\<exists>s'. uvmunmap_loop root a (a + of_nat (n * 4096)) do_free s = Some s' \<and>
    vm_inv root lvl (if do_free then rev (mapped_pages (phys s) root a n) @ ps else ps) s' \<and> kmem_same s s' \<and>
    (\<forall>va<MAXVA. pte_of (phys s') root va =
       (if unat (PGROUNDDOWN va - a) < n * 4096 then 0 else pte_of (phys s) root va))"
  using assms
proof (induction n arbitrary: a s ps)
  case 0
  then show ?case by (subst uvmunmap_loop.simps) (auto simp: mapped_pages_def page_seq_def)
next
  case (Suc n)
  define e where "e = pte_of (phys s) root a"
  have seq: "page_seq a (Suc n) = a # page_seq (a + PGSIZE) n" by (rule page_seq_Suc)
  have aM: "a < MAXVA" using Suc.prems(3) by (simp add: MAXVA_def word_less_nat_alt)
  have ua: "unat (a + PGSIZE) = unat a + 4096"
    using unat_add_of_nat [of a 4096] Suc.prems(3) by (simp add: PGSIZE_def)
  define b where "b = a + of_nat (Suc n * 4096)"
  have b: "b = a + PGSIZE + of_nat (n * 4096)" by (simp add: b_def PGSIZE_def algebra_simps)
  have ub: "unat b = unat a + Suc n * 4096"
    unfolding b_def by (rule unat_add_of_nat) (use Suc.prems(3) in simp)
  have ab: "a < b" using ub by (simp add: word_less_nat_alt)
  have d: "unat (PGROUNDDOWN va - a) < Suc n * 4096 \<longleftrightarrow>
      PGROUNDDOWN va = a \<or> unat (PGROUNDDOWN va - (a + PGSIZE)) < n * 4096" for va
    using page_diff_shift [OF aligned_diff [OF aligned_PGROUNDDOWN Suc.prems(2)], of n] Suc.prems(3)
    by (auto simp: diff_diff_add)
  have e: "valid e" "PTE_FLAGS e \<noteq> PTE_V" using Suc.prems(4) [of a] by (auto simp: seq e_def)
  have p: "do_free \<Longrightarrow> page_ok s (PTE2PA e) \<and> PTE2PA e \<notin> set ps \<and> lvl (PTE2PA e) = None"
    using Suc.prems(6) by (auto simp: seq mapped_pages_def e_def)
  obtain t where t: "\<And>b. a < b \<Longrightarrow>
      uvmunmap_loop root a b do_free s = uvmunmap_loop root (a + PGSIZE) b do_free t"
    "vm_inv root lvl (if do_free then PTE2PA e # ps else ps) t" "kmem_same s t"
    "\<And>va. va < MAXVA \<Longrightarrow> pte_of (phys t) root va = (if PGROUNDDOWN va = a then 0 else pte_of (phys s) root va)"
    using unmap_step [OF Suc.prems(1,2) aM e_def e p] by blast
  have rest: "pte_of (phys t) root va = pte_of (phys s) root va" if "va \<in> set (page_seq (a + PGSIZE) n)" for va
  proof -
    have "unat va mod 4096 = 0" "unat a + 4096 \<le> unat va" "unat va < unat a + Suc n * 4096"
      using that set_page_seq [of "a + PGSIZE" n] ua Suc.prems(2,3) by (auto simp: aligned_def)
    then show ?thesis
      using t(4) [of va] Suc.prems(3) aligned_PGROUNDDOWN_id [of va]
      by (auto simp: MAXVA_def word_less_nat_alt aligned_def)
  qed
  have mp: "mapped_pages (phys t) root (a + PGSIZE) n = mapped_pages (phys s) root (a + PGSIZE) n"
    using rest by (rule mapped_pages_cong)
  have mps: "mapped_pages (phys s) root a (Suc n) = PTE2PA e # mapped_pages (phys s) root (a + PGSIZE) n"
    by (simp add: mapped_pages_def seq e_def)
  have "\<exists>s'. uvmunmap_loop root (a + PGSIZE) b do_free t = Some s' \<and>
    vm_inv root lvl (if do_free then rev (mapped_pages (phys t) root (a + PGSIZE) n) @
      (if do_free then PTE2PA e # ps else ps) else (if do_free then PTE2PA e # ps else ps)) s' \<and> kmem_same t s' \<and>
    (\<forall>va<MAXVA. pte_of (phys s') root va =
       (if unat (PGROUNDDOWN va - (a + PGSIZE)) < n * 4096 then 0 else pte_of (phys t) root va))"
    unfolding b
  proof (rule Suc.IH [OF t(2)])
    show "aligned 4096 (a + PGSIZE)" using Suc.prems(2) ua by (simp add: aligned_def)
    show "unat (a + PGSIZE) + n * 4096 \<le> 2 ^ 38" using ua Suc.prems(3) by simp
    show "valid (pte_of (phys t) root va) \<and> PTE_FLAGS (pte_of (phys t) root va) \<noteq> PTE_V"
      if "va \<in> set (page_seq (a + PGSIZE) n)" for va
      using Suc.prems(4) [of va] that rest [OF that] by (simp add: seq)
    show "distinct (mapped_pages (phys t) root (a + PGSIZE) n)" if do_free
      using Suc.prems(5) that by (simp add: mp mps)
    show "page_ok t p \<and> p \<notin> set (if do_free then PTE2PA e # ps else ps) \<and> lvl p = None"
      if do_free "p \<in> set (mapped_pages (phys t) root (a + PGSIZE) n)" for p
      using Suc.prems(5) Suc.prems(6) [of p] that kmem_sameD(6) [OF t(3)] by (auto simp: mp mps)
  qed
  moreover have "(if do_free then rev (mapped_pages (phys t) root (a + PGSIZE) n) @
      (if do_free then PTE2PA e # ps else ps) else (if do_free then PTE2PA e # ps else ps)) =
      (if do_free then rev (mapped_pages (phys s) root a (Suc n)) @ ps else ps)"
    by (simp add: mp mps)
  ultimately obtain s' where s': "uvmunmap_loop root (a + PGSIZE) b do_free t = Some s'"
    "vm_inv root lvl (if do_free then rev (mapped_pages (phys s) root a (Suc n)) @ ps else ps) s'" "kmem_same t s'"
    "\<forall>va<MAXVA. pte_of (phys s') root va =
       (if unat (PGROUNDDOWN va - (a + PGSIZE)) < n * 4096 then 0 else pte_of (phys t) root va)"
    by (simp only:) blast
  have "pte_of (phys s') root va = (if unat (PGROUNDDOWN va - a) < Suc n * 4096 then 0 else pte_of (phys s) root va)"
    if "va < MAXVA" for va
    using s'(4) that t(4) [OF that] d [of va] by auto
  then show ?case
    using s'(1,2) t(1) [OF ab] kmem_same_trans [OF t(3) s'(3)] unfolding b_def by auto
qed

section \<open>A concrete address space\<close>

text \<open>
  One user page at virtual address 0 below a root, a level-1 and a level-0 table, and three free
  pages: the state at which the properties of this and later theories are instantiated.
\<close>

definition sample_mem :: memory where
  "sample_mem = store64 0x80100000 (PA2PTE 0x80101000 OR PTE_V)
     (store64 0x80101000 (PA2PTE 0x80102000 OR PTE_V)
     (store64 0x80102000 (PA2PTE 0x80103000 OR (PTE_R OR PTE_W OR PTE_U OR PTE_V))
     (store64 0x80104000 0x80105000 (store64 0x80105000 0x80106000 (\<lambda>_. 0)))))"

definition sample :: kmem where
  "sample = \<lparr>hart = 0, cpus = (\<lambda>_. \<lparr>noff = 0, intena = False, sie = True\<rparr>),
     spin = (\<lambda>_. \<lparr>locked = False, lname = ''lock'', lcpu = None\<rparr>), phys = sample_mem,
     kend = 0x80080000, freelist = 0x80104000\<rparr>"

definition sample_lvl :: "uint64 \<rightharpoonup> nat" where
  "sample_lvl = [0x80100000 \<mapsto> 2, 0x80101000 \<mapsto> 1, 0x80102000 \<mapsto> 0]"

lemma load64_page_store:
  assumes "aligned 4096 q" "aligned 4096 p"
  shows "i < 512 \<Longrightarrow> load64 (store64 p v m) (slot q i) = (if q = p \<and> i = 0 then v else load64 m (slot q i))"
    and "load64 (store64 p v m) q = (if q = p then v else load64 m q)"
proof -
  have *: "load64 (store64 p v m) (slot q i) = (if q = p \<and> i = 0 then v else load64 m (slot q i))" if "i < 512" for i
    using slot_store_other [OF assms(2,1) _ that, of 0] by auto
  then show "i < 512 \<Longrightarrow> load64 (store64 p v m) (slot q i) = (if q = p \<and> i = 0 then v else load64 m (slot q i))" .
  from * [of 0] show "load64 (store64 p v m) q = (if q = p then v else load64 m q)" by simp
qed

lemma load64_const_zero [simp]: "load64 (\<lambda>_. 0) a = 0"
  by (rule load64_zero) simp

lemma sample_load:
  assumes "aligned 4096 q" "i < 512"
  shows "load64 sample_mem (slot q i) =
    (if i \<noteq> 0 then 0
     else if q = 0x80100000 then PA2PTE 0x80101000 OR PTE_V
     else if q = 0x80101000 then PA2PTE 0x80102000 OR PTE_V
     else if q = 0x80102000 then PA2PTE 0x80103000 OR (PTE_R OR PTE_W OR PTE_U OR PTE_V)
     else if q = 0x80104000 then 0x80105000
     else if q = 0x80105000 then 0x80106000 else 0)"
  unfolding sample_mem_def using assms by (cases "i = 0") (simp_all add: load64_page_store aligned_def)

lemma sample_PTE2PA:
  "PTE2PA (PA2PTE 0x80101000 OR PTE_V) = 0x80101000" "PTE2PA (PA2PTE 0x80102000 OR PTE_V) = 0x80102000"
  "PTE2PA (PA2PTE 0x80103000 OR (PTE_R OR PTE_W OR PTE_U OR PTE_V)) = 0x80103000"
  by (rule PTE2PA_PA2PTE; simp add: aligned_def PTE_V_def PTE_R_def PTE_W_def PTE_U_def)+

lemma sample_vm_inv: "vm_inv 0x80100000 sample_lvl [0x80104000, 0x80105000, 0x80106000] sample"
proof -
  have "free_list sample_mem 0x80104000 [0x80104000, 0x80105000, 0x80106000]"
    using sample_load [of "0x80104000" 0] sample_load [of "0x80105000" 0] sample_load [of "0x80106000" 0]
    by (simp add: aligned_def)
  then have "kmem_ready [0x80104000, 0x80105000, 0x80106000] sample"
    by (simp add: kmem_ready_def kmem_inv_def sample_def page_ok_def PGSIZE_def PHYSTOP_def KERNBASE_def
        cpu_ok_def mycpu_def free_def)
  moreover have "ptable sample_mem 0x80100000 sample_lvl"
    unfolding ptable_def by (auto simp: sample_lvl_def sample_load sample_PTE2PA aligned_def split: if_splits)
  ultimately show ?thesis
    by (auto simp: vm_inv_def sample_def sample_lvl_def page_ok_def PGSIZE_def PHYSTOP_def KERNBASE_def)
qed

lemma sample_pte_of:
  assumes "va < MAXVA"
  shows "pte_of sample_mem 0x80100000 va =
    (if PGROUNDDOWN va = 0 then PA2PTE 0x80103000 OR (PTE_R OR PTE_W OR PTE_U OR PTE_V) else 0)"
proof -
  have PX0: "PX l 0 = 0" for l by (simp add: PX_def)
  have "(\<forall>l\<le>2. PX l va = PX l 0) \<longleftrightarrow> PGROUNDDOWN va = 0"
    using PX_inj [OF assms, of 0] PX_PGROUNDDOWN [of _ va]
    by (auto simp: MAXVA_def PGROUNDDOWN_def)
  moreover have "(\<forall>l\<le>2. PX l va = 0) \<longleftrightarrow> PX 0 va = 0 \<and> PX (Suc 0) va = 0 \<and> PX (Suc (Suc 0)) va = 0"
    by (auto simp: le_Suc_eq numeral_2_eq_2)
  moreover have ld: "load64 sample_mem (slot 0x80100000 (PX k va)) = (if PX k va = 0 then PA2PTE 0x80101000 OR PTE_V else 0)"
    "load64 sample_mem (slot 0x80101000 (PX k va)) = (if PX k va = 0 then PA2PTE 0x80102000 OR PTE_V else 0)"
    "load64 sample_mem (slot 0x80102000 (PX k va)) =
       (if PX k va = 0 then PA2PTE 0x80103000 OR (PTE_R OR PTE_W OR PTE_U OR PTE_V) else 0)" for k
    using sample_load [OF _ PX_less, of "0x80100000" k va] sample_load [OF _ PX_less, of "0x80101000" k va]
      sample_load [OF _ PX_less, of "0x80102000" k va] by (simp_all add: aligned_def)
  ultimately show ?thesis
    unfolding pte_of_def pte_at_def numeral_2_eq_2 leaf.simps Let_def ld
    by (simp add: ld PX0 sample_PTE2PA del: add_0_right) blast
qed

lemma mappages_maps_witness:
  "\<exists>r s' lvl' ps'. mappages 0x80100000 0x1000 0x1000 0x80107000 PTE_R sample = Some (r, s') \<and>
    vm_inv 0x80100000 lvl' ps' s' \<and> (r = 0 \<or> r = -1 \<and> ps' = []) \<and>
    (r = 0 \<longrightarrow> pte_of (phys s') 0x80100000 0x1234 = PA2PTE 0x80107000 OR PTE_R OR PTE_V)"
proof -
  have "\<not> valid (pte_of (phys sample) 0x80100000 v)"
    if "v < MAXVA" "PGROUNDDOWN 0x1000 \<le> PGROUNDDOWN v" for v
  proof -
    have "PGROUNDDOWN v \<noteq> 0" using that(2) by (auto simp: PGROUNDDOWN_def PGSIZE_def)
    then show ?thesis using sample_pte_of [OF that(1)] by (simp add: sample_def)
  qed
  then obtain r s' lvl' ps' where "mappages 0x80100000 0x1000 0x1000 0x80107000 PTE_R sample = Some (r, s')"
    "vm_inv 0x80100000 lvl' ps' s'" "r = 0 \<or> r = -1 \<and> ps' = []"
    "r = 0 \<longrightarrow> (\<forall>v<MAXVA. pte_of (phys s') 0x80100000 v =
       (if PGROUNDDOWN 0x1000 \<le> PGROUNDDOWN v \<and> PGROUNDDOWN v \<le> PGROUNDDOWN (0x1000 + 0x1000 - 1)
        then PA2PTE (0x80107000 + (PGROUNDDOWN v - PGROUNDDOWN 0x1000)) OR PTE_R OR PTE_V
        else pte_of (phys sample) 0x80100000 v))"
    using mappages_maps [OF sample_vm_inv, of "0x1000" "0x1000" "0x80107000" PTE_R] by auto
  then show ?thesis
    by (auto simp: PGROUNDDOWN_def PGSIZE_def MAXVA_def)
qed

lemma page_diff_range:
  assumes "aligned 4096 a" "unat a + n * 4096 \<le> 2 ^ 38"
  shows "unat (PGROUNDDOWN v - a) < n * 4096 \<longleftrightarrow> a \<le> v \<and> unat v < unat a + n * 4096"
proof -
  obtain k where k: "unat a = k * 4096"
    using assms(1) by (metis aligned_def mod_mult_div_eq add.left_neutral mult.commute)
  have r: "unat (PGROUNDDOWN v) = unat v div 4096 * 4096" by (simp add: unat_PGROUNDDOWN)
  have le: "a \<le> v \<longleftrightarrow> k \<le> unat v div 4096"
    by (simp add: word_le_nat_alt k less_eq_div_iff_mult_less_eq)
  have lt: "unat v < unat a + n * 4096 \<longleftrightarrow> unat v div 4096 < k + n"
    using div_less_iff_less_mult [of 4096 "unat v" "k + n"] by (simp add: k add_mult_distrib)
  show ?thesis
  proof (cases "k \<le> unat v div 4096")
    case True
    then have "unat (PGROUNDDOWN v - a) = (unat v div 4096 - k) * 4096"
      by (simp add: unat_sub word_le_nat_alt r k diff_mult_distrib)
    then show ?thesis using True by (auto simp: le lt)
  next
    case False
    then have "unat (PGROUNDDOWN v - a) = 2 ^ 64 + unat (PGROUNDDOWN v) - unat a"
      by (simp add: unat_sub_if_size word_le_nat_alt word_size r k)
    then show ?thesis using False assms(2) le by auto
  qed
qed

text \<open>
  C4. uvmunmap() removes exactly the mappings it is asked to remove. If every page of the range is
  mapped by a leaf entry, the call returns with those entries cleared and every other one as
  before; with \<open>do_free\<close> the physical pages, which must be distinct allocated pages, are back on
  the free list, so no page is lost.
\<close>

theorem uvmunmap_unmaps:
  assumes "vm_inv root lvl ps s" "aligned 4096 va" "unat va + unat npages * 4096 \<le> 2 ^ 38"
    and "\<forall>v\<in>set (page_seq va (unat npages)).
      valid (pte_of (phys s) root v) \<and> PTE_FLAGS (pte_of (phys s) root v) \<noteq> PTE_V"
    and "do_free \<Longrightarrow> distinct (mapped_pages (phys s) root va (unat npages)) \<and>
      (\<forall>p\<in>set (mapped_pages (phys s) root va (unat npages)). page_ok s p \<and> p \<notin> set ps \<and> lvl p = None)"
  shows "\<exists>s'. uvmunmap root va npages do_free s = Some s' \<and> kmem_same s s' \<and>
    vm_inv root lvl (if do_free then rev (mapped_pages (phys s) root va (unat npages)) @ ps else ps) s' \<and>
    (\<forall>v<MAXVA. pte_of (phys s') root v =
       (if va \<le> v \<and> unat v < unat va + unat npages * 4096 then 0 else pte_of (phys s) root v))"
proof -
  have va: "va mod PGSIZE = 0"
    using assms(2) unat_inj [of "va mod 4096" 0] by (simp add: aligned_def PGSIZE_def unat_mod)
  have n: "of_nat (unat npages * 4096) = npages * PGSIZE" by (simp add: PGSIZE_def)
  have u: "uvmunmap root va npages do_free s = uvmunmap_loop root va (va + npages * PGSIZE) do_free s"
    by (simp add: uvmunmap_def va)
  obtain s' where "uvmunmap_loop root va (va + npages * PGSIZE) do_free s = Some s'" "kmem_same s s'"
    "vm_inv root lvl (if do_free then rev (mapped_pages (phys s) root va (unat npages)) @ ps else ps) s'"
    "\<forall>v<MAXVA. pte_of (phys s') root v =
       (if va \<le> v \<and> unat v < unat va + unat npages * 4096 then 0 else pte_of (phys s) root v)"
    using uvmunmap_loop_ok [OF assms(1-3), of do_free] assms(4,5)
    unfolding page_diff_range [OF assms(2,3)] n by blast
  then show ?thesis unfolding u by blast
qed

lemma uvmunmap_unmaps_witness:
  "\<exists>s'. uvmunmap 0x80100000 0 1 True sample = Some s' \<and>
    vm_inv 0x80100000 sample_lvl [0x80103000, 0x80104000, 0x80105000, 0x80106000] s' \<and>
    pte_of (phys s') 0x80100000 0 = 0"
proof -
  let ?e = "PA2PTE 0x80103000 OR (PTE_R OR PTE_W OR PTE_U OR PTE_V)"
  have seq: "page_seq 0 (Suc 0) = [0]" by (simp add: page_seq_def)
  have pte: "pte_of (phys sample) 0x80100000 0 = ?e"
    using sample_pte_of [of 0] by (simp add: sample_def MAXVA_def PGROUNDDOWN_def)
  have fl: "PTE_FLAGS ?e \<noteq> PTE_V"
    using PTE_FLAGS_PA2PTE [of "PTE_R OR PTE_W OR PTE_U OR PTE_V" "0x80103000"]
    by (simp add: PTE_R_def PTE_W_def PTE_U_def PTE_V_def)
  have v: "valid ?e" by (simp add: PA2PTE_def PTE_R_def PTE_W_def PTE_U_def PTE_V_def)
  have mp: "mapped_pages (phys sample) 0x80100000 0 (Suc 0) = [0x80103000]"
    by (simp add: mapped_pages_def seq pte sample_PTE2PA)
  have al: "aligned 4096 0" "unat (0 :: uint64) + unat (1 :: uint64) * 4096 \<le> 2 ^ 38" by (simp_all add: aligned_def)
  have "page_ok sample 0x80103000" "sample_lvl 0x80103000 = None"
    by (simp_all add: page_ok_def sample_def sample_lvl_def PGSIZE_def PHYSTOP_def KERNBASE_def)
  then have "\<exists>s'. uvmunmap 0x80100000 0 1 True sample = Some s' \<and> kmem_same sample s' \<and>
    vm_inv 0x80100000 sample_lvl (if True then rev (mapped_pages (phys sample) 0x80100000 0 (unat (1 :: uint64))) @
      [0x80104000, 0x80105000, 0x80106000] else [0x80104000, 0x80105000, 0x80106000]) s' \<and>
    (\<forall>v<MAXVA. pte_of (phys s') 0x80100000 v =
       (if 0 \<le> v \<and> unat v < unat (0 :: uint64) + unat (1 :: uint64) * 4096 then 0 else pte_of (phys sample) 0x80100000 v))"
    by (intro uvmunmap_unmaps [OF sample_vm_inv al]) (simp_all add: seq mp pte fl v)
  then show ?thesis by (auto simp: mp MAXVA_def)
qed

end
