(* ===== verification/Copy.thy ===== *)
theory Copy
  imports PageTable
begin

text \<open>
  The copies of vm.c between user memory and kernel objects. The kernel's own objects (buffers,
  structs, local variables) are values of the model and not bytes of \<open>phys\<close>: \<open>copyin\<close> and
  \<open>copyinstr\<close> return the bytes that the C code stores through \<open>dst\<close>, also those stored before
  a failure, and \<open>copyout\<close> takes the bytes that \<open>src\<close> points to. The page-wise loops are
  shown equal to byte-wise reference copies.
\<close>

section \<open>Page-wise copies\<close>

text \<open>Bytes \<open>a\<close>, \<dots>, \<open>a + n - 1\<close> of memory, and storing a list of bytes at \<open>a\<close>.\<close>

definition get_bytes :: "memory \<Rightarrow> uint64 \<Rightarrow> nat \<Rightarrow> uchar list" where
  "get_bytes m a n = map (\<lambda>i. m (a + of_nat i)) [0..<n]"

fun put_bytes :: "uint64 \<Rightarrow> uchar list \<Rightarrow> memory \<Rightarrow> memory" where
  "put_bytes a [] m = m"
| "put_bytes a (b # bs) m = put_bytes (a + 1) bs (m(a := b))"

text \<open>The bytes that one round of the loops handles: up to the end of the page or of the object.\<close>

definition chunk :: "uint64 \<Rightarrow> nat \<Rightarrow> nat" where
  "chunk va len = (let n = unat (PGSIZE - (va - PGROUNDDOWN va)) in if n > len then len else n)"

lemma page_offset: "unat (va - PGROUNDDOWN va) = unat va mod 4096"
proof -
  have "PGROUNDDOWN va \<le> va" by (simp add: word_le_nat_alt unat_PGROUNDDOWN)
  then have "unat (va - PGROUNDDOWN va) = unat va - unat va div 4096 * 4096"
    by (simp add: unat_sub unat_PGROUNDDOWN)
  then show ?thesis by (simp add: minus_div_mult_eq_mod)
qed

lemma chunk_eq: "chunk va len = min len (4096 - unat va mod 4096)"
proof -
  have "va - PGROUNDDOWN va \<le> PGSIZE"
    by (simp add: word_le_nat_alt page_offset PGSIZE_def less_imp_le)
  then have "unat (PGSIZE - (va - PGROUNDDOWN va)) = 4096 - unat va mod 4096"
    by (simp add: unat_sub page_offset) (simp add: PGSIZE_def)
  then show ?thesis by (simp add: chunk_def Let_def min_def)
qed

lemma chunk_bounds: "0 < len \<Longrightarrow> 0 < chunk va len" "chunk va len \<le> len"
  by (auto simp: chunk_eq)

function copyin :: "uint64 \<Rightarrow> uint64 \<Rightarrow> nat \<Rightarrow> 'a kmem_scheme \<Rightarrow> (int \<times> uchar list) option" where
  "copyin pagetable srcva len s =
     (if 0 < len then do {
        let va0 = PGROUNDDOWN srcva;
        pa0 \<leftarrow> walkaddr pagetable va0 s;
        if pa0 = 0 then Some (-1, [])
        else do {
          let n = chunk srcva len;
          (r, bs) \<leftarrow> copyin pagetable (va0 + PGSIZE) (len - n) s;
          Some (r, get_bytes (phys s) (pa0 + (srcva - va0)) n @ bs)
        }
      } else Some (0, []))"
  by auto
termination
  by (relation "measure (\<lambda>(_, _, len, _). len)") (auto simp: chunk_bounds)

function copyout :: "uint64 \<Rightarrow> uint64 \<Rightarrow> uchar list \<Rightarrow> 'a kmem_scheme \<Rightarrow> (int \<times> 'a kmem_scheme) option" where
  "copyout pagetable dstva bs s =
     (if bs \<noteq> [] then do {
        let va0 = PGROUNDDOWN dstva;
        pa0 \<leftarrow> walkaddr pagetable va0 s;
        if pa0 = 0 then Some (-1, s)
        else do {
          let n = chunk dstva (length bs);
          let s = s\<lparr>phys := put_bytes (pa0 + (dstva - va0)) (take n bs) (phys s)\<rparr>;
          copyout pagetable (va0 + PGSIZE) (drop n bs) s
        }
      } else Some (0, s))"
  by auto
termination
  by (relation "measure (\<lambda>(_, _, bs, _). length bs)") (auto simp: chunk_bounds)

text \<open>
  \<open>copyinstr\<close> into a kernel buffer: the bytes stored before and including the NUL; the result
  is -1 when an unmapped page or the limit comes first.
\<close>

fun scan_nul :: "nat \<Rightarrow> uint64 \<Rightarrow> memory \<Rightarrow> bool \<times> uchar list" where
  "scan_nul 0 p m = (False, [])"
| "scan_nul (Suc n) p m =
     (if m p = 0 then (True, [0]) else let (g, bs) = scan_nul n (p + 1) m in (g, m p # bs))"

function copyinstr :: "uint64 \<Rightarrow> uint64 \<Rightarrow> nat \<Rightarrow> 'a kmem_scheme \<Rightarrow> (int \<times> uchar list) option" where
  "copyinstr pagetable srcva maxn s =
     (if 0 < maxn then do {
        let va0 = PGROUNDDOWN srcva;
        pa0 \<leftarrow> walkaddr pagetable va0 s;
        if pa0 = 0 then Some (-1, [])
        else do {
          let n = chunk srcva maxn;
          let (got_null, bs) = scan_nul n (pa0 + (srcva - va0)) (phys s);
          if got_null then Some (0, bs)
          else do {
            (r, bs') \<leftarrow> copyinstr pagetable (va0 + PGSIZE) (maxn - n) s;
            Some (r, bs @ bs')
          }
        }
      } else Some (-1, []))"
  by auto
termination
  by (relation "measure (\<lambda>(_, _, n, _). n)") (auto simp: chunk_bounds)

declare copyin.simps [simp del] copyout.simps [simp del] copyinstr.simps [simp del]

section \<open>Byte-wise reference\<close>

definition user_pa :: "uint64 \<Rightarrow> 'a kmem_scheme \<Rightarrow> uint64 \<Rightarrow> uint64 option" where
  "user_pa root s va = (let t = translate root s (PGROUNDDOWN va) in
     if t = 0 then None else Some (t + (va - PGROUNDDOWN va)))"

fun user_bytes :: "uint64 \<Rightarrow> 'a kmem_scheme \<Rightarrow> uint64 \<Rightarrow> nat \<Rightarrow> int \<times> uchar list" where
  "user_bytes root s va 0 = (0, [])"
| "user_bytes root s va (Suc n) =
     (case user_pa root s va of None \<Rightarrow> (-1, [])
      | Some a \<Rightarrow> let (r, bs) = user_bytes root s (va + 1) n in (r, phys s a # bs))"

fun user_store :: "uint64 \<Rightarrow> uint64 \<Rightarrow> uchar list \<Rightarrow> 'a kmem_scheme \<Rightarrow> int \<times> 'a kmem_scheme" where
  "user_store root va [] s = (0, s)"
| "user_store root va (b # bs) s =
     (case user_pa root s va of None \<Rightarrow> (-1, s)
      | Some a \<Rightarrow> user_store root (va + 1) bs (s\<lparr>phys := (phys s)(a := b)\<rparr>))"

fun user_str :: "uint64 \<Rightarrow> 'a kmem_scheme \<Rightarrow> uint64 \<Rightarrow> nat \<Rightarrow> int \<times> uchar list" where
  "user_str root s va 0 = (-1, [])"
| "user_str root s va (Suc n) =
     (case user_pa root s va of None \<Rightarrow> (-1, [])
      | Some a \<Rightarrow> if phys s a = 0 then (0, [0])
          else let (r, bs) = user_str root s (va + 1) n in (r, phys s a # bs))"

lemma PGROUNDDOWN_Suc:
  assumes "unat va mod 4096 \<noteq> 4095"
  shows "PGROUNDDOWN (va + 1) = PGROUNDDOWN va"
proof -
  have "unat va \<noteq> 2 ^ 64 - 1" using assms by auto
  then have "unat va + 1 < 2 ^ 64" using unat_lt2p [of va] by simp
  then have "unat (va + 1) = unat va + 1" using unat_add_of_nat [of va 1] by simp
  moreover have "(unat va + 1) div 4096 = unat va div 4096" using assms by (simp add: div_Suc mod_Suc)
  ultimately show ?thesis by (intro unat_inj) (simp add: unat_PGROUNDDOWN)
qed

lemma PGROUNDDOWN_last:
  assumes "unat va mod 4096 = 4095"
  shows "va + 1 = PGROUNDDOWN va + PGSIZE"
proof -
  have "va - PGROUNDDOWN va = 4095"
    using page_offset [of va] assms by (intro unat_inj) simp
  then show ?thesis by (simp add: PGSIZE_def algebra_simps)
qed

lemma user_pa_Suc:
  assumes "unat va mod 4096 \<noteq> 4095"
  shows "user_pa root s (va + 1) = map_option (\<lambda>a. a + 1) (user_pa root s va)"
  unfolding user_pa_def PGROUNDDOWN_Suc [OF assms] by (simp add: Let_def diff_add_eq add.assoc)

lemma mod_4096_Suc:
  assumes "unat va mod 4096 \<noteq> 4095"
  shows "unat (va + 1 :: uint64) mod 4096 = unat va mod 4096 + 1"
proof -
  have "unat (va + 1) mod 4096 = (unat va + 1) mod 4096"
    by (simp add: unat_word_ariths mod_mod_cancel)
  then show ?thesis using assms by (simp add: mod_Suc)
qed

lemma page_end:
  assumes "k = 4096 - unat va mod 4096"
  shows "va + of_nat k = PGROUNDDOWN va + PGSIZE"
proof -
  have "va - PGROUNDDOWN va = of_nat (unat va mod 4096)"
    using page_offset [of va] by (metis of_nat_unat ucast_id)
  moreover have "of_nat (unat va mod 4096) + of_nat k = (PGSIZE :: uint64)"
    unfolding assms of_nat_add [symmetric] by (simp add: PGSIZE_def less_imp_le)
  ultimately show ?thesis by (metis add.assoc add.commute diff_add_cancel)
qed

lemma user_pa_page:
  "user_pa root s va = Some a \<Longrightarrow> Suc k \<le> 4096 - unat va mod 4096 \<Longrightarrow> 0 < k \<Longrightarrow>
   user_pa root s (va + 1) = Some (a + 1) \<and> k \<le> 4096 - unat (va + 1) mod 4096"
  using user_pa_Suc [of va root s] mod_4096_Suc [of va] by auto

lemma get_bytes_Suc: "get_bytes m a (Suc n) = m a # get_bytes m (a + 1) n"
  by (simp add: get_bytes_def upt_conv_Cons map_Suc_upt [symmetric] add.assoc o_def del: upt_Suc)

lemma user_bytes_chunk:
  "user_pa root s va = Some a \<Longrightarrow> k \<le> 4096 - unat va mod 4096 \<Longrightarrow>
   user_bytes root s va (k + n) =
     (let (r, bs) = user_bytes root s (va + of_nat k) n in (r, get_bytes (phys s) a k @ bs))"
proof (induction k arbitrary: va a)
  case 0
  then show ?case by (simp add: get_bytes_def)
next
  case (Suc k)
  show ?case
  proof (cases "k = 0")
    case True
    then show ?thesis using Suc.prems by (simp add: get_bytes_def split: prod.split)
  next
    case False
    then have "user_pa root s (va + 1) = Some (a + 1)" "k \<le> 4096 - unat (va + 1) mod 4096"
      using user_pa_page [OF Suc.prems] by auto
    from Suc.IH [OF this] show ?thesis
      using Suc.prems(1) by (simp add: get_bytes_Suc add.assoc split: prod.split)
  qed
qed

lemma copyin_eq:
  assumes "vm_inv root lvl ps s"
  shows "copyin root va len s = Some (user_bytes root s va len)"
proof (induction len arbitrary: va rule: less_induct)
  case (less len)
  show ?case
  proof (cases "len = 0")
    case True
    then show ?thesis by (simp add: copyin.simps)
  next
    case False
    define k where "k = chunk va len"
    have k: "0 < k" "k \<le> len" "k \<le> 4096 - unat va mod 4096"
      using False by (auto simp: k_def chunk_eq)
    have IH: "copyin root v (len - k) s = Some (user_bytes root s v (len - k))" for v
      using less [of "len - k"] k by simp
    show ?thesis
    proof (cases "user_pa root s va")
      case None
      then have "walkaddr root (PGROUNDDOWN va) s = Some 0"
        by (auto simp: walkaddr_eq [OF assms] user_pa_def Let_def split: if_splits)
      moreover obtain m where "len = Suc m" using False by (cases len) auto
      ultimately show ?thesis using None by (subst copyin.simps) simp
    next
      case (Some a)
      then have w: "walkaddr root (PGROUNDDOWN va) s = Some (translate root s (PGROUNDDOWN va))"
        "translate root s (PGROUNDDOWN va) \<noteq> 0" "a = translate root s (PGROUNDDOWN va) + (va - PGROUNDDOWN va)"
        by (auto simp: walkaddr_eq [OF assms] user_pa_def Let_def split: if_splits)
      have "user_bytes root s va (k + (len - k)) =
          (let (r, bs) = user_bytes root s (va + of_nat k) (len - k) in (r, get_bytes (phys s) a k @ bs))"
        by (rule user_bytes_chunk [OF Some k(3)])
      moreover have "len - k = 0 \<or> va + of_nat k = PGROUNDDOWN va + PGSIZE"
        using page_end [of k va] by (auto simp: k_def chunk_eq min_def)
      then have "user_bytes root s (va + of_nat k) (len - k) =
          user_bytes root s (PGROUNDDOWN va + PGSIZE) (len - k)" by auto
      ultimately show ?thesis
        using False w k IH by (subst copyin.simps) (simp add: k_def [symmetric] Let_def split: prod.split)
    qed
  qed
qed

lemma user_str_chunk:
  "user_pa root s va = Some a \<Longrightarrow> k \<le> 4096 - unat va mod 4096 \<Longrightarrow>
   user_str root s va (k + n) =
     (let (g, bs) = scan_nul k a (phys s) in
      if g then (0, bs) else let (r, bs') = user_str root s (va + of_nat k) n in (r, bs @ bs'))"
proof (induction k arbitrary: va a)
  case 0
  then show ?case by simp
next
  case (Suc k)
  show ?case
  proof (cases "k = 0")
    case True
    then show ?thesis using Suc.prems by (simp split: prod.split)
  next
    case False
    then have "user_pa root s (va + 1) = Some (a + 1)" "k \<le> 4096 - unat (va + 1) mod 4096"
      using user_pa_page [OF Suc.prems] by auto
    from Suc.IH [OF this] show ?thesis
      using Suc.prems(1) by (simp add: add.assoc split: prod.split)
  qed
qed

lemma walkaddr_user_pa:
  assumes "vm_inv root lvl ps s"
  shows "user_pa root s va = None \<Longrightarrow> walkaddr root (PGROUNDDOWN va) s = Some 0"
    and "user_pa root s va = Some a \<Longrightarrow> \<exists>pa. walkaddr root (PGROUNDDOWN va) s = Some pa \<and> pa \<noteq> 0 \<and>
      pa = translate root s (PGROUNDDOWN va) \<and> a = pa + (va - PGROUNDDOWN va)"
  by (auto simp: walkaddr_eq [OF assms] user_pa_def Let_def split: if_splits)

lemma chunk_end: "chunk va len = len \<or> va + of_nat (chunk va len) = PGROUNDDOWN va + PGSIZE"
  using page_end [of "chunk va len" va] by (auto simp: chunk_eq min_def)

lemma copyinstr_eq:
  assumes "vm_inv root lvl ps s"
  shows "copyinstr root va n s = Some (user_str root s va n)"
proof (induction n arbitrary: va rule: less_induct)
  case (less n)
  show ?case
  proof (cases "n = 0")
    case True
    then show ?thesis by (simp add: copyinstr.simps)
  next
    case False
    define k where "k = chunk va n"
    have k: "0 < k" "k \<le> n" "k \<le> 4096 - unat va mod 4096"
      using False by (auto simp: k_def chunk_eq)
    have IH: "copyinstr root v (n - k) s = Some (user_str root s v (n - k))" for v
      using less [of "n - k"] k by simp
    show ?thesis
    proof (cases "user_pa root s va")
      case None
      moreover obtain m where "n = Suc m" using False by (cases n) auto
      ultimately show ?thesis
        using walkaddr_user_pa(1) [OF assms None] by (subst copyinstr.simps) simp
    next
      case (Some a)
      have "n - k = 0 \<or> va + of_nat k = PGROUNDDOWN va + PGSIZE"
        using chunk_end [of va n] by (auto simp: k_def)
      then have "user_str root s (va + of_nat k) (n - k) = user_str root s (PGROUNDDOWN va + PGSIZE) (n - k)" by auto
      with user_str_chunk [OF Some k(3), of "n - k"] walkaddr_user_pa(2) [OF assms Some] show ?thesis
        using False k IH by (subst copyinstr.simps) (auto simp: k_def [symmetric] Let_def split: prod.split)
    qed
  qed
qed

section \<open>Writing user memory\<close>

text \<open>No user page is a page-table page or a free page.\<close>

definition user_sep :: "uint64 \<Rightarrow> (uint64 \<rightharpoonup> nat) \<Rightarrow> uint64 list \<Rightarrow> 'a kmem_scheme \<Rightarrow> bool" where
  "user_sep root lvl ps s \<longleftrightarrow>
     (\<forall>va. translate root s va \<noteq> 0 \<longrightarrow> lvl (translate root s va) = None \<and> translate root s va \<notin> set ps)"

lemma aligned_PTE2PA: "aligned 4096 (PTE2PA e)"
  by (simp add: PTE2PA_def push_bit_eq_mult mult.commute aligned_mult)

lemma user_pa_in_page:
  assumes "user_pa root s va = Some a"
  shows "a - translate root s (PGROUNDDOWN va) < PGSIZE" "translate root s (PGROUNDDOWN va) \<noteq> 0"
    "aligned 4096 (translate root s (PGROUNDDOWN va))"
proof -
  show nz: "translate root s (PGROUNDDOWN va) \<noteq> 0"
    using assms by (auto simp: user_pa_def Let_def split: if_splits)
  then show "aligned 4096 (translate root s (PGROUNDDOWN va))"
    by (auto simp: translate_def Let_def aligned_PTE2PA split: if_splits)
  have "a - translate root s (PGROUNDDOWN va) = va - PGROUNDDOWN va"
    using assms nz by (auto simp: user_pa_def Let_def)
  then show "a - translate root s (PGROUNDDOWN va) < PGSIZE"
    by (simp add: word_less_nat_alt page_offset) (simp add: PGSIZE_def)
qed

lemma user_write_frame:
  fixes b :: uchar
  assumes inv: "vm_inv root lvl ps s" and sep: "user_sep root lvl ps s" and a: "user_pa root s va = Some a"
  defines "t \<equiv> s\<lparr>phys := (phys s)(a := b)\<rparr>"
  shows "vm_inv root lvl ps t" "user_sep root lvl ps t" "user_pa root t = user_pa root s"
proof -
  define p where "p = translate root s (PGROUNDDOWN va)"
  note pg = user_pa_in_page [OF a, folded p_def]
  have p: "lvl p = None" "p \<notin> set ps" using sep pg(2) by (auto simp: user_sep_def p_def)
  have out: "phys t x = phys s x" if "\<not> x - p < PGSIZE" for x using that pg(1) by (auto simp: t_def)
  have pt: "ptable (phys s) root lvl" and rdy: "kmem_ready ps s" using inv by (auto simp: vm_inv_def)
  have "kmem_ready ps (s\<lparr>phys := phys t\<rparr>)" by (rule kmem_ready_frame [OF rdy pg(3) p(2) out])
  moreover have "ptable (phys t) root lvl" by (rule tree_frame(1) [OF pt pg(3) p(1) out])
  ultimately show "vm_inv root lvl ps t"
    using inv by (simp add: vm_inv_def t_def page_ok_def)
  have "translate root t = translate root s"
    using tree_frame(3) [OF pt pg(3) p(1) out] by (simp add: translate_def fun_eq_iff)
  then show "user_sep root lvl ps t" "user_pa root t = user_pa root s"
    using sep by (simp_all add: user_sep_def user_pa_def fun_eq_iff)
qed

lemma user_store_chunk:
  "vm_inv root lvl ps s \<Longrightarrow> user_sep root lvl ps s \<Longrightarrow> user_pa root s va = Some a \<Longrightarrow>
   length cs \<le> 4096 - unat va mod 4096 \<Longrightarrow>
   user_store root va (cs @ bs) s =
     user_store root (va + of_nat (length cs)) bs (s\<lparr>phys := put_bytes a cs (phys s)\<rparr>) \<and>
   vm_inv root lvl ps (s\<lparr>phys := put_bytes a cs (phys s)\<rparr>) \<and>
   user_sep root lvl ps (s\<lparr>phys := put_bytes a cs (phys s)\<rparr>)"
proof (induction cs arbitrary: va a s)
  case Nil
  then show ?case by simp
next
  case (Cons c cs)
  note fr = user_write_frame [OF Cons.prems(1-3), of c]
  show ?case
  proof (cases "cs = []")
    case True
    then show ?thesis using Cons.prems fr by (simp del: fun_upd_apply)
  next
    case False
    then have "user_pa root s (va + 1) = Some (a + 1)" "length cs \<le> 4096 - unat (va + 1) mod 4096"
      using user_pa_page [OF Cons.prems(3), of "length cs"] Cons.prems(4) by auto
    with Cons.IH [OF fr(1,2), of "va + 1" "a + 1"] fr(3) show ?thesis
      using Cons.prems(3) by (simp add: add.assoc del: fun_upd_apply)
  qed
qed

lemma copyout_eq:
  "vm_inv root lvl ps s \<Longrightarrow> user_sep root lvl ps s \<Longrightarrow> copyout root va bs s = Some (user_store root va bs s)"
proof (induction "length bs" arbitrary: va bs s rule: less_induct)
  case less
  show ?case
  proof (cases "bs = []")
    case True
    then show ?thesis by (simp add: copyout.simps)
  next
    case False
    define k where "k = chunk va (length bs)"
    have k: "0 < k" "k \<le> length bs" "k \<le> 4096 - unat va mod 4096"
      using False by (auto simp: k_def chunk_eq)
    show ?thesis
    proof (cases "user_pa root s va")
      case None
      moreover obtain c cs where "bs = c # cs" using False by (cases bs) auto
      ultimately show ?thesis
        using walkaddr_user_pa(1) [OF less.prems(1) None] by (subst copyout.simps) simp
    next
      case (Some a)
      define t where "t = s\<lparr>phys := put_bytes a (take k bs) (phys s)\<rparr>"
      have t: "user_store root va (take k bs @ drop k bs) s = user_store root (va + of_nat k) (drop k bs) t"
        "vm_inv root lvl ps t" "user_sep root lvl ps t"
        using user_store_chunk [OF less.prems Some, of "take k bs" "drop k bs"] k by (auto simp: t_def)
      have "drop k bs = [] \<or> va + of_nat k = PGROUNDDOWN va + PGSIZE"
        using chunk_end [of va "length bs"] by (auto simp: k_def)
      then have "user_store root (va + of_nat k) (drop k bs) t =
          user_store root (PGROUNDDOWN va + PGSIZE) (drop k bs) t" by auto
      moreover have "copyout root (PGROUNDDOWN va + PGSIZE) (drop k bs) t =
          Some (user_store root (PGROUNDDOWN va + PGSIZE) (drop k bs) t)"
        using less.hyps [OF _ t(2,3)] k by simp
      ultimately show ?thesis
        using False walkaddr_user_pa(2) [OF less.prems(1) Some] t(1)
        by (subst copyout.simps) (auto simp: k_def [symmetric] t_def Let_def)
    qed
  qed
qed

lemma user_store_other:
  "vm_inv root lvl ps s \<Longrightarrow> user_sep root lvl ps s \<Longrightarrow>
   (\<And>i. i < length bs \<Longrightarrow> user_pa root s (va + of_nat i) \<noteq> Some x) \<Longrightarrow>
   phys (snd (user_store root va bs s)) x = phys s x"
proof (induction bs arbitrary: va s)
  case Nil
  then show ?case by simp
next
  case (Cons b bs)
  show ?case
  proof (cases "user_pa root s va")
    case None
    then show ?thesis by simp
  next
    case (Some a)
    note fr = user_write_frame [OF Cons.prems(1,2) Some, of b]
    have "user_pa root s (va + 1 + of_nat i) \<noteq> Some x" if "i < length bs" for i
      using Cons.prems(3) [of "Suc i"] that by (simp add: add.assoc)
    then have "phys (snd (user_store root (va + 1) bs (s\<lparr>phys := (phys s)(a := b)\<rparr>))) x = ((phys s)(a := b)) x"
      using Cons.IH [OF fr(1,2), of "va + 1"] fr(3) by simp
    then show ?thesis using Some Cons.prems(3) [of 0] by auto
  qed
qed

lemma user_store_bytes:
  "vm_inv root lvl ps s \<Longrightarrow> user_sep root lvl ps s \<Longrightarrow> user_store root va bs s = (0, s') \<Longrightarrow>
   (\<And>i j. i < j \<Longrightarrow> j < length bs \<Longrightarrow> user_pa root s (va + of_nat i) \<noteq> user_pa root s (va + of_nat j)) \<Longrightarrow>
   user_bytes root s' va (length bs) = (0, bs) \<and> vm_inv root lvl ps s' \<and> user_pa root s' = user_pa root s"
proof (induction bs arbitrary: va s)
  case Nil
  then show ?case by simp
next
  case (Cons b bs)
  then obtain a where a: "user_pa root s va = Some a" by (auto split: option.splits)
  define t where "t = s\<lparr>phys := (phys s)(a := b)\<rparr>"
  note fr = user_write_frame [OF Cons.prems(1,2) a, of b, folded t_def]
  have st: "user_store root (va + 1) bs t = (0, s')"
    using Cons.prems(3) a by (simp add: t_def del: fun_upd_apply)
  have inj: "user_pa root t (va + 1 + of_nat i) \<noteq> user_pa root t (va + 1 + of_nat j)"
    if "i < j" "j < length bs" for i j
    using Cons.prems(4) [of "Suc i" "Suc j"] that fr(3) by (simp add: add.assoc)
  have "phys (snd (user_store root (va + 1) bs t)) a = phys t a"
  proof (rule user_store_other [OF fr(1,2)])
    fix i assume "i < length bs"
    then show "user_pa root t (va + 1 + of_nat i) \<noteq> Some a"
      using Cons.prems(4) [of 0 "Suc i"] a fr(3) by (simp add: add.assoc)
  qed
  then have "phys s' a = phys t a" by (simp add: st)
  then have "phys s' a = b" by (simp add: t_def)
  with Cons.IH [OF fr(1,2) st inj] show ?case using a fr(3) by simp
qed

text \<open>
  C6. What the kernel writes to user memory is what it reads back. If copyout() of the bytes
  \<open>bs\<close> to user address \<open>va\<close> returns 0 and no two of these user addresses share a physical byte,
  then copyin() from \<open>va\<close> returns 0 and delivers exactly \<open>bs\<close>.
\<close>

theorem copyout_copyin:
  assumes "vm_inv root lvl ps s" "user_sep root lvl ps s" "copyout root va bs s = Some (0, s')"
    and "\<And>i j. i < j \<Longrightarrow> j < length bs \<Longrightarrow> user_pa root s (va + of_nat i) \<noteq> user_pa root s (va + of_nat j)"
  shows "copyin root va (length bs) s' = Some (0, bs)"
proof -
  have "user_store root va bs s = (0, s')" using assms(3) copyout_eq [OF assms(1,2)] by simp
  from user_store_bytes [OF assms(1,2) this assms(4)] show ?thesis
    using copyin_eq [of root lvl ps s' va "length bs"] by simp
qed

text \<open>
  C5. The page-wise copies are byte-wise copies. On a well-formed page table, copyin(), copyout()
  and copyinstr() deliver for any address and length, page boundaries and failures included, what
  a loop that translates every single byte delivers: the bytes up to the first unmapped one (or,
  for strings, up to the NUL), with -1 exactly when they stopped early.
\<close>

theorem copies_bytewise:
  assumes "vm_inv root lvl ps s" "user_sep root lvl ps s"
  shows "copyin root va n s = Some (user_bytes root s va n) \<and>
    copyinstr root va n s = Some (user_str root s va n) \<and>
    copyout root va bs s = Some (user_store root va bs s)"
  using copyin_eq [OF assms(1)] copyinstr_eq [OF assms(1)] copyout_eq [OF assms] by simp

text \<open>The concrete address space of PageTable: virtual page 0 is the user page 0x80103000.\<close>

lemma sample_translate:
  "translate 0x80100000 sample va = (if va < MAXVA \<and> PGROUNDDOWN va = 0 then 0x80103000 else 0)"
proof -
  let ?e = "PA2PTE 0x80103000 OR (PTE_R OR PTE_W OR PTE_U OR PTE_V)"
  have "valid ?e" "?e AND PTE_U \<noteq> 0"
    by (simp_all add: PA2PTE_def PTE_R_def PTE_W_def PTE_U_def PTE_V_def)
  then show ?thesis
    using sample_pte_of [of va] by (auto simp: translate_def sample_def sample_PTE2PA Let_def)
qed

lemma sample_user_sep: "user_sep 0x80100000 sample_lvl [0x80104000, 0x80105000, 0x80106000] sample"
  by (simp add: user_sep_def sample_translate sample_lvl_def)

lemma sample_user_pa: "user_pa 0x80100000 sample 0x10 = Some 0x80103010" "user_pa 0x80100000 sample 0x11 = Some 0x80103011"
  by (simp_all add: user_pa_def sample_translate PGROUNDDOWN_def PGSIZE_def MAXVA_def)

lemma copies_bytewise_witness:
  "\<exists>s'. copyout 0x80100000 0x10 [1, 2] sample = Some (0, s') \<and> phys s' 0x80103011 = 2 \<and>
    copyin 0x80100000 0x10 1 sample = Some (0, [phys sample 0x80103010])"
  using copies_bytewise [OF sample_vm_inv sample_user_sep, of "0x10" "1" "[1, 2]"]
    user_write_frame(3) [OF sample_vm_inv sample_user_sep sample_user_pa(1), of 1] sample_user_pa
  by (simp add: numeral_eq_Suc)

lemma copyout_copyin_witness:
  "\<exists>s'. copyout 0x80100000 0x10 [1, 2] sample = Some (0, s') \<and> copyin 0x80100000 0x10 2 s' = Some (0, [1, 2])"
proof -
  have "\<exists>s'. copyout 0x80100000 0x10 [1, 2] sample = Some (0, s')"
    using copyout_eq [OF sample_vm_inv sample_user_sep, of "0x10" "[1, 2]"]
      user_write_frame(3) [OF sample_vm_inv sample_user_sep sample_user_pa(1), of 1] sample_user_pa by simp
  then obtain s' where s': "copyout 0x80100000 0x10 [1, 2] sample = Some (0, s')" ..
  have "user_pa 0x80100000 sample (0x10 + of_nat i) \<noteq> user_pa 0x80100000 sample (0x10 + of_nat j)"
    if "i < j" "j < length [1 :: uchar, 2]" for i j
  proof -
    have "i = 0" "j = 1" using that by auto
    then show ?thesis using sample_user_pa by simp
  qed
  from copyout_copyin [OF sample_vm_inv sample_user_sep s' this] s' show ?thesis by (simp add: numeral_2_eq_2)
qed

end
