(* ===== verification/Proc.thy ===== *)
theory Proc
  imports Copy
begin

text \<open>
  kernel/proc.c without the parts that need the file system (those are in Fork): the process table,
  allocation and release of table slots, sleep and wakeup, kill, the scheduler and the context
  switch; and kernel/sleeplock.c. \<open>swtch\<close> is where one kernel thread stops and another goes on:
  \<open>sched_out\<close>/\<open>sleep_out\<close> run up to the switch and \<open>sched_in\<close>/\<open>sleep_in\<close> from it, and
  \<open>scheduler_pick\<close>/\<open>scheduler_back\<close> are the scheduler's side before and after it.
\<close>

section \<open>State\<close>

datatype procstate = UNUSED | USED | SLEEPING | RUNNABLE | RUNNING | ZOMBIE

text \<open>The addresses the kernel sleeps on; \<open>NullChan\<close> is the null pointer.\<close>

datatype chan =
    NullChan | TicksChan | ProcChan nat | SleepChan sleeplock_id | PipeReadChan uint64 | PipeWriteChan uint64
  | LogChan | ConsChan | UartChan | DiskFreeChan | DiskBufChan nat

text \<open>A call that may have to wait: its result, or the channel it goes to sleep on.\<close>

datatype 'a blocking = Returns 'a | Sleeps chan

record context_regs =
  ctx_ra :: uint64
  ctx_sp :: uint64
  ctx_s :: "nat \<Rightarrow> uint64"

text \<open>
  \<open>struct proc\<close>. Pointers to processes, files and inodes are indices into the kernel's tables; the
  name is the C string that the array holds.
\<close>

record proc =
  p_state :: procstate
  p_chan :: chan
  p_killed :: int
  p_xstate :: int
  p_pid :: int
  p_parent :: "nat option"
  p_kstack :: uint64
  p_sz :: uint64
  p_pagetable :: uint64
  p_trapframe :: uint64
  p_context :: context_regs
  p_ofile :: "nat \<Rightarrow> nat option"
  p_cwd :: "nat option"
  p_name :: "uchar list"

record sleeplock =
  sl_locked :: bool
  sl_name :: string
  sl_pid :: int

text \<open>\<open>trampoline\<close> and \<open>forkret_pc\<close> are the addresses of trampoline.S and of \<open>forkret\<close>.\<close>

record procs = kmem +
  proc :: "nat \<Rightarrow> proc"
  cpu_proc :: "nat \<Rightarrow> nat option"
  nextpid :: int
  initproc :: "nat option"
  ticks :: uint
  slk :: "sleeplock_id \<Rightarrow> sleeplock"
  trampoline :: uint64
  forkret_pc :: uint64

definition upd_proc :: "nat \<Rightarrow> (proc \<Rightarrow> proc) \<Rightarrow> 'a procs_scheme \<Rightarrow> 'a procs_scheme" where
  "upd_proc p f s = s\<lparr>proc := (proc s)(p := f (proc s p))\<rparr>"

section \<open>The current process and process ids\<close>

definition myproc :: "'a procs_scheme \<Rightarrow> (nat option \<times> 'a procs_scheme) option" where
  "myproc s = do {
     let s = push_off s;
     let p = cpu_proc s (hart s);
     s \<leftarrow> pop_off s;
     Some (p, s)
   }"

definition allocpid :: "'a procs_scheme \<Rightarrow> (int \<times> 'a procs_scheme) option" where
  "allocpid s = do {
     s \<leftarrow> acquire PidLock s;
     let pid = nextpid s;
     let s = s\<lparr>nextpid := nextpid s + 1\<rparr>;
     s \<leftarrow> release PidLock s;
     Some (pid, s)
   }"

section \<open>Process page tables\<close>

definition proc_pagetable :: "nat \<Rightarrow> 'a procs_scheme \<Rightarrow> (uint64 \<times> 'a procs_scheme) option" where
  "proc_pagetable p s = do {
     (pagetable, s) \<leftarrow> uvmcreate s;
     if pagetable = 0 then Some (0, s)
     else do {
       (r, s) \<leftarrow> mappages pagetable TRAMPOLINE PGSIZE (trampoline s) (PTE_R OR PTE_X) s;
       if r < 0 then do {
         s \<leftarrow> uvmfree pagetable 0 s;
         Some (0, s)
       } else do {
         (r, s) \<leftarrow> mappages pagetable TRAPFRAME PGSIZE (p_trapframe (proc s p)) (PTE_R OR PTE_W) s;
         if r < 0 then do {
           s \<leftarrow> uvmunmap pagetable TRAMPOLINE 1 False s;
           s \<leftarrow> uvmfree pagetable 0 s;
           Some (0, s)
         } else Some (pagetable, s)
       }
     }
   }"

definition proc_freepagetable :: "uint64 \<Rightarrow> uint64 \<Rightarrow> 'a procs_scheme \<Rightarrow> 'a procs_scheme option" where
  "proc_freepagetable pagetable sz s = do {
     s \<leftarrow> uvmunmap pagetable TRAMPOLINE 1 False s;
     s \<leftarrow> uvmunmap pagetable TRAPFRAME 1 False s;
     uvmfree pagetable sz s
   }"

section \<open>Allocating and freeing table slots\<close>

definition freeproc :: "nat \<Rightarrow> 'a procs_scheme \<Rightarrow> 'a procs_scheme option" where
  "freeproc p s = do {
     s \<leftarrow> (if p_trapframe (proc s p) \<noteq> 0 then kfree (p_trapframe (proc s p)) s else Some s);
     let s = upd_proc p (p_trapframe_update (\<lambda>_. 0)) s;
     s \<leftarrow> (if p_pagetable (proc s p) \<noteq> 0
           then proc_freepagetable (p_pagetable (proc s p)) (p_sz (proc s p)) s else Some s);
     Some (upd_proc p (\<lambda>q. q\<lparr>p_pagetable := 0, p_sz := 0, p_pid := 0, p_parent := None, p_name := [],
       p_chan := NullChan, p_killed := 0, p_xstate := 0, p_state := UNUSED\<rparr>) s)
   }"

fun allocproc_find :: "nat list \<Rightarrow> 'a procs_scheme \<Rightarrow> (nat option \<times> 'a procs_scheme) option" where
  "allocproc_find [] s = Some (None, s)"
| "allocproc_find (p # ps) s = do {
     s \<leftarrow> acquire (ProcLock p) s;
     if p_state (proc s p) = UNUSED then Some (Some p, s)
     else do {
       s \<leftarrow> release (ProcLock p) s;
       allocproc_find ps s
     }
   }"

definition allocproc :: "'a procs_scheme \<Rightarrow> (nat option \<times> 'a procs_scheme) option" where
  "allocproc s = do {
     (found, s) \<leftarrow> allocproc_find [0..<NPROC] s;
     case found of None \<Rightarrow> Some (None, s)
     | Some p \<Rightarrow> do {
         (pid, s) \<leftarrow> allocpid s;
         let s = upd_proc p (\<lambda>q. q\<lparr>p_pid := pid, p_state := USED\<rparr>) s;
         (tf, s) \<leftarrow> kalloc s;
         let s = upd_proc p (p_trapframe_update (\<lambda>_. tf)) s;
         if tf = 0 then do {
           s \<leftarrow> freeproc p s;
           s \<leftarrow> release (ProcLock p) s;
           Some (None, s)
         } else do {
           (pt, s) \<leftarrow> proc_pagetable p s;
           let s = upd_proc p (p_pagetable_update (\<lambda>_. pt)) s;
           if pt = 0 then do {
             s \<leftarrow> freeproc p s;
             s \<leftarrow> release (ProcLock p) s;
             Some (None, s)
           } else
             Some (Some p, upd_proc p (\<lambda>q. q\<lparr>p_context :=
               \<lparr>ctx_ra = forkret_pc s, ctx_sp = p_kstack q + PGSIZE, ctx_s = (\<lambda>_. 0)\<rparr>\<rparr>) s)
         }
       }
   }"

fun procinit_loop :: "nat list \<Rightarrow> 'a procs_scheme \<Rightarrow> 'a procs_scheme" where
  "procinit_loop [] s = s"
| "procinit_loop (p # ps) s =
     procinit_loop ps (upd_proc p (\<lambda>q. q\<lparr>p_state := UNUSED, p_kstack := KSTACK p\<rparr>)
       (initlock (ProcLock p) ''proc'' s))"

definition procinit :: "'a procs_scheme \<Rightarrow> 'a procs_scheme" where
  "procinit s = procinit_loop [0..<NPROC] (initlock WaitLock ''wait_lock'' (initlock PidLock ''nextpid'' s))"

text \<open>\<open>sz + n\<close> adds the sign-extended \<open>int\<close> argument to a 64-bit size.\<close>

definition growproc :: "int \<Rightarrow> 'a procs_scheme \<Rightarrow> (int \<times> 'a procs_scheme) option" where
  "growproc n s = do {
     (me, s) \<leftarrow> myproc s;
     p \<leftarrow> me;
     let sz = p_sz (proc s p);
     if n > 0 then do {
       (sz, s) \<leftarrow> uvmalloc (p_pagetable (proc s p)) sz (sz + of_int n) PTE_W s;
       if sz = 0 then Some (-1, s) else Some (0, upd_proc p (p_sz_update (\<lambda>_. sz)) s)
     } else if n < 0 then do {
       (sz, s) \<leftarrow> uvmdealloc (p_pagetable (proc s p)) sz (sz + of_int n) s;
       Some (0, upd_proc p (p_sz_update (\<lambda>_. sz)) s)
     } else Some (0, upd_proc p (p_sz_update (\<lambda>_. sz)) s)
   }"

section \<open>Wakeup, kill\<close>

fun wakeup_loop :: "nat list \<Rightarrow> chan \<Rightarrow> 'a procs_scheme \<Rightarrow> 'a procs_scheme option" where
  "wakeup_loop [] ch s = Some s"
| "wakeup_loop (p # ps) ch s = do {
     (me, s) \<leftarrow> myproc s;
     s \<leftarrow> (if Some p \<noteq> me then do {
        s \<leftarrow> acquire (ProcLock p) s;
        let s = (if p_state (proc s p) = SLEEPING \<and> p_chan (proc s p) = ch
                 then upd_proc p (p_state_update (\<lambda>_. RUNNABLE)) s else s);
        release (ProcLock p) s
      } else Some s);
     wakeup_loop ps ch s
   }"

definition wakeup :: "chan \<Rightarrow> 'a procs_scheme \<Rightarrow> 'a procs_scheme option" where
  "wakeup ch s = wakeup_loop [0..<NPROC] ch s"

fun kill_loop :: "nat list \<Rightarrow> int \<Rightarrow> 'a procs_scheme \<Rightarrow> (int \<times> 'a procs_scheme) option" where
  "kill_loop [] pid s = Some (-1, s)"
| "kill_loop (p # ps) pid s = do {
     s \<leftarrow> acquire (ProcLock p) s;
     if p_pid (proc s p) = pid then do {
       let s = upd_proc p (p_killed_update (\<lambda>_. 1)) s;
       let s = (if p_state (proc s p) = SLEEPING then upd_proc p (p_state_update (\<lambda>_. RUNNABLE)) s else s);
       s \<leftarrow> release (ProcLock p) s;
       Some (0, s)
     } else do {
       s \<leftarrow> release (ProcLock p) s;
       kill_loop ps pid s
     }
   }"

definition kill :: "int \<Rightarrow> 'a procs_scheme \<Rightarrow> (int \<times> 'a procs_scheme) option" where
  "kill pid s = kill_loop [0..<NPROC] pid s"

definition setkilled :: "nat \<Rightarrow> 'a procs_scheme \<Rightarrow> 'a procs_scheme option" where
  "setkilled p s = do {
     s \<leftarrow> acquire (ProcLock p) s;
     let s = upd_proc p (p_killed_update (\<lambda>_. 1)) s;
     release (ProcLock p) s
   }"

definition killed :: "nat \<Rightarrow> 'a procs_scheme \<Rightarrow> (int \<times> 'a procs_scheme) option" where
  "killed p s = do {
     s \<leftarrow> acquire (ProcLock p) s;
     let k = p_killed (proc s p);
     s \<leftarrow> release (ProcLock p) s;
     Some (k, s)
   }"

definition proc_chan :: "nat option \<Rightarrow> chan" where
  "proc_chan p = (case p of None \<Rightarrow> NullChan | Some i \<Rightarrow> ProcChan i)"

fun reparent_loop :: "nat list \<Rightarrow> nat \<Rightarrow> 'a procs_scheme \<Rightarrow> 'a procs_scheme option" where
  "reparent_loop [] p s = Some s"
| "reparent_loop (pp # ps) p s =
     (if p_parent (proc s pp) = Some p then do {
        let s = upd_proc pp (p_parent_update (\<lambda>_. initproc s)) s;
        s \<leftarrow> wakeup (proc_chan (initproc s)) s;
        reparent_loop ps p s
      } else reparent_loop ps p s)"

definition reparent :: "nat \<Rightarrow> 'a procs_scheme \<Rightarrow> 'a procs_scheme option" where
  "reparent p s = reparent_loop [0..<NPROC] p s"

section \<open>Switching between threads\<close>

text \<open>\<open>sched\<close> up to the call of \<open>swtch\<close>: the saved \<open>intena\<close> stays on the kernel stack.\<close>

definition sched_out :: "'a procs_scheme \<Rightarrow> (bool \<times> 'a procs_scheme) option" where
  "sched_out s = do {
     (me, s) \<leftarrow> myproc s;
     p \<leftarrow> me;
     panic_if (\<not> holding (ProcLock p) s) ''sched p->lock'';
     panic_if (noff (mycpu s) \<noteq> 1) ''sched locks'';
     panic_if (p_state (proc s p) = RUNNING) ''sched running'';
     panic_if (intr_get s) ''sched interruptible'';
     Some (intena (mycpu s), s)
   }"

definition sched_in :: "bool \<Rightarrow> 'a procs_scheme \<Rightarrow> 'a procs_scheme" where
  "sched_in ie s = set_mycpu ((mycpu s)\<lparr>intena := ie\<rparr>) s"

text \<open>The body of the scheduler's loop for slot \<open>p\<close>, before and after the switch.\<close>

definition scheduler_pick :: "nat \<Rightarrow> 'a procs_scheme \<Rightarrow> (bool \<times> 'a procs_scheme) option" where
  "scheduler_pick p s = do {
     s \<leftarrow> acquire (ProcLock p) s;
     if p_state (proc s p) = RUNNABLE then do {
       let s = upd_proc p (p_state_update (\<lambda>_. RUNNING)) s;
       Some (True, s\<lparr>cpu_proc := (cpu_proc s)(hart s := Some p)\<rparr>)
     } else do {
       s \<leftarrow> release (ProcLock p) s;
       Some (False, s)
     }
   }"

definition scheduler_back :: "nat \<Rightarrow> 'a procs_scheme \<Rightarrow> 'a procs_scheme option" where
  "scheduler_back p s = do {
     let s = s\<lparr>cpu_proc := (cpu_proc s)(hart s := None)\<rparr>;
     release (ProcLock p) s
   }"

text \<open>
  One iteration of the scheduler's endless loop. \<open>run p s\<close> is what happens between the switch to
  process \<open>p\<close> and the switch back. The scan also collects the slots it switched to; the second
  component is \<open>not_runnable_count\<close>, and the round ends in \<open>wfi\<close> when it is \<open>NPROC\<close>.
\<close>

fun scheduler_scan :: "(nat \<Rightarrow> 'a procs_scheme \<Rightarrow> 'a procs_scheme option) \<Rightarrow> nat list \<Rightarrow> nat \<Rightarrow>
    'a procs_scheme \<Rightarrow> (nat list \<times> nat \<times> 'a procs_scheme) option" where
  "scheduler_scan run [] n s = Some ([], n, s)"
| "scheduler_scan run (p # ps) n s = do {
     (b, s) \<leftarrow> scheduler_pick p s;
     if b then do {
       s \<leftarrow> run p s;
       s \<leftarrow> scheduler_back p s;
       (ran, n, s) \<leftarrow> scheduler_scan run ps n s;
       Some (p # ran, n, s)
     } else scheduler_scan run ps (n + 1) s
   }"

definition scheduler_round :: "(nat \<Rightarrow> 'a procs_scheme \<Rightarrow> 'a procs_scheme option) \<Rightarrow>
    'a procs_scheme \<Rightarrow> (nat list \<times> bool \<times> 'a procs_scheme) option" where
  "scheduler_round run s = do {
     let s = intr_on s;
     (ran, n, s) \<leftarrow> scheduler_scan run [0..<NPROC] 0 s;
     Some (ran, n = NPROC, s)
   }"

definition yield_out :: "'a procs_scheme \<Rightarrow> (bool \<times> 'a procs_scheme) option" where
  "yield_out s = do {
     (me, s) \<leftarrow> myproc s;
     p \<leftarrow> me;
     s \<leftarrow> acquire (ProcLock p) s;
     let s = upd_proc p (p_state_update (\<lambda>_. RUNNABLE)) s;
     sched_out s
   }"

definition yield_in :: "nat \<Rightarrow> bool \<Rightarrow> 'a procs_scheme \<Rightarrow> 'a procs_scheme option" where
  "yield_in p ie s = release (ProcLock p) (sched_in ie s)"

definition sleep_out :: "chan \<Rightarrow> lock_id \<Rightarrow> 'a procs_scheme \<Rightarrow> (bool \<times> 'a procs_scheme) option" where
  "sleep_out ch lk s = do {
     (me, s) \<leftarrow> myproc s;
     p \<leftarrow> me;
     s \<leftarrow> acquire (ProcLock p) s;
     s \<leftarrow> release lk s;
     let s = upd_proc p (\<lambda>q. q\<lparr>p_chan := ch, p_state := SLEEPING\<rparr>) s;
     sched_out s
   }"

definition sleep_in :: "nat \<Rightarrow> bool \<Rightarrow> lock_id \<Rightarrow> 'a procs_scheme \<Rightarrow> 'a procs_scheme option" where
  "sleep_in p ie lk s = do {
     let s = sched_in ie s;
     let s = upd_proc p (p_chan_update (\<lambda>_. NullChan)) s;
     s \<leftarrow> release (ProcLock p) s;
     acquire lk s
   }"

section \<open>Sleep locks (sleeplock.c)\<close>

definition upd_slk :: "sleeplock_id \<Rightarrow> (sleeplock \<Rightarrow> sleeplock) \<Rightarrow> 'a procs_scheme \<Rightarrow> 'a procs_scheme" where
  "upd_slk i f s = s\<lparr>slk := (slk s)(i := f (slk s i))\<rparr>"

definition initsleeplock :: "sleeplock_id \<Rightarrow> string \<Rightarrow> 'a procs_scheme \<Rightarrow> 'a procs_scheme" where
  "initsleeplock i nm s =
     upd_slk i (\<lambda>_. \<lparr>sl_locked = False, sl_name = nm, sl_pid = 0\<rparr>) (initlock (SleepLk i) ''sleep lock'' s)"

text \<open>
  \<open>acquiresleep\<close> is \<open>None\<close> when the lock is taken: the caller sleeps, and the call returns only
  after another process has released the lock.
\<close>

definition acquiresleep :: "sleeplock_id \<Rightarrow> 'a procs_scheme \<Rightarrow> 'a procs_scheme option" where
  "acquiresleep i s = do {
     s \<leftarrow> acquire (SleepLk i) s;
     if sl_locked (slk s i) then None
     else do {
       let s = upd_slk i (sl_locked_update (\<lambda>_. True)) s;
       (me, s) \<leftarrow> myproc s;
       p \<leftarrow> me;
       let s = upd_slk i (sl_pid_update (\<lambda>_. p_pid (proc s p))) s;
       release (SleepLk i) s
     }
   }"

definition releasesleep :: "sleeplock_id \<Rightarrow> 'a procs_scheme \<Rightarrow> 'a procs_scheme option" where
  "releasesleep i s = do {
     s \<leftarrow> acquire (SleepLk i) s;
     let s = upd_slk i (\<lambda>l. l\<lparr>sl_locked := False, sl_pid := 0\<rparr>) s;
     s \<leftarrow> wakeup (SleepChan i) s;
     release (SleepLk i) s
   }"

definition holdingsleep :: "sleeplock_id \<Rightarrow> 'a procs_scheme \<Rightarrow> (bool \<times> 'a procs_scheme) option" where
  "holdingsleep i s = do {
     s \<leftarrow> acquire (SleepLk i) s;
     (r, s) \<leftarrow> (if sl_locked (slk s i) then do {
         (me, s) \<leftarrow> myproc s;
         p \<leftarrow> me;
         Some (sl_pid (slk s i) = p_pid (proc s p), s)
       } else Some (False, s));
     s \<leftarrow> release (SleepLk i) s;
     Some (r, s)
   }"

section \<open>Copies to user or kernel memory\<close>

text \<open>
  \<open>either_copyout\<close> and \<open>either_copyin\<close>. A user address goes through the page table of the current
  process. For a kernel object the bytes are handed over as they are: the caller of
  \<open>either_copyout\<close> collects them, and the object's bytes are the argument of \<open>either_copyin\<close>.
\<close>

datatype usrc = UserSrc uint64 | KernSrc "uchar list"

definition either_copyout :: "bool \<Rightarrow> uint64 \<Rightarrow> uchar list \<Rightarrow> 'a procs_scheme \<Rightarrow> (int \<times> 'a procs_scheme) option" where
  "either_copyout user_dst dst src s = do {
     (me, s) \<leftarrow> myproc s;
     if user_dst then do { p \<leftarrow> me; copyout (p_pagetable (proc s p)) dst src s }
     else Some (0, s)
   }"

definition either_copyin :: "usrc \<Rightarrow> nat \<Rightarrow> nat \<Rightarrow> 'a procs_scheme \<Rightarrow> (int \<times> uchar list \<times> 'a procs_scheme) option" where
  "either_copyin src off len s = do {
     (me, s) \<leftarrow> myproc s;
     case src of
       UserSrc a \<Rightarrow> do {
         p \<leftarrow> me;
         (r, bs) \<leftarrow> copyin (p_pagetable (proc s p)) (a + of_nat off) len s;
         Some (r, bs, s)
       }
     | KernSrc bs \<Rightarrow> Some (0, take len (drop off bs), s)
   }"

section \<open>Frame rules of this layer\<close>

lemma proc_frame [simp]:
  "release lk (proc_update f s) = map_option (proc_update f) (release lk s)"
  "acquired lk (proc_update f s) = proc_update f (acquired lk s)"
  "settle (proc_update f s) = proc_update f (settle s)" "push_off (proc_update f s) = proc_update f (push_off s)"
  "free lk (proc_update f s) = free lk s" "cpu_ok (proc_update f s) = cpu_ok s"
  "proc (acquired lk s) = proc s" "proc (settle s) = proc s" "proc (push_off s) = proc s"
  "mycpu (proc_update f s) = mycpu s" "holding lk (proc_update f s) = holding lk s"
  by (simp_all add: lock_forms)

lemma cpu_proc_frame [simp]:
  "release lk (cpu_proc_update f s) = map_option (cpu_proc_update f) (release lk s)"
  "acquired lk (cpu_proc_update f s) = cpu_proc_update f (acquired lk s)"
  "settle (cpu_proc_update f s) = cpu_proc_update f (settle s)" "push_off (cpu_proc_update f s) = cpu_proc_update f (push_off s)"
  "free lk (cpu_proc_update f s) = free lk s" "cpu_ok (cpu_proc_update f s) = cpu_ok s"
  "cpu_proc (acquired lk s) = cpu_proc s" "cpu_proc (settle s) = cpu_proc s" "cpu_proc (push_off s) = cpu_proc s"
  "mycpu (cpu_proc_update f s) = mycpu s" "holding lk (cpu_proc_update f s) = holding lk s"
  by (simp_all add: lock_forms)

lemma nextpid_frame [simp]:
  "release lk (nextpid_update f s) = map_option (nextpid_update f) (release lk s)"
  "acquired lk (nextpid_update f s) = nextpid_update f (acquired lk s)"
  "settle (nextpid_update f s) = nextpid_update f (settle s)" "push_off (nextpid_update f s) = nextpid_update f (push_off s)"
  "free lk (nextpid_update f s) = free lk s" "cpu_ok (nextpid_update f s) = cpu_ok s"
  "nextpid (acquired lk s) = nextpid s" "nextpid (settle s) = nextpid s" "nextpid (push_off s) = nextpid s"
  "mycpu (nextpid_update f s) = mycpu s" "holding lk (nextpid_update f s) = holding lk s"
  by (simp_all add: lock_forms)

lemma initproc_frame [simp]:
  "release lk (initproc_update f s) = map_option (initproc_update f) (release lk s)"
  "acquired lk (initproc_update f s) = initproc_update f (acquired lk s)"
  "settle (initproc_update f s) = initproc_update f (settle s)" "push_off (initproc_update f s) = initproc_update f (push_off s)"
  "free lk (initproc_update f s) = free lk s" "cpu_ok (initproc_update f s) = cpu_ok s"
  "initproc (acquired lk s) = initproc s" "initproc (settle s) = initproc s" "initproc (push_off s) = initproc s"
  "mycpu (initproc_update f s) = mycpu s" "holding lk (initproc_update f s) = holding lk s"
  by (simp_all add: lock_forms)

lemma ticks_frame [simp]:
  "release lk (ticks_update f s) = map_option (ticks_update f) (release lk s)"
  "acquired lk (ticks_update f s) = ticks_update f (acquired lk s)"
  "settle (ticks_update f s) = ticks_update f (settle s)" "push_off (ticks_update f s) = ticks_update f (push_off s)"
  "free lk (ticks_update f s) = free lk s" "cpu_ok (ticks_update f s) = cpu_ok s"
  "ticks (acquired lk s) = ticks s" "ticks (settle s) = ticks s" "ticks (push_off s) = ticks s"
  "mycpu (ticks_update f s) = mycpu s" "holding lk (ticks_update f s) = holding lk s"
  by (simp_all add: lock_forms)

lemma slk_frame [simp]:
  "release lk (slk_update f s) = map_option (slk_update f) (release lk s)"
  "acquired lk (slk_update f s) = slk_update f (acquired lk s)"
  "settle (slk_update f s) = slk_update f (settle s)" "push_off (slk_update f s) = slk_update f (push_off s)"
  "free lk (slk_update f s) = free lk s" "cpu_ok (slk_update f s) = cpu_ok s"
  "slk (acquired lk s) = slk s" "slk (settle s) = slk s" "slk (push_off s) = slk s"
  "mycpu (slk_update f s) = mycpu s" "holding lk (slk_update f s) = holding lk s"
  by (simp_all add: lock_forms)

lemma sym_frame [simp]:
  "trampoline (settle s) = trampoline s" "forkret_pc (settle s) = forkret_pc s"
  "trampoline (acquired lk s) = trampoline s" "forkret_pc (acquired lk s) = forkret_pc s"
  by (simp_all add: lock_forms)

lemma myproc_eq [simp]: "cpu_ok s \<Longrightarrow> myproc s = Some (cpu_proc s (hart s), settle s)"
  by (simp add: myproc_def pop_off_push Let_def)

section \<open>What the operations do\<close>

text \<open>The process table after a wakeup on \<open>ch\<close> that looks at the slots \<open>ps\<close> other than \<open>me\<close>.\<close>

definition woken :: "nat set \<Rightarrow> nat option \<Rightarrow> chan \<Rightarrow> (nat \<Rightarrow> proc) \<Rightarrow> nat \<Rightarrow> proc" where
  "woken ps me ch pr p =
     (if p \<in> ps \<and> Some p \<noteq> me \<and> p_state (pr p) = SLEEPING \<and> p_chan (pr p) = ch
      then (pr p)\<lparr>p_state := RUNNABLE\<rparr> else pr p)"

definition others_free :: "'a procs_scheme \<Rightarrow> bool" where
  "others_free s \<longleftrightarrow> (\<forall>p<NPROC. Some p \<noteq> cpu_proc s (hart s) \<longrightarrow> free (ProcLock p) s)"

lemma hart_procs [simp]:
  "hart (proc_update f s) = hart s" "hart (settle s) = hart s"
  by simp_all

lemma settle_proc_id [simp]: "(settle s)\<lparr>proc := proc s\<rparr> = settle s"
  by (simp add: settle_form)

lemma wakeup_loop_eq:
  assumes "cpu_ok s" "distinct ps" "\<forall>p\<in>set ps. Some p \<noteq> cpu_proc s (hart s) \<longrightarrow> free (ProcLock p) s"
  shows "wakeup_loop ps ch s =
    Some ((if ps = [] then s else settle s)\<lparr>proc := woken (set ps) (cpu_proc s (hart s)) ch (proc s)\<rparr>)"
  using assms
proof (induction ps arbitrary: s)
  case Nil
  have "woken (set []) (cpu_proc s (hart s)) ch (proc s) = proc s" by (simp add: woken_def fun_eq_iff)
  then show ?case by simp
next
  case (Cons p ps)
  define t where "t = (settle s)\<lparr>proc := woken {p} (cpu_proc s (hart s)) ch (proc s)\<rparr>"
  have step: "wakeup_loop (p # ps) ch s = wakeup_loop ps ch t"
  proof (cases "Some p = cpu_proc s (hart s)")
    case True
    then have "woken {p} (cpu_proc s (hart s)) ch (proc s) = proc s" by (auto simp: woken_def fun_eq_iff)
    then have "t = settle s" by (simp add: t_def)
    then show ?thesis using Cons.prems(1) True by simp
  next
    case False
    have w: "woken {p} (cpu_proc s (hart s)) ch (proc s) =
        (if p_state (proc s p) = SLEEPING \<and> p_chan (proc s p) = ch
         then (proc s)(p := (proc s p)\<lparr>p_state := RUNNABLE\<rparr>) else proc s)"
      using False by (auto simp: woken_def fun_eq_iff)
    show ?thesis using Cons.prems(1,3) False by (simp add: t_def w upd_proc_def Let_def)
  qed
  have "wakeup_loop ps ch t = Some ((if ps = [] then t else settle t)\<lparr>proc :=
      woken (set ps) (cpu_proc t (hart t)) ch (proc t)\<rparr>)"
    using Cons.prems by (intro Cons.IH) (auto simp: t_def)
  moreover have "woken (set ps) me ch (woken {p} me ch pr) = woken (set (p # ps)) me ch pr" for me pr
    by (auto simp: woken_def fun_eq_iff)
  ultimately show ?case unfolding step by (simp add: t_def)
qed

lemma wakeup_eq:
  assumes "cpu_ok s" "others_free s"
  shows "wakeup ch s = Some ((settle s)\<lparr>proc := woken {..<NPROC} (cpu_proc s (hart s)) ch (proc s)\<rparr>)"
  using assms wakeup_loop_eq [of s "[0..<NPROC]" ch]
  by (simp add: wakeup_def others_free_def atLeast0LessThan NPROC_def)

lemma killed_eq [simp]:
  "cpu_ok s \<Longrightarrow> free (ProcLock p) s \<Longrightarrow> killed p s = Some (p_killed (proc s p), settle s)"
  by (simp add: killed_def)

lemma setkilled_eq [simp]:
  "cpu_ok s \<Longrightarrow> free (ProcLock p) s \<Longrightarrow>
   setkilled p s = Some (upd_proc p (p_killed_update (\<lambda>_. 1)) (settle s))"
  by (simp add: setkilled_def upd_proc_def)

lemma allocpid_eq [simp]:
  "cpu_ok s \<Longrightarrow> free PidLock s \<Longrightarrow> allocpid s = Some (nextpid s, (settle s)\<lparr>nextpid := nextpid s + 1\<rparr>)"
  by (simp add: allocpid_def)

text \<open>Searching the table, slot by slot, under the slot's lock.\<close>

lemma kill_loop_eq:
  assumes "cpu_ok s" "\<forall>p\<in>set ps. free (ProcLock p) s"
  shows "kill_loop ps pid s =
    (case find (\<lambda>p. p_pid (proc s p) = pid) ps of
       None \<Rightarrow> Some (-1, if ps = [] then s else settle s)
     | Some p \<Rightarrow> Some (0, upd_proc p (\<lambda>q. q\<lparr>p_killed := 1,
         p_state := (if p_state q = SLEEPING then RUNNABLE else p_state q)\<rparr>) (settle s)))"
  using assms
proof (induction ps arbitrary: s)
  case Nil
  then show ?case by simp
next
  case (Cons p ps)
  then show ?case by (auto simp: upd_proc_def Let_def split: option.split)
qed

lemma kill_eq:
  assumes "cpu_ok s" "\<forall>p<NPROC. free (ProcLock p) s"
  shows "kill pid s =
    (case find (\<lambda>p. p_pid (proc s p) = pid) [0..<NPROC] of
       None \<Rightarrow> Some (-1, settle s)
     | Some p \<Rightarrow> Some (0, upd_proc p (\<lambda>q. q\<lparr>p_killed := 1,
         p_state := (if p_state q = SLEEPING then RUNNABLE else p_state q)\<rparr>) (settle s)))"
  using assms kill_loop_eq [of s "[0..<NPROC]" pid] by (simp add: kill_def NPROC_def)

lemma allocproc_find_eq:
  assumes "cpu_ok s" "\<forall>p\<in>set ps. free (ProcLock p) s"
  shows "allocproc_find ps s =
    (case find (\<lambda>p. p_state (proc s p) = UNUSED) ps of
       None \<Rightarrow> Some (None, if ps = [] then s else settle s)
     | Some p \<Rightarrow> Some (Some p, acquired (ProcLock p) s))"
  using assms
proof (induction ps arbitrary: s)
  case Nil
  then show ?case by simp
next
  case (Cons p ps)
  show ?case
  proof (cases "p_state (proc s p) = UNUSED")
    case True
    then show ?thesis using Cons.prems by simp
  next
    case False
    then have "allocproc_find (p # ps) s = allocproc_find ps (settle s)" using Cons.prems by simp
    then show ?thesis using Cons False by (auto split: option.split)
  qed
qed

section \<open>Going to sleep is atomic with respect to wakeup\<close>

lemma release_fields:
  assumes "release lk s = Some t"
  shows "proc t = proc s" "cpu_proc t = cpu_proc s" "hart t = hart s" "nextpid t = nextpid s"
    "spin t = (spin s)(lk := (spin s lk)\<lparr>lcpu := None, locked := False\<rparr>)"
  using assms by (auto simp: release_form split: if_splits)

lemma acquire_fields:
  assumes "acquire lk s = Some t"
  shows "proc t = proc s" "cpu_proc t = cpu_proc s" "hart t = hart s" "nextpid t = nextpid s"
    "spin t = (spin s)(lk := (spin s lk)\<lparr>locked := True, lcpu := Some (hart s)\<rparr>)" "\<not> locked (spin s lk)"
  using assms by (auto simp: acquire_Some_iff acquired_form)

lemma pop_off_form:
  "pop_off s = (if sie (cpus s (hart s)) \<or> noff (cpus s (hart s)) < 1 then None
     else Some (s\<lparr>cpus := (cpus s)(hart s := rel_cpu (cpus s (hart s)))\<rparr>))"
  by (auto simp: pop_off_def rel_cpu_def intr_get_def intr_on_def mycpu_def set_mycpu_def Let_def)

lemma myproc_fields:
  assumes "myproc s = Some (me, t)"
  shows "proc t = proc s" "cpu_proc t = cpu_proc s" "hart t = hart s" "spin t = spin s"
    "nextpid t = nextpid s" "me = cpu_proc s (hart s)"
  using assms by (auto simp: myproc_def pop_off_form push_off_form Let_def split: if_splits)

text \<open>While some process's lock is held, no wakeup by another process gets past it.\<close>

lemma wakeup_loop_blocked:
  assumes "p \<in> set ps" "locked (spin s (ProcLock p))" "cpu_proc s (hart s) \<noteq> Some p"
  shows "wakeup_loop ps ch s = None"
  using assms
proof (induction ps arbitrary: s)
  case Nil
  then show ?case by simp
next
  case (Cons q ps)
  show ?case
  proof (cases "wakeup_loop (q # ps) ch s")
    case None
    then show ?thesis .
  next
    case (Some u)
    then obtain me t where me: "myproc s = Some (me, t)" by (auto simp: bind_eq_Some_conv)
    note mf = myproc_fields [OF me]
    show ?thesis
    proof (cases "Some q = me")
      case True
      then have "q \<noteq> p" using mf Cons.prems(3) by auto
      then have "wakeup_loop ps ch t = None" using Cons.prems mf by (intro Cons.IH) auto
      then show ?thesis using me True by simp
    next
      case False
      show ?thesis
      proof (cases "acquire (ProcLock q) t")
        case None
        then show ?thesis using me False by simp
      next
        case (Some a)
        note af = acquire_fields [OF Some]
        have qp: "q \<noteq> p" using af(6) mf Cons.prems(2) by auto
        define b where "b = (if p_state (proc a q) = SLEEPING \<and> p_chan (proc a q) = ch
          then upd_proc q (p_state_update (\<lambda>_. RUNNABLE)) a else a)"
        have b: "spin b = spin a" "cpu_proc b = cpu_proc a" "hart b = hart a"
          by (auto simp: b_def upd_proc_def)
        have "wakeup_loop ps ch c = None" if "release (ProcLock q) b = Some c" for c
          using release_fields [OF that] af mf b qp Cons.prems by (intro Cons.IH) auto
        then have "release (ProcLock q) b \<bind> wakeup_loop ps ch = None"
          by (cases "release (ProcLock q) b") auto
        then show ?thesis using me False Some by (simp add: b_def)
      qed
    qed
  qed
qed

text \<open>\<open>running p lk s\<close>: process \<open>p\<close> runs on the current hart and holds the one lock \<open>lk\<close>.\<close>

definition running :: "nat \<Rightarrow> lock_id \<Rightarrow> 'a procs_scheme \<Rightarrow> bool" where
  "running p lk s \<longleftrightarrow> p < NPROC \<and> cpu_proc s (hart s) = Some p \<and> holding lk s \<and> lk \<noteq> ProcLock p \<and>
     free (ProcLock p) s \<and> noff (mycpu s) = 1 \<and> \<not> sie (mycpu s)"

lemma sleep_steps:
  assumes "running p lk s"
  defines "t \<equiv> s\<lparr>spin := (spin s)(lk := (spin s lk)\<lparr>lcpu := None, locked := False\<rparr>,
      ProcLock p := (spin s (ProcLock p))\<lparr>locked := True, lcpu := Some (hart s)\<rparr>)\<rparr>"
  shows "do { s \<leftarrow> acquire (ProcLock p) s; release lk s } = Some t"
    and "sleep_out ch lk s = Some (intena (mycpu s), upd_proc p (\<lambda>q. q\<lparr>p_chan := ch, p_state := SLEEPING\<rparr>) t)"
    and "\<exists>u. scheduler_back p (upd_proc p (\<lambda>q. q\<lparr>p_chan := ch, p_state := SLEEPING\<rparr>) t) = Some u \<and>
      proc u = (proc s)(p := (proc s p)\<lparr>p_chan := ch, p_state := SLEEPING\<rparr>) \<and>
      cpu_proc u = (cpu_proc s)(hart s := None) \<and> \<not> locked (spin u lk) \<and> free (ProcLock p) u"
proof -
  have r: "p < NPROC" "cpu_proc s (hart s) = Some p" "locked (spin s lk)" "lcpu (spin s lk) = Some (hart s)"
    "lk \<noteq> ProcLock p" "\<not> locked (spin s (ProcLock p))" "noff (cpus s (hart s)) = 1" "\<not> sie (cpus s (hart s))"
    using assms(1) by (auto simp: running_def holding_def free_def mycpu_def)
  define c where "c = cpus s (hart s)"
  have c: "push_cpu c = c\<lparr>noff := 2\<rparr>" "rel_cpu (c\<lparr>noff := 2\<rparr>) = c"
    using r(7,8) by (cases c; simp add: c_def push_cpu_def rel_cpu_def)+
  have cc: "(cpus s)(hart s := c) = cpus s" by (simp add: c_def)
  show acq: "do { s \<leftarrow> acquire (ProcLock p) s; release lk s } = Some t"
    using r c cc by (simp add: acquire_Some_iff [THEN iffD2] free_def acquire_def holding_def push_off_form
        release_form rel_ok_def acquired_form c_def [symmetric] t_def fun_upd_twist Let_def)
  show "sleep_out ch lk s = Some (intena (mycpu s), upd_proc p (\<lambda>q. q\<lparr>p_chan := ch, p_state := SLEEPING\<rparr>) t)"
  proof -
    define v where "v = upd_proc p (\<lambda>q. q\<lparr>p_chan := ch, p_state := SLEEPING\<rparr>) t"
    have v: "cpus v = cpus s" "hart v = hart s" "cpu_proc v = cpu_proc s" "holding (ProcLock p) v"
      "p_state (proc v p) = SLEEPING"
      by (simp_all add: v_def t_def upd_proc_def holding_def)
    have mp: "myproc w = Some (Some p, w)" if "cpus w = cpus s" "hart w = hart s" "cpu_proc w = cpu_proc s" for w :: "'a procs_scheme"
      using that r c cc by (simp add: myproc_def push_off_form pop_off_form c_def [symmetric] Let_def)
    have "sched_out v = Some (intena (mycpu s), v)"
      using v r mp [OF v(1-3)] by (simp add: sched_out_def mycpu_def intr_get_def)
    with acq show ?thesis
      using mp [of s] by (cases "acquire (ProcLock p) s") (simp_all add: sleep_out_def v_def Let_def)
  qed
  show "\<exists>u. scheduler_back p (upd_proc p (\<lambda>q. q\<lparr>p_chan := ch, p_state := SLEEPING\<rparr>) t) = Some u \<and>
      proc u = (proc s)(p := (proc s p)\<lparr>p_chan := ch, p_state := SLEEPING\<rparr>) \<and>
      cpu_proc u = (cpu_proc s)(hart s := None) \<and> \<not> locked (spin u lk) \<and> free (ProcLock p) u"
    using r by (simp add: scheduler_back_def release_form rel_ok_def t_def upd_proc_def Let_def free_def)
qed


section \<open>A concrete process table\<close>

text \<open>
  Two processes above the address space of the sample: process 0 (pid 1) runs on hart 0, process 1
  (pid 2) sleeps on its own channel; the other slots are unused. No lock is held.
\<close>

definition idle_proc :: proc where
  "idle_proc = \<lparr>p_state = UNUSED, p_chan = NullChan, p_killed = 0, p_xstate = 0, p_pid = 0, p_parent = None,
     p_kstack = 0, p_sz = 0, p_pagetable = 0, p_trapframe = 0,
     p_context = \<lparr>ctx_ra = 0, ctx_sp = 0, ctx_s = (\<lambda>_. 0)\<rparr>, p_ofile = (\<lambda>_. None), p_cwd = None, p_name = []\<rparr>"

definition psample_procs :: "nat \<Rightarrow> proc" where
  "psample_procs p =
     (if p = 0 then idle_proc\<lparr>p_state := RUNNING, p_pid := 1, p_sz := 4096, p_pagetable := 0x80100000\<rparr>
      else if p = 1 then idle_proc\<lparr>p_state := SLEEPING, p_chan := ProcChan 1, p_pid := 2, p_parent := Some 0\<rparr>
      else idle_proc)"

definition psample :: procs where
  "psample = \<lparr>hart = 0, cpus = (\<lambda>_. \<lparr>noff = 0, intena = False, sie = True\<rparr>),
     spin = (\<lambda>_. \<lparr>locked = False, lname = ''lock'', lcpu = None\<rparr>), phys = sample_mem,
     kend = 0x80080000, freelist = 0x80104000, proc = psample_procs, cpu_proc = [0 \<mapsto> 0], nextpid = 3,
     initproc = Some 0, ticks = 0, slk = (\<lambda>_. \<lparr>sl_locked = False, sl_name = ''sleep'', sl_pid = 0\<rparr>),
     trampoline = 0x80007000, forkret_pc = 0x80001000\<rparr>"

lemma psample_fields [simp]:
  "hart psample = 0" "cpu_ok psample" "free lk psample" "proc psample = psample_procs"
  "cpu_proc psample = [0 \<mapsto> 0]" "sl_locked (slk psample i) = False"
  by (simp_all add: psample_def cpu_ok_def free_def mycpu_def)


text \<open>
  C25. wakeup(chan) makes exactly the processes runnable that sleep on chan, except the caller: with
  the other processes' locks free the call returns, every slot of the table that was SLEEPING on
  chan is RUNNABLE, and nothing else of any process changes.
\<close>

theorem wakeup_exact:
  assumes "cpu_ok s" "others_free s"
  shows "\<exists>s'. wakeup ch s = Some s' \<and> cpu_proc s' = cpu_proc s \<and> spin s' = spin s \<and>
    (\<forall>p. proc s' p = (if p < NPROC \<and> cpu_proc s (hart s) \<noteq> Some p \<and>
        p_state (proc s p) = SLEEPING \<and> p_chan (proc s p) = ch
      then (proc s p)\<lparr>p_state := RUNNABLE\<rparr> else proc s p))"
  using wakeup_eq [OF assms, of ch] by (auto simp: woken_def)

theorem wakeup_exact_witness:
  "\<exists>s'. wakeup (ProcChan 1) psample = Some s' \<and> p_state (proc s' 1) = RUNNABLE \<and> proc s' 0 = proc psample 0"
proof -
  have "others_free psample" by (simp add: others_free_def)
  then obtain s' where s': "wakeup (ProcChan 1) psample = Some s'"
    "\<forall>p. proc s' p = (if p < NPROC \<and> cpu_proc psample (hart psample) \<noteq> Some p \<and>
        p_state (proc psample p) = SLEEPING \<and> p_chan (proc psample p) = ProcChan 1
      then (proc psample p)\<lparr>p_state := RUNNABLE\<rparr> else proc psample p)"
    using wakeup_exact [of psample "ProcChan 1"] by auto
  from s'(2) [rule_format, of 0] s'(2) [rule_format, of 1] s'(1) show ?thesis
    by (simp add: psample_procs_def idle_proc_def NPROC_def)
qed

text \<open>
  C26. kill(pid) returns 0 and sets the killed flag of the first process with that pid, waking it if
  it sleeps, and changes no other process; it returns -1 and changes no process when no slot has
  the pid.
\<close>

theorem kill_exact:
  assumes "cpu_ok s" "\<forall>p<NPROC. free (ProcLock p) s"
  shows "\<exists>r s'. kill pid s = Some (r, s') \<and> cpu_proc s' = cpu_proc s \<and> spin s' = spin s \<and>
    (if \<exists>p<NPROC. p_pid (proc s p) = pid
     then r = 0 \<and> (\<exists>p<NPROC. p_pid (proc s p) = pid \<and> (\<forall>q<p. p_pid (proc s q) \<noteq> pid) \<and>
       proc s' = (proc s)(p := (proc s p)\<lparr>p_killed := 1,
         p_state := (if p_state (proc s p) = SLEEPING then RUNNABLE else p_state (proc s p))\<rparr>))
     else r = -1 \<and> proc s' = proc s)"
proof (cases "find (\<lambda>p. p_pid (proc s p) = pid) [0..<NPROC]")
  case None
  then have "\<not> (\<exists>p<NPROC. p_pid (proc s p) = pid)" by (simp add: find_None_iff)
  with None show ?thesis using kill_eq [OF assms, of pid] by simp
next
  case (Some p)
  then have p: "p < NPROC" "p_pid (proc s p) = pid" "\<forall>q<p. p_pid (proc s q) \<noteq> pid"
    by (auto simp: find_Some_iff)
  then have "\<exists>p<NPROC. p_pid (proc s p) = pid" by blast
  then show ?thesis using kill_eq [OF assms, of pid] Some p by (auto simp: upd_proc_def intro!: exI [of _ p])
qed

theorem kill_exact_witness:
  "\<exists>s'. kill 2 psample = Some (0, s') \<and> p_killed (proc s' 1) = 1 \<and> p_state (proc s' 1) = RUNNABLE"
proof -
  have ex: "\<exists>p<NPROC. p_pid (proc psample p) = 2" "\<And>p. p_pid (proc psample p) = 2 \<Longrightarrow> p = 1"
    by (auto intro!: exI [of _ 1] simp: psample_procs_def idle_proc_def NPROC_def split: if_splits)
  then obtain s' p where "kill 2 psample = Some (0, s')" "p = 1"
    "proc s' = (proc psample)(p := (proc psample p)\<lparr>p_killed := 1,
       p_state := (if p_state (proc psample p) = SLEEPING then RUNNABLE else p_state (proc psample p))\<rparr>)"
    using kill_exact [of psample 2] by auto
  then show ?thesis by (simp add: psample_procs_def idle_proc_def)
qed

section \<open>Scheduling: a process runs on one hart at a time\<close>

text \<open>
  The moves of the harts: the scheduler looks at a slot, the switched-to process comes back out of
  \<open>yield\<close> or \<open>sleep\<close>, the running process yields or goes to sleep (and the scheduler of its hart
  takes over), or somebody calls \<open>wakeup\<close> or \<open>kill\<close>.
\<close>

inductive sched_step :: "'a procs_scheme \<Rightarrow> 'a procs_scheme \<Rightarrow> bool" where
  pick: "cpu_proc s h = None \<Longrightarrow> p < NPROC \<Longrightarrow> scheduler_pick p (s\<lparr>hart := h\<rparr>) = Some (b, s') \<Longrightarrow> sched_step s s'"
| yield_back: "cpu_proc s h = Some p \<Longrightarrow> yield_in p ie (s\<lparr>hart := h\<rparr>) = Some s' \<Longrightarrow> sched_step s s'"
| sleep_back: "cpu_proc s h = Some p \<Longrightarrow> sleep_in p ie lk (s\<lparr>hart := h\<rparr>) = Some s' \<Longrightarrow> sched_step s s'"
| yield: "cpu_proc s h = Some p \<Longrightarrow> yield_out (s\<lparr>hart := h\<rparr>) = Some (ie, t) \<Longrightarrow>
    scheduler_back p t = Some s' \<Longrightarrow> sched_step s s'"
| sleep: "cpu_proc s h = Some p \<Longrightarrow> sleep_out ch lk (s\<lparr>hart := h\<rparr>) = Some (ie, t) \<Longrightarrow>
    scheduler_back p t = Some s' \<Longrightarrow> sched_step s s'"
| wake: "wakeup ch (s\<lparr>hart := h\<rparr>) = Some s' \<Longrightarrow> sched_step s s'"
| kill: "kill pid (s\<lparr>hart := h\<rparr>) = Some (r, s') \<Longrightarrow> sched_step s s'"

definition one_hart :: "'a procs_scheme \<Rightarrow> bool" where
  "one_hart s \<longleftrightarrow> (\<forall>h p. cpu_proc s h = Some p \<longrightarrow> p_state (proc s p) = RUNNING) \<and>
     (\<forall>h g p. cpu_proc s h = Some p \<longrightarrow> cpu_proc s g = Some p \<longrightarrow> h = g)"

text \<open>\<open>wakes pr pr'\<close>: some sleeping processes became runnable, every other state is the same.\<close>

definition wakes :: "(nat \<Rightarrow> proc) \<Rightarrow> (nat \<Rightarrow> proc) \<Rightarrow> bool" where
  "wakes pr pr' \<longleftrightarrow> (\<forall>q. p_state (pr' q) = p_state (pr q) \<or>
     p_state (pr q) = SLEEPING \<and> p_state (pr' q) = RUNNABLE)"

lemma wakes_refl [simp]: "wakes pr pr"
  by (simp add: wakes_def)

lemma wakes_trans: "wakes a b \<Longrightarrow> wakes b c \<Longrightarrow> wakes a c"
  unfolding wakes_def by (metis procstate.distinct)

lemma one_hart_wakes:
  "one_hart s \<Longrightarrow> cpu_proc s' = cpu_proc s \<Longrightarrow> wakes (proc s) (proc s') \<Longrightarrow> one_hart s'"
  unfolding one_hart_def wakes_def by (metis procstate.distinct)

lemma wakeup_loop_wakes:
  "wakeup_loop ps ch s = Some s' \<Longrightarrow> cpu_proc s' = cpu_proc s \<and> wakes (proc s) (proc s')"
proof (induction ps arbitrary: s)
  case Nil
  then show ?case by simp
next
  case (Cons p ps)
  obtain me t where me: "myproc s = Some (me, t)" using Cons.prems by (auto simp: bind_eq_Some_conv)
  note mf = myproc_fields [OF me]
  show ?case
  proof (cases "Some p = me")
    case True
    then have "wakeup_loop ps ch t = Some s'" using Cons.prems me by simp
    from Cons.IH [OF this] mf show ?thesis by simp
  next
    case False
    obtain a where a: "acquire (ProcLock p) t = Some a"
      using Cons.prems me False by (auto simp: bind_eq_Some_conv)
    define b where "b = (if p_state (proc a p) = SLEEPING \<and> p_chan (proc a p) = ch
      then upd_proc p (p_state_update (\<lambda>_. RUNNABLE)) a else a)"
    obtain c where c: "release (ProcLock p) b = Some c" "wakeup_loop ps ch c = Some s'"
      using Cons.prems me False a by (auto simp: bind_eq_Some_conv b_def Let_def)
    have "cpu_proc b = cpu_proc a" "wakes (proc a) (proc b)"
      by (auto simp: b_def upd_proc_def wakes_def)
    with Cons.IH [OF c(2)] release_fields [OF c(1)] acquire_fields [OF a] mf show ?thesis
      by (auto intro: wakes_trans)
  qed
qed

lemma kill_loop_wakes:
  "kill_loop ps pid s = Some (r, s') \<Longrightarrow> cpu_proc s' = cpu_proc s \<and> wakes (proc s) (proc s')"
proof (induction ps arbitrary: s)
  case Nil
  then show ?case by simp
next
  case (Cons p ps)
  obtain a where a: "acquire (ProcLock p) s = Some a" using Cons.prems by (auto simp: bind_eq_Some_conv)
  note af = acquire_fields [OF a]
  show ?case
  proof (cases "p_pid (proc a p) = pid")
    case True
    define b where "b = (let s = upd_proc p (p_killed_update (\<lambda>_. 1)) a in
      if p_state (proc s p) = SLEEPING then upd_proc p (p_state_update (\<lambda>_. RUNNABLE)) s else s)"
    have c: "release (ProcLock p) b = Some s'"
      using Cons.prems a True by (auto simp: bind_eq_Some_conv b_def Let_def)
    have "cpu_proc b = cpu_proc a" "wakes (proc a) (proc b)"
      by (auto simp: b_def upd_proc_def wakes_def Let_def)
    with release_fields [OF c] af show ?thesis by simp
  next
    case False
    then obtain c where "release (ProcLock p) a = Some c" "kill_loop ps pid c = Some (r, s')"
      using Cons.prems a by (auto simp: bind_eq_Some_conv)
    with Cons.IH release_fields af show ?thesis by metis
  qed
qed

lemma sched_out_fields:
  assumes "sched_out s = Some (ie, t)"
  shows "proc t = proc s" "cpu_proc t = cpu_proc s" "hart t = hart s"
  using assms myproc_fields by (auto simp: sched_out_def bind_eq_Some_conv split: if_splits)

lemma one_hart_stop:
  assumes "one_hart s" "cpu_proc s h = Some p" "cpu_proc s' = (cpu_proc s)(h := None)"
    and "\<forall>q. q \<noteq> p \<longrightarrow> proc s' q = proc s q"
  shows "one_hart s'"
  using assms unfolding one_hart_def by (auto split: if_splits) metis+

lemma yield_out_fields:
  assumes "yield_out s = Some (ie, t)" "cpu_proc s (hart s) = Some p"
  shows "\<forall>q. q \<noteq> p \<longrightarrow> proc t q = proc s q" "cpu_proc t = cpu_proc s" "hart t = hart s"
proof -
  obtain me u v w where *: "myproc s = Some (me, u)" "me = Some v" "acquire (ProcLock v) u = Some w"
    "sched_out (upd_proc v (p_state_update (\<lambda>_. RUNNABLE)) w) = Some (ie, t)"
    using assms(1) by (auto simp: yield_out_def bind_eq_Some_conv Let_def)
  note f = myproc_fields [OF *(1)] acquire_fields [OF *(3)] sched_out_fields [OF *(4)]
  have "v = p" using f(6) *(2) assms(2) by simp
  with f show "\<forall>q. q \<noteq> p \<longrightarrow> proc t q = proc s q" "cpu_proc t = cpu_proc s" "hart t = hart s"
    by (simp_all add: upd_proc_def)
qed

lemma sleep_out_fields:
  assumes "sleep_out ch lk s = Some (ie, t)" "cpu_proc s (hart s) = Some p"
  shows "\<forall>q. q \<noteq> p \<longrightarrow> proc t q = proc s q" "cpu_proc t = cpu_proc s" "hart t = hart s"
proof -
  obtain me u v w x where *: "myproc s = Some (me, u)" "me = Some v" "acquire (ProcLock v) u = Some w"
    "release lk w = Some x"
    "sched_out (upd_proc v (\<lambda>q. q\<lparr>p_chan := ch, p_state := SLEEPING\<rparr>) x) = Some (ie, t)"
    using assms(1) by (auto simp: sleep_out_def bind_eq_Some_conv Let_def)
  note f = myproc_fields [OF *(1)] acquire_fields [OF *(3)] release_fields [OF *(4)] sched_out_fields [OF *(5)]
  have "v = p" using f(6) *(2) assms(2) by simp
  with f show "\<forall>q. q \<noteq> p \<longrightarrow> proc t q = proc s q" "cpu_proc t = cpu_proc s" "hart t = hart s"
    by (simp_all add: upd_proc_def)
qed

lemma scheduler_back_fields:
  "scheduler_back p s = Some t \<Longrightarrow> proc t = proc s \<and> cpu_proc t = (cpu_proc s)(hart s := None)"
  using release_fields by (fastforce simp: scheduler_back_def Let_def)

lemma one_hart_step:
  assumes "sched_step s s'" "one_hart s"
  shows "one_hart s'"
  using assms
proof (induction rule: sched_step.induct)
  case (pick s h p b s')
  obtain a where a: "acquire (ProcLock p) (s\<lparr>hart := h\<rparr>) = Some a"
    using pick(3) by (auto simp: scheduler_pick_def bind_eq_Some_conv)
  note af = acquire_fields [OF a]
  show ?case
  proof (cases "p_state (proc a p) = RUNNABLE")
    case True
    then have "s' = (upd_proc p (p_state_update (\<lambda>_. RUNNING)) a)\<lparr>cpu_proc := (cpu_proc a)(hart a := Some p)\<rparr>"
      using pick(3) a by (simp add: scheduler_pick_def Let_def upd_proc_def)
    moreover have "cpu_proc s g \<noteq> Some p" for g
      using pick(4) True af by (auto simp: one_hart_def)
    ultimately show ?thesis
      using pick(1,4) af by (auto simp: one_hart_def upd_proc_def)
  next
    case False
    then have "release (ProcLock p) a = Some s'"
      using pick(3) a by (auto simp: scheduler_pick_def bind_eq_Some_conv)
    with release_fields [OF this] af pick(4) show ?thesis by (simp add: one_hart_def)
  qed
next
  case (yield_back s h p ie s')
  then have "release (ProcLock p) (sched_in ie (s\<lparr>hart := h\<rparr>)) = Some s'" by (simp add: yield_in_def)
  with release_fields [OF this] yield_back(3) show ?case by (simp add: one_hart_def sched_in_def set_mycpu_def)
next
  case (sleep_back s h p ie lk s')
  then obtain c where c: "release (ProcLock p) (upd_proc p (p_chan_update (\<lambda>_. NullChan)) (sched_in ie (s\<lparr>hart := h\<rparr>))) = Some c"
    "acquire lk c = Some s'"
    by (auto simp: sleep_in_def bind_eq_Some_conv Let_def)
  have "cpu_proc s' = cpu_proc s" "wakes (proc s) (proc s')"
    using release_fields [OF c(1)] acquire_fields [OF c(2)]
    by (auto simp: sched_in_def set_mycpu_def upd_proc_def wakes_def)
  then show ?case by (rule one_hart_wakes [OF sleep_back(3)])
next
  case (yield s h p ie t s')
  show ?case
    using yield_out_fields [OF yield(2)] scheduler_back_fields [OF yield(3)] yield(1)
    by (intro one_hart_stop [OF yield(4,1)]) auto
next
  case (sleep s h p ch lk ie t s')
  show ?case
    using sleep_out_fields [OF sleep(2)] scheduler_back_fields [OF sleep(3)] sleep(1)
    by (intro one_hart_stop [OF sleep(4,1)]) auto
next
  case (wake ch h s s')
  then show ?case using wakeup_loop_wakes [of "[0..<NPROC]" ch "s\<lparr>hart := h\<rparr>" s'] one_hart_wakes [of s s']
    by (simp add: wakeup_def)
next
  case (kill pid h s r s')
  then show ?case using kill_loop_wakes [of "[0..<NPROC]" pid "s\<lparr>hart := h\<rparr>" r s'] one_hart_wakes [of s s']
    by (simp add: kill_def)
qed



section \<open>A round of the scheduler\<close>

text \<open>
  What \<open>swtch\<close> and the processes promise the scheduler: the process comes back on the same hart
  with interrupts off and its own lock held, as it got them, and has not changed the others.
\<close>

definition hands_back :: "(nat \<Rightarrow> 'a procs_scheme \<Rightarrow> 'a procs_scheme option) \<Rightarrow> bool" where
  "hands_back run \<longleftrightarrow> (\<forall>p s. \<exists>s'. run p s = Some s' \<and> hart s' = hart s \<and> cpus s' = cpus s \<and> spin s' = spin s \<and>
     (\<forall>q. q \<noteq> p \<longrightarrow> proc s' q = proc s q))"

lemma release_same_locks:
  assumes "cpu_ok s" "free lk s" "hart t = hart s" "cpus t = cpus (acquired lk s)" "spin t = spin (acquired lk s)"
  shows "\<exists>u. release lk t = Some u \<and> hart u = hart s \<and> cpus u = cpus (settle s) \<and> spin u = spin s \<and> proc u = proc t"
proof -
  have h: "holding lk t" using assms(3,5) by (simp add: holding_def acquired_form)
  have c: "\<not> (sie (cpus t (hart t)) \<or> noff (cpus t (hart t)) < 1)"
    using assms(1,3,4) by (simp add: acquired_form push_off_form push_cpu_def cpu_ok_def mycpu_def)
  have r: "release lk (acquired lk s) = Some (settle s)" using assms(1,2) by simp
  let ?a = "acquired lk s"
  have e: "settle s = ?a\<lparr>spin := (spin ?a)(lk := (spin ?a lk)\<lparr>lcpu := None, locked := False\<rparr>),
      cpus := (cpus ?a)(hart ?a := rel_cpu (cpus ?a (hart ?a)))\<rparr>"
    using r by (auto simp: release_form split: if_splits)
  have "cpus (settle s) = (cpus ?a)(hart ?a := rel_cpu (cpus ?a (hart ?a)))"
    "spin (settle s) = (spin ?a)(lk := (spin ?a lk)\<lparr>lcpu := None, locked := False\<rparr>)"
    by (subst e, simp)+
  then have "cpus (settle s) = (cpus t)(hart t := rel_cpu (cpus t (hart t)))"
    "spin s = (spin t)(lk := (spin t lk)\<lparr>lcpu := None, locked := False\<rparr>)"
    using assms(3,4,5) by simp_all
  with h c show ?thesis using assms(3) by (simp add: release_form rel_ok_def holding_def)
qed

lemma scheduler_scan_eq:
  assumes "hands_back run" "cpu_ok s" "distinct ps" "\<forall>p\<in>set ps. free (ProcLock p) s"
  shows "\<exists>s'. scheduler_scan run ps n s = Some (filter (\<lambda>p. p_state (proc s p) = RUNNABLE) ps,
    n + length (filter (\<lambda>p. p_state (proc s p) \<noteq> RUNNABLE) ps), s')"
  using assms(2-)
proof (induction ps arbitrary: n s)
  case Nil
  then show ?case by simp
next
  case (Cons p ps)
  have f: "free (ProcLock p) s" and fs: "\<forall>q\<in>set ps. free (ProcLock q) s" using Cons.prems by auto
  show ?case
  proof (cases "p_state (proc s p) = RUNNABLE")
    case False
    then show ?thesis
      using Cons.prems(1,2) f fs Cons.IH [of "settle s" "Suc n"] by (simp add: scheduler_pick_def)
  next
    case True
    define a where "a = (upd_proc p (p_state_update (\<lambda>_. RUNNING)) (acquired (ProcLock p) s))
      \<lparr>cpu_proc := (cpu_proc s)(hart s := Some p)\<rparr>"
    have pick: "scheduler_pick p s = Some (True, a)"
      using True f by (simp add: scheduler_pick_def a_def upd_proc_def Let_def)
    obtain b where b: "run p a = Some b" "hart b = hart a" "cpus b = cpus a" "spin b = spin a"
      "\<And>q. q \<noteq> p \<Longrightarrow> proc b q = proc a q"
      using assms(1) unfolding hands_back_def by meson
    obtain u where u: "scheduler_back p b = Some u" "hart u = hart s" "cpus u = cpus (settle s)"
      "spin u = spin s" "proc u = proc b"
      using release_same_locks [OF Cons.prems(1) f, of "b\<lparr>cpu_proc := (cpu_proc b)(hart b := None)\<rparr>"] b
      by (auto simp: scheduler_back_def a_def upd_proc_def Let_def)
    have ok: "cpu_ok u" "\<forall>q\<in>set ps. free (ProcLock q) u"
      using u Cons.prems(1) fs cpu_ok_simps [of s] by (simp_all add: cpu_ok_def mycpu_def free_def)
    have "proc u q = proc s q" if "q \<noteq> p" for q
      using u(5) b(5) [OF that] that by (simp add: a_def upd_proc_def)
    then have same: "\<forall>q\<in>set ps. proc u q = proc s q" using Cons.prems(2) by (metis distinct.simps(2))
    have "filter (\<lambda>q. p_state (proc u q) = RUNNABLE) ps = filter (\<lambda>q. p_state (proc s q) = RUNNABLE) ps"
      "filter (\<lambda>q. p_state (proc u q) \<noteq> RUNNABLE) ps = filter (\<lambda>q. p_state (proc s q) \<noteq> RUNNABLE) ps"
      using same by (auto intro: filter_cong)
    then show ?thesis using Cons.IH [OF ok(1) _ ok(2), of n] Cons.prems(2) pick b(1) u(1) True by auto
  qed
qed



end
