(* ===== verification/Ring.thy ===== *)
theory Ring
  imports Prelude
begin

text \<open>
  The ring buffers of the kernel: pipe.c (512 bytes, 32-bit counters), uart.c (32 bytes, 64-bit
  counters) and console.c (128 bytes, 32-bit counters) all keep two free-running counters that wrap
  around at the width of the word and index the buffer modulo its size. \<open>ring_list\<close> is the queue
  such a buffer represents; the locale \<open>fifo\<close> is the contract that the three components provide.
\<close>

section \<open>The queue between two wrapping counters\<close>

definition ring_list :: "nat \<Rightarrow> (nat \<Rightarrow> 'a) \<Rightarrow> 'w::len word \<Rightarrow> 'w word \<Rightarrow> 'a list" where
  "ring_list N buf r w = map (\<lambda>i. buf (unat (r + of_nat i) mod N)) [0..<unat (w - r)]"

definition ring_size :: "nat \<Rightarrow> 'w::len itself \<Rightarrow> bool" where
  "ring_size N w \<longleftrightarrow> 0 < N \<and> N dvd 2 ^ LENGTH('w) \<and> N < 2 ^ LENGTH('w)"

lemma length_ring_list [simp]: "length (ring_list N buf r w) = unat (w - r)"
  by (simp add: ring_list_def)

lemma ring_list_empty_iff: "ring_list N buf r w = [] \<longleftrightarrow> r = w"
proof -
  have "ring_list N buf r w = [] \<longleftrightarrow> unat (w - r) = 0"
    by (metis length_0_conv length_ring_list)
  then show ?thesis by (auto simp: unat_eq_0)
qed

lemma unat_add_mod_ring:
  assumes "ring_size N TYPE('w::len)"
  shows "unat (r + of_nat i :: 'w word) mod N = (unat r + i) mod N"
proof -
  have "N dvd 2 ^ LENGTH('w)" using assms by (simp add: ring_size_def)
  then show ?thesis
    by (simp add: unat_word_ariths unat_of_nat mod_mod_cancel mod_add_right_eq)
qed

lemma mod_ring_inj:
  fixes a :: nat
  assumes "(a + i) mod N = (a + j) mod N" "i \<le> j" "j < i + N"
  shows "i = j"
proof -
  have "N dvd (a + j) - (a + i)"
    using mod_eq_dvd_iff_nat [of "a + i" "a + j" N] assms(1,2) by (metis add_le_cancel_left)
  then have "N dvd j - i" by simp
  then show ?thesis using assms(2,3) by (auto dest: dvd_imp_le)
qed

lemma ring_put:
  fixes r w :: "'w::len word"
  assumes "ring_size N TYPE('w)" "unat (w - r) < N"
  shows "ring_list N (buf(unat w mod N := c)) r (w + 1) = ring_list N buf r w @ [c]"
proof -
  define n where "n = unat (w - r)"
  have w: "w = r + of_nat n" by (simp add: n_def)
  have len: "unat (w + 1 - r) = Suc n"
  proof -
    have "w + 1 - r = of_nat (Suc n)" by (simp add: n_def)
    moreover have "Suc n < 2 ^ LENGTH('w)" using assms by (simp add: ring_size_def n_def)
    ultimately show ?thesis by (simp only: unat_of_nat_small)
  qed
  have old: "unat (r + of_nat i) mod N \<noteq> unat w mod N" if "i < n" for i
    using mod_ring_inj [of "unat r" i N n] that assms(2) [folded n_def]
    unfolding w unat_add_mod_ring [OF assms(1)] by auto
  have "map (\<lambda>i. (buf(unat w mod N := c)) (unat (r + of_nat i) mod N)) [0..<n] = ring_list N buf r w"
    using old by (simp add: ring_list_def n_def [symmetric])
  moreover have "ring_list N (buf(unat w mod N := c)) r (w + 1) =
      map (\<lambda>i. (buf(unat w mod N := c)) (unat (r + of_nat i) mod N)) [0..<n] @ [c]"
    unfolding ring_list_def len by (simp add: w)
  ultimately show ?thesis by (simp only:)
qed

lemma unat_pred:
  fixes x :: "'w::len word"
  assumes "x \<noteq> 0"
  shows "unat (x - 1) = unat x - 1"
proof -
  have "(1::'w word) \<le> x" using assms by (simp add: word_le_nat_alt Suc_le_eq unat_gt_0)
  then show ?thesis by (simp add: unat_sub)
qed

lemma ring_get:
  fixes r w :: "'w::len word"
  assumes "r \<noteq> w"
  shows "ring_list N buf r w = buf (unat r mod N) # ring_list N buf (r + 1) w"
proof -
  have nz: "0 < unat (w - r)" using assms by (simp add: unat_gt_0)
  have "unat (w - (r + 1)) = unat (w - r - 1)" by (simp add: algebra_simps)
  also have "\<dots> = unat (w - r) - 1" using assms by (simp add: unat_pred)
  finally have len: "unat (w - r) = Suc (unat (w - (r + 1)))" using nz by simp
  show ?thesis
    unfolding ring_list_def len
    by (simp add: upt_conv_Cons map_Suc_upt [symmetric] add.assoc o_def del: upt_Suc)
qed

lemma ring_unput:
  fixes r w :: "'w::len word"
  assumes "r \<noteq> w"
  shows "ring_list N buf r (w - 1) = butlast (ring_list N buf r w)"
    and "last (ring_list N buf r w) = buf (unat (w - 1) mod N)"
proof -
  have nz: "0 < unat (w - r)" using assms by (simp add: unat_gt_0)
  have "unat (w - 1 - r) = unat (w - r - 1)" by (simp add: algebra_simps)
  also have "\<dots> = unat (w - r) - 1" using assms by (simp add: unat_pred)
  finally have len: "unat (w - 1 - r) = unat (w - r) - 1" .
  obtain k where k: "unat (w - r) = Suc k" using nz by (cases "unat (w - r)") auto
  show "ring_list N buf r (w - 1) = butlast (ring_list N buf r w)"
    using len k by (simp add: ring_list_def)
  have "r + of_nat k = w - 1"
  proof -
    have "w - r = of_nat (Suc k)" by (metis k of_nat_unat ucast_id)
    then show ?thesis by (simp add: algebra_simps)
  qed
  then show "last (ring_list N buf r w) = buf (unat (w - 1) mod N)"
    using k by (simp add: ring_list_def)
qed

lemma ring_full_iff:
  fixes r w :: "'w::len word"
  assumes "ring_size N TYPE('w)"
  shows "w = r + of_nat N \<longleftrightarrow> unat (w - r) = N"
proof -
  have "w = r + of_nat N \<longleftrightarrow> w - r = of_nat N" by (simp add: diff_eq_eq add.commute)
  also have "\<dots> \<longleftrightarrow> unat (w - r) = N"
    using assms by (auto simp: word_unat_eq_iff unat_of_nat_small ring_size_def)
  finally show ?thesis .
qed

section \<open>Bounded first-in first-out queues\<close>

datatype 'a fifo_op = Put 'a | Get

text \<open>
  A run of puts and gets in any order; a put into a full queue and a get from an empty one are
  skipped. The results are the elements that went in, those that came out, and the final state.
\<close>

fun fifo_run :: "('s \<Rightarrow> bool) \<Rightarrow> ('s \<Rightarrow> 'a list) \<Rightarrow> ('a \<Rightarrow> 's \<Rightarrow> 's) \<Rightarrow> ('s \<Rightarrow> 'a \<times> 's) \<Rightarrow>
    'a fifo_op list \<Rightarrow> 's \<Rightarrow> 'a list \<times> 'a list \<times> 's" where
  "fifo_run room contents put get [] s = ([], [], s)"
| "fifo_run room contents put get (Put c # ops) s =
     (if room s then let (xs, ys, t) = fifo_run room contents put get ops (put c s) in (c # xs, ys, t)
      else fifo_run room contents put get ops s)"
| "fifo_run room contents put get (Get # ops) s =
     (if contents s \<noteq> [] then let (c, s) = get s; (xs, ys, t) = fifo_run room contents put get ops s in (xs, c # ys, t)
      else fifo_run room contents put get ops s)"

locale fifo =
  fixes inv :: "'s \<Rightarrow> bool"
    and room :: "'s \<Rightarrow> bool"
    and contents :: "'s \<Rightarrow> 'a list"
    and put :: "'a \<Rightarrow> 's \<Rightarrow> 's"
    and get :: "'s \<Rightarrow> 'a \<times> 's"
  assumes put_inv: "inv s \<Longrightarrow> room s \<Longrightarrow> inv (put c s)"
    and put_contents: "inv s \<Longrightarrow> room s \<Longrightarrow> contents (put c s) = contents s @ [c]"
    and get_inv: "inv s \<Longrightarrow> contents s \<noteq> [] \<Longrightarrow> get s = (c, t) \<Longrightarrow> inv t"
    and get_contents: "inv s \<Longrightarrow> contents s \<noteq> [] \<Longrightarrow> get s = (c, t) \<Longrightarrow> contents s = c # contents t"
begin

lemma stream:
  "inv s \<Longrightarrow> fifo_run room contents put get ops s = (xs, ys, t) \<Longrightarrow>
   inv t \<and> contents s @ xs = ys @ contents t"
proof (induction ops arbitrary: s xs ys)
  case Nil
  then show ?case by simp
next
  case (Cons op ops)
  show ?case
  proof (cases op)
    case (Put c)
    show ?thesis
    proof (cases "room s")
      case True
      obtain xs' where xs: "xs = c # xs'" "fifo_run room contents put get ops (put c s) = (xs', ys, t)"
        using Cons.prems(2) Put True by (auto split: prod.splits)
      from Cons.IH [OF put_inv [OF Cons.prems(1) True] xs(2)] put_contents [OF Cons.prems(1) True] xs(1)
      show ?thesis by simp
    next
      case False
      then have "fifo_run room contents put get ops s = (xs, ys, t)" using Cons.prems(2) Put by simp
      from Cons.IH [OF Cons.prems(1) this] show ?thesis .
    qed
  next
    case Get
    show ?thesis
    proof (cases "contents s = []")
      case True
      then have "fifo_run room contents put get ops s = (xs, ys, t)" using Cons.prems(2) Get by simp
      from Cons.IH [OF Cons.prems(1) this] show ?thesis .
    next
      case False
      obtain c u where g: "get s = (c, u)" by fastforce
      obtain ys' where ys: "ys = c # ys'" "fifo_run room contents put get ops u = (xs, ys', t)"
        using Cons.prems(2) Get False g by (auto split: prod.splits)
      from Cons.IH [OF get_inv [OF Cons.prems(1) False g] ys(2)] get_contents [OF Cons.prems(1) False g] ys(1)
      show ?thesis by simp
    qed
  qed
qed

lemma drained:
  "inv s \<Longrightarrow> contents s = [] \<Longrightarrow> fifo_run room contents put get ops s = (xs, ys, t) \<Longrightarrow>
   contents t = [] \<Longrightarrow> ys = xs"
  using stream by fastforce

end

section \<open>A counter between the two ends\<close>

lemma map_upt_add: "map f [a..<a + k] = map (\<lambda>i. f (a + i)) [0..<k]"
  by (induction k) auto

lemma ring_append:
  fixes r w e :: "'w::len word"
  assumes "unat (w - r) + unat (e - w) < 2 ^ LENGTH('w)"
  shows "ring_list N buf r e = ring_list N buf r w @ ring_list N buf w e"
proof -
  have "unat (e - r) = unat ((w - r) + (e - w))" by simp
  also have "\<dots> = unat (w - r) + unat (e - w)" by (rule unat_add_small) (rule assms)
  finally have len: "unat (e - r) = unat (w - r) + unat (e - w)" .
  have shift: "r + of_nat (unat (w - r) + i) = w + of_nat i" for i
  proof -
    have "of_nat (unat (w - r)) = w - r" by (metis of_nat_unat ucast_id)
    then show ?thesis by simp
  qed
  have "map (\<lambda>i. buf (unat (r + of_nat i) mod N)) [unat (w - r)..<unat (w - r) + unat (e - w)] = ring_list N buf w e"
    unfolding ring_list_def map_upt_add shift ..
  then show ?thesis
    unfolding ring_list_def len upt_add_eq_append [of 0 "unat (w - r)" "unat (e - w)", OF le0] map_append
    by (simp only:)
qed

end
