(* ===== verification/Pipe.thy ===== *)
theory Pipe
  imports Proc Ring
begin

text \<open>
  kernel/pipe.c: a pipe is a ring of 512 bytes between a writer and a reader. A call that has to
  wait is cut at its call of \<open>sleep\<close>: \<open>pipewrite_from\<close> and \<open>piperead_from\<close> run with the pipe's lock
  held, from the start of the loop up to the return or to \<open>sleep\<close>, and are what the process runs
  again when it is woken. \<open>pipealloc\<close> is in File.
\<close>

section \<open>Operations\<close>

definition PIPESIZE :: nat where "PIPESIZE = 512"

record pipe =
  data :: "nat \<Rightarrow> uchar"
  nread :: uint
  nwrite :: uint
  readopen :: bool
  writeopen :: bool

record pipes = procs +
  pipe_at :: "uint64 \<Rightarrow> pipe"

definition upd_pipe :: "uint64 \<Rightarrow> (pipe \<Rightarrow> pipe) \<Rightarrow> 'a pipes_scheme \<Rightarrow> 'a pipes_scheme" where
  "upd_pipe pi f s = s\<lparr>pipe_at := (pipe_at s)(pi := f (pipe_at s pi))\<rparr>"

definition pipeclose :: "uint64 \<Rightarrow> bool \<Rightarrow> 'a pipes_scheme \<Rightarrow> 'a pipes_scheme option" where
  "pipeclose pi wr s = do {
     s \<leftarrow> acquire (PipeLock pi) s;
     s \<leftarrow> (if wr then wakeup (PipeReadChan pi) (upd_pipe pi (writeopen_update (\<lambda>_. False)) s)
           else wakeup (PipeWriteChan pi) (upd_pipe pi (readopen_update (\<lambda>_. False)) s));
     if \<not> readopen (pipe_at s pi) \<and> \<not> writeopen (pipe_at s pi) then do {
       s \<leftarrow> release (PipeLock pi) s;
       kfree pi s
     } else release (PipeLock pi) s
   }"

text \<open>\<open>pi->data[pi->nwrite++ % PIPESIZE] = ch\<close> and \<open>ch = pi->data[pi->nread++ % PIPESIZE]\<close>.\<close>

definition pipe_put :: "uchar \<Rightarrow> pipe \<Rightarrow> pipe" where
  "pipe_put ch p = p\<lparr>data := (data p)(unat (nwrite p) mod PIPESIZE := ch), nwrite := nwrite p + 1\<rparr>"

definition pipe_get :: "pipe \<Rightarrow> uchar \<times> pipe" where
  "pipe_get p = (data p (unat (nread p) mod PIPESIZE), p\<lparr>nread := nread p + 1\<rparr>)"

text \<open>
  The loop of \<open>pipewrite\<close>. The result is the counter \<open>i\<close> with \<open>Returns True\<close> when the loop is left
  at its end or by \<open>break\<close>, \<open>Returns False\<close> when the function has returned -1, and \<open>Sleeps\<close> at the
  call of \<open>sleep\<close>.
\<close>

function pipewrite_loop :: "uint64 \<Rightarrow> nat \<Rightarrow> uint64 \<Rightarrow> int \<Rightarrow> nat \<Rightarrow> 'a pipes_scheme \<Rightarrow>
    (nat \<times> bool blocking \<times> 'a pipes_scheme) option" where
  "pipewrite_loop pi pr addr n i s =
     (if int i < n then do {
        (k, s) \<leftarrow> (if \<not> readopen (pipe_at s pi) then Some (1, s) else killed pr s);
        if k \<noteq> 0 then do {
          s \<leftarrow> release (PipeLock pi) s;
          Some (i, Returns False, s)
        } else if nwrite (pipe_at s pi) = nread (pipe_at s pi) + of_nat PIPESIZE then do {
          s \<leftarrow> wakeup (PipeReadChan pi) s;
          Some (i, Sleeps (PipeWriteChan pi), s)
        } else do {
          (r, ch) \<leftarrow> copyin (p_pagetable (proc s pr)) (addr + of_nat i) 1 s;
          if r = -1 then Some (i, Returns True, s)
          else pipewrite_loop pi pr addr n (i + 1) (upd_pipe pi (pipe_put (hd ch)) s)
        }
      } else Some (i, Returns True, s))"
  by auto
termination
  by (relation "measure (\<lambda>(_, _, _, n, i, _). nat (n - int i))") auto

declare pipewrite_loop.simps [simp del]

definition pipewrite_from :: "uint64 \<Rightarrow> nat \<Rightarrow> uint64 \<Rightarrow> int \<Rightarrow> nat \<Rightarrow> 'a pipes_scheme \<Rightarrow>
    (nat \<times> int blocking \<times> 'a pipes_scheme) option" where
  "pipewrite_from pi pr addr n i s = do {
     (i, b, s) \<leftarrow> pipewrite_loop pi pr addr n i s;
     case b of
       Sleeps ch \<Rightarrow> Some (i, Sleeps ch, s)
     | Returns False \<Rightarrow> Some (i, Returns (-1), s)
     | Returns True \<Rightarrow> do {
         s \<leftarrow> wakeup (PipeReadChan pi) s;
         s \<leftarrow> release (PipeLock pi) s;
         Some (i, Returns (int i), s)
       }
   }"

definition pipewrite :: "uint64 \<Rightarrow> uint64 \<Rightarrow> int \<Rightarrow> 'a pipes_scheme \<Rightarrow> (nat \<times> int blocking \<times> 'a pipes_scheme) option" where
  "pipewrite pi addr n s = do {
     (me, s) \<leftarrow> myproc s;
     pr \<leftarrow> me;
     s \<leftarrow> acquire (PipeLock pi) s;
     pipewrite_from pi pr addr n 0 s
   }"

function piperead_loop :: "uint64 \<Rightarrow> nat \<Rightarrow> uint64 \<Rightarrow> int \<Rightarrow> nat \<Rightarrow> 'a pipes_scheme \<Rightarrow> (nat \<times> 'a pipes_scheme) option" where
  "piperead_loop pi pr addr n i s =
     (if int i < n then
        if nread (pipe_at s pi) = nwrite (pipe_at s pi) then Some (i, s)
        else do {
          let (ch, p) = pipe_get (pipe_at s pi);
          let s = upd_pipe pi (\<lambda>_. p) s;
          (r, s) \<leftarrow> copyout (p_pagetable (proc s pr)) (addr + of_nat i) [ch] s;
          if r = -1 then Some (i, s) else piperead_loop pi pr addr n (i + 1) s
        }
      else Some (i, s))"
  by auto
termination
  by (relation "measure (\<lambda>(_, _, _, n, i, _). nat (n - int i))") auto

declare piperead_loop.simps [simp del]

definition piperead_from :: "uint64 \<Rightarrow> nat \<Rightarrow> uint64 \<Rightarrow> int \<Rightarrow> 'a pipes_scheme \<Rightarrow> (int blocking \<times> 'a pipes_scheme) option" where
  "piperead_from pi pr addr n s =
     (if nread (pipe_at s pi) = nwrite (pipe_at s pi) \<and> writeopen (pipe_at s pi) then do {
        (k, s) \<leftarrow> killed pr s;
        if k \<noteq> 0 then do {
          s \<leftarrow> release (PipeLock pi) s;
          Some (Returns (-1), s)
        } else Some (Sleeps (PipeReadChan pi), s)
      } else do {
        (i, s) \<leftarrow> piperead_loop pi pr addr n 0 s;
        s \<leftarrow> wakeup (PipeWriteChan pi) s;
        s \<leftarrow> release (PipeLock pi) s;
        Some (Returns (int i), s)
      })"

definition piperead :: "uint64 \<Rightarrow> uint64 \<Rightarrow> int \<Rightarrow> 'a pipes_scheme \<Rightarrow> (int blocking \<times> 'a pipes_scheme) option" where
  "piperead pi addr n s = do {
     (me, s) \<leftarrow> myproc s;
     pr \<leftarrow> me;
     s \<leftarrow> acquire (PipeLock pi) s;
     piperead_from pi pr addr n s
   }"

section \<open>Frame rules\<close>

lemma pipe_at_frame [simp]:
  "release lk (pipe_at_update f s) = map_option (pipe_at_update f) (release lk s)"
  "acquired lk (pipe_at_update f s) = pipe_at_update f (acquired lk s)"
  "settle (pipe_at_update f s) = pipe_at_update f (settle s)" "push_off (pipe_at_update f s) = pipe_at_update f (push_off s)"
  "free lk (pipe_at_update f s) = free lk s" "cpu_ok (pipe_at_update f s) = cpu_ok s"
  "pipe_at (acquired lk s) = pipe_at s" "pipe_at (settle s) = pipe_at s" "pipe_at (push_off s) = pipe_at s"
  "mycpu (pipe_at_update f s) = mycpu s" "holding lk (pipe_at_update f s) = holding lk s"
  by (simp_all add: lock_forms)

lemma settle_acquired [simp]: "cpu_ok s \<Longrightarrow> settle (acquired lk s) = acquired lk s"
  by (simp add: settle_form acquired_form push_off_form push_cpu_def cpu_ok_def mycpu_def settle_cpu_def)

lemma noff_acquired [simp]: "cpu_ok s \<Longrightarrow> noff (mycpu (push_off s)) \<noteq> 0"
  by (simp add: push_off_form push_cpu_def cpu_ok_def mycpu_def)

lemma settle_inside:
  assumes "settle s = t" "noff (mycpu t) \<noteq> 0"
  shows "s = t"
proof -
  have "noff (mycpu (settle s)) = noff (mycpu s)" by (simp add: settle_form settle_cpu_def mycpu_def)
  then have "settle_cpu (cpus s (hart s)) = cpus s (hart s)"
    using assms by (simp add: settle_cpu_def mycpu_def)
  then show ?thesis using assms(1) by (simp add: settle_form)
qed

section \<open>The queue in a pipe\<close>

definition pipe_bytes :: "pipe \<Rightarrow> uchar list" where
  "pipe_bytes p = ring_list PIPESIZE (data p) (nread p) (nwrite p)"

definition pipe_ok :: "pipe \<Rightarrow> bool" where
  "pipe_ok p \<longleftrightarrow> unat (nwrite p - nread p) \<le> PIPESIZE"

definition pipe_room :: "pipe \<Rightarrow> bool" where
  "pipe_room p \<longleftrightarrow> nwrite p \<noteq> nread p + of_nat PIPESIZE"

lemma pipe_ring_size: "ring_size PIPESIZE TYPE(32)"
  by (simp add: ring_size_def PIPESIZE_def)

lemma pipe_room_iff: "pipe_ok p \<Longrightarrow> pipe_room p \<longleftrightarrow> unat (nwrite p - nread p) < PIPESIZE"
  using ring_full_iff [OF pipe_ring_size, of "nwrite p" "nread p"] by (auto simp: pipe_room_def pipe_ok_def)

lemma pipe_fields [simp]:
  "readopen (pipe_put c p) = readopen p" "writeopen (pipe_put c p) = writeopen p" "nread (pipe_put c p) = nread p"
  by (simp_all add: pipe_put_def)

lemma pipe_put_ok:
  assumes "pipe_ok p" "pipe_room p"
  shows "pipe_ok (pipe_put c p)" "pipe_bytes (pipe_put c p) = pipe_bytes p @ [c]"
proof -
  have l: "unat (nwrite p - nread p) < PIPESIZE" using assms pipe_room_iff by simp
  show b: "pipe_bytes (pipe_put c p) = pipe_bytes p @ [c]"
    using ring_put [OF pipe_ring_size l] by (simp add: pipe_bytes_def pipe_put_def)
  show "pipe_ok (pipe_put c p)"
    using arg_cong [OF b, of length] l by (simp add: pipe_ok_def pipe_bytes_def pipe_put_def)
qed

lemma pipe_empty_iff: "pipe_bytes p = [] \<longleftrightarrow> nread p = nwrite p"
  by (simp add: pipe_bytes_def ring_list_empty_iff)

lemma pipe_get_ok:
  assumes "pipe_ok p" "pipe_bytes p \<noteq> []" "pipe_get p = (c, q)"
  shows "pipe_ok q" "pipe_bytes p = c # pipe_bytes q"
proof -
  have ne: "nread p \<noteq> nwrite p" using assms(2) by (simp add: pipe_empty_iff)
  show b: "pipe_bytes p = c # pipe_bytes q"
    using ring_get [OF ne] assms(3) by (auto simp: pipe_bytes_def pipe_get_def)
  show "pipe_ok q"
    using arg_cong [OF b, of length] assms(1,3) by (auto simp: pipe_ok_def pipe_bytes_def pipe_get_def)
qed

interpretation pipe_fifo: fifo pipe_ok pipe_room pipe_bytes pipe_put pipe_get
  by unfold_locales (simp_all add: pipe_put_ok, blast intro: pipe_get_ok, blast dest: pipe_get_ok)

section \<open>User memory under unrelated updates\<close>

lemma vm_inv_cong:
  assumes "vm_inv root lvl ps s" "phys t = phys s" "kend t = kend s" "freelist t = freelist s" "cpu_ok t" "free KmemLock t"
  shows "vm_inv root lvl ps t"
  using assms by (simp add: vm_inv_def kmem_ready_def kmem_inv_def page_ok_def)

lemma user_pa_cong: "phys t = phys s \<Longrightarrow> user_pa root t = user_pa root s"
  by (rule ext) (simp add: user_pa_def translate_def)

lemma user_bytes_cong:
  assumes "phys t = phys s"
  shows "user_bytes root t va n = user_bytes root s va n"
  by (induction n arbitrary: va) (simp_all add: user_pa_cong [OF assms] assms split: option.split)

lemma user_sep_cong: "user_sep root lvl ps s \<Longrightarrow> phys t = phys s \<Longrightarrow> user_sep root lvl ps t"
  by (simp add: user_sep_def translate_def)

text \<open>\<open>at_pipe pi pr root lvl ps s\<close>: process \<open>pr\<close> runs inside a pipe operation on its page table.\<close>

definition at_pipe :: "uint64 \<Rightarrow> nat \<Rightarrow> uint64 \<Rightarrow> (uint64 \<rightharpoonup> nat) \<Rightarrow> uint64 list \<Rightarrow> 'a pipes_scheme \<Rightarrow> bool" where
  "at_pipe pi pr root lvl ps s \<longleftrightarrow> cpu_ok s \<and> cpu_proc s (hart s) = Some pr \<and> (\<forall>p. free (ProcLock p) s) \<and>
     vm_inv root lvl ps s \<and> user_sep root lvl ps s \<and> root = p_pagetable (proc s pr) \<and> pipe_ok (pipe_at s pi)"

lemma at_pipeD:
  assumes "at_pipe pi pr root lvl ps s"
  shows "cpu_ok s" "cpu_proc s (hart s) = Some pr" "free (ProcLock p) s" "others_free s" "vm_inv root lvl ps s"
    "user_sep root lvl ps s" "p_pagetable (proc s pr) = root" "pipe_ok (pipe_at s pi)" "free KmemLock s"
  using assms by (auto simp: at_pipe_def others_free_def vm_inv_def kmem_ready_def)

lemma at_pipe_upd:
  assumes "at_pipe pi pr root lvl ps s" "pipe_ok (f (pipe_at s pi))"
  shows "at_pipe pi pr root lvl ps (upd_pipe pi f s)"
  using assms vm_inv_cong [of root lvl ps s "upd_pipe pi f s"] user_sep_cong [of root lvl ps s "upd_pipe pi f s"]
  by (auto simp: at_pipe_def upd_pipe_def vm_inv_def kmem_ready_def)

lemma at_pipe_settle:
  assumes "at_pipe pi pr root lvl ps s"
  shows "at_pipe pi pr root lvl ps (settle s)"
  using assms vm_inv_cong [of root lvl ps s "settle s"] user_sep_cong [of root lvl ps s "settle s"]
  by (auto simp: at_pipe_def vm_inv_def kmem_ready_def)

lemma copyin_byte:
  assumes "vm_inv root lvl ps s"
  shows "copyin root a 1 s = Some (case user_pa root s a of None \<Rightarrow> (-1, []) | Some x \<Rightarrow> (0, [phys s x]))"
  by (simp add: copyin_eq [OF assms] split: option.split)

lemma copyout_byte:
  assumes "vm_inv root lvl ps s" "user_sep root lvl ps s"
  shows "copyout root a [c] s = Some (case user_pa root s a of None \<Rightarrow> (-1, s) | Some x \<Rightarrow> (0, s\<lparr>phys := (phys s)(x := c)\<rparr>))"
  by (simp add: copyout_eq [OF assms] split: option.split)

section \<open>Writing\<close>

lemma upd_pipe_simps [simp]:
  "upd_pipe pi (\<lambda>_. pipe_at s pi) s = s" "upd_pipe pi f (upd_pipe pi g s) = upd_pipe pi (f \<circ> g) s"
  "settle (upd_pipe pi f s) = upd_pipe pi f (settle s)" "pipe_at (upd_pipe pi f s) pi = f (pipe_at s pi)"
  "proc (upd_pipe pi f s) = proc s" "phys (upd_pipe pi f s) = phys s"
  by (simp_all add: upd_pipe_def)

lemma upd_pipe_settle_id [simp]: "upd_pipe pi (\<lambda>_. pipe_at s pi) (settle s) = settle s"
  using upd_pipe_simps(1) [of pi "settle s"] by (simp add: pipe_at_frame)

text \<open>The two ways in which the writing loop ends while the reader is there.\<close>

definition write_end :: "uint64 \<Rightarrow> uint64 \<Rightarrow> uint64 \<Rightarrow> int \<Rightarrow> nat \<Rightarrow> bool blocking \<Rightarrow> 'a pipes_scheme \<Rightarrow> 'a pipes_scheme \<Rightarrow> bool" where
  "write_end pi root addr n j b t s' \<longleftrightarrow>
     b = Returns True \<and> s' = t \<and> (n \<le> int j \<or> user_pa root t (addr + of_nat j) = None) \<or>
     b = Sleeps (PipeWriteChan pi) \<and> wakeup (PipeReadChan pi) t = Some s' \<and> \<not> pipe_room (pipe_at t pi) \<and> int j < n"

lemma pipewrite_loop_ok:
  assumes "at_pipe pi pr root lvl ps s" "readopen (pipe_at s pi)" "p_killed (proc s pr) = 0"
  shows "\<exists>bs b t s' p. pipewrite_loop pi pr addr n i s = Some (i + length bs, b, s') \<and>
    user_bytes root s (addr + of_nat i) (length bs) = (0, bs) \<and> int (i + length bs) \<le> max (int i) n \<and>
    pipe_ok p \<and> pipe_bytes p = pipe_bytes (pipe_at s pi) @ bs \<and>
    p\<lparr>data := data (pipe_at s pi), nwrite := nwrite (pipe_at s pi)\<rparr> = pipe_at s pi \<and>
    settle t = upd_pipe pi (\<lambda>_. p) (settle s) \<and> at_pipe pi pr root lvl ps t \<and>
    write_end pi root addr n (i + length bs) b t s'"
  using assms
proof (induction "nat (n - int i)" arbitrary: i s rule: less_induct)
  case less
  note at = at_pipeD [OF less.prems(1)]
  show ?case
  proof (cases "int i < n")
    case False
    then show ?thesis
      using less.prems(1) at(8)
      by (intro exI [of _ "[]"] exI [of _ "Returns True"] exI [of _ s] exI [of _ "pipe_at s pi"])
        (simp add: pipewrite_loop.simps write_end_def)
  next
    case True
    note k = killed_eq [OF at(1,3), of pr] less.prems(2,3)
    show ?thesis
    proof (cases "pipe_room (pipe_at s pi)")
      case full: False
      obtain s' where w: "wakeup (PipeReadChan pi) (settle s) = Some s'"
        using wakeup_eq [of "settle s" "PipeReadChan pi"] at(1,4) by (auto simp: others_free_def)
      have "pipewrite_loop pi pr addr n i s = Some (i, Sleeps (PipeWriteChan pi), s')"
        using True full w k by (simp add: pipewrite_loop.simps [of pi pr addr n i] pipe_room_def)
      then show ?thesis
        using w full True at(8) at_pipe_settle [OF less.prems(1)]
        by (intro exI [of _ "[]"] exI [of _ "Sleeps (PipeWriteChan pi)"] exI [of _ "settle s"] exI [of _ s']
            exI [of _ "pipe_at s pi"]) (simp add: write_end_def)
    next
      case room: True
      have vs: "vm_inv root lvl ps (settle s)" by (rule at_pipeD(5) [OF at_pipe_settle [OF less.prems(1)]])
      note c = copyin_byte [OF vs, of "addr + of_nat i"] at(7)
      have ups: "user_pa root (settle s) = user_pa root s" by (rule user_pa_cong) simp
      show ?thesis
      proof (cases "user_pa root s (addr + of_nat i)")
        case None
        then have "pipewrite_loop pi pr addr n i s = Some (i, Returns True, settle s)"
          using True room k c ups by (simp add: pipewrite_loop.simps [of pi pr addr n i] pipe_room_def)
        then show ?thesis
          using None True at(8) at_pipe_settle [OF less.prems(1)] ups
          by (intro exI [of _ "[]"] exI [of _ "Returns True"] exI [of _ "settle s"] exI [of _ "pipe_at s pi"])
            (simp add: write_end_def)
      next
        case (Some x)
        let ?p = "pipe_put (phys s x) (pipe_at s pi)"
        define u where "u = upd_pipe pi (pipe_put (phys s x)) (settle s)"
        have put: "pipe_ok ?p" "pipe_bytes ?p = pipe_bytes (pipe_at s pi) @ [phys s x]"
          using pipe_put_ok [OF at(8) room] by auto
        have step: "pipewrite_loop pi pr addr n i s = pipewrite_loop pi pr addr n (i + 1) u"
          using True room k c ups Some
          by (simp add: pipewrite_loop.simps [of pi pr addr n i] pipe_room_def u_def)
        have atu: "at_pipe pi pr root lvl ps u"
          unfolding u_def using at_pipe_settle [OF less.prems(1)] put(1) by (intro at_pipe_upd) auto
        have pu: "pipe_at u pi = ?p" "settle u = u" "phys u = phys s" "proc u = proc s"
          by (simp_all add: u_def)
        obtain bs b t s' p where ih: "pipewrite_loop pi pr addr n (i + 1) u = Some (i + 1 + length bs, b, s')"
          "user_bytes root u (addr + of_nat (i + 1)) (length bs) = (0, bs)"
          "int (i + 1 + length bs) \<le> max (int (i + 1)) n" "pipe_ok p" "pipe_bytes p = pipe_bytes ?p @ bs"
          "p\<lparr>data := data ?p, nwrite := nwrite ?p\<rparr> = ?p"
          "settle t = upd_pipe pi (\<lambda>_. p) (settle u)" "at_pipe pi pr root lvl ps t"
          "write_end pi root addr n (i + 1 + length bs) b t s'"
          using less.hyps [of "i + 1" u] True atu less.prems(2,3) by (auto simp: pu)
        have ub: "user_bytes root s (addr + of_nat i) (Suc (length bs)) = (0, phys s x # bs)"
          using Some ih(2) user_bytes_cong [OF pu(3)] by (simp add: ac_simps)
        have same: "p\<lparr>data := data (pipe_at s pi), nwrite := nwrite (pipe_at s pi)\<rparr> = pipe_at s pi"
          using arg_cong [OF ih(6), of "\<lambda>q. q\<lparr>data := data (pipe_at s pi), nwrite := nwrite (pipe_at s pi)\<rparr>"]
          by (simp add: pipe_put_def)
        have st: "settle t = upd_pipe pi (\<lambda>_. p) (settle s)" using ih(7) by (simp add: u_def o_def)
        show ?thesis
          using ih(1,3,4,5,8,9) step ub same st put(2) True
          by (intro exI [of _ "phys s x # bs"] exI [of _ b] exI [of _ t] exI [of _ s'] exI [of _ p]) simp
      qed
    qed
  qed
qed

lemma pipewrite_from_ok:
  assumes "at_pipe pi pr root lvl ps s" "readopen (pipe_at s pi)" "p_killed (proc s pr) = 0"
    and "free (PipeLock pi) s0" "cpu_ok s0" "settle s = settle (acquired (PipeLock pi) s0)"
  shows "\<exists>bs b s' p. pipewrite_from pi pr addr n i s = Some (i + length bs, b, s') \<and>
    user_bytes root s (addr + of_nat i) (length bs) = (0, bs) \<and>
    pipe_bytes (pipe_at s' pi) = pipe_bytes (pipe_at s pi) @ bs \<and> pipe_ok (pipe_at s' pi) \<and>
    proc s' = woken {..<NPROC} (Some pr) (PipeReadChan pi) (proc s) \<and>
    (b = Returns (int (i + length bs)) \<and> free (PipeLock pi) s' \<and>
       (int (i + length bs) = max (int i) n \<or> user_pa root s (addr + of_nat (i + length bs)) = None) \<or>
     b = Sleeps (PipeWriteChan pi) \<and> holding (PipeLock pi) s' \<and> int (i + length bs) < n \<and>
       length (pipe_bytes (pipe_at s' pi)) = PIPESIZE)"
proof -
  obtain bs b t s' p where l: "pipewrite_loop pi pr addr n i s = Some (i + length bs, b, s')"
    "user_bytes root s (addr + of_nat i) (length bs) = (0, bs)" "int (i + length bs) \<le> max (int i) n" "pipe_ok p"
    "pipe_bytes p = pipe_bytes (pipe_at s pi) @ bs"
    "settle t = upd_pipe pi (\<lambda>_. p) (settle s)" "at_pipe pi pr root lvl ps t"
    "write_end pi root addr n (i + length bs) b t s'"
    using pipewrite_loop_ok [OF assms(1-3), of addr n i] by blast
  note at = at_pipeD [OF l(7)]
  define u where "u = upd_pipe pi (\<lambda>_. p) (acquired (PipeLock pi) s0)"
  have tu: "settle t = settle u" using l(6) assms(6) by (simp add: u_def)
  have f: "pipe_at t pi = p" "proc t = proc s" "phys t = phys s" "hart t = hart s"
    using arg_cong [OF l(6), of pipe_at] arg_cong [OF l(6), of proc] arg_cong [OF l(6), of phys] arg_cong [OF l(6), of hart]
    by (simp_all add: upd_pipe_def)
  have w: "wakeup (PipeReadChan pi) t = Some (settle u\<lparr>proc := woken {..<NPROC} (Some pr) (PipeReadChan pi) (proc s)\<rparr>)"
    using wakeup_eq [OF at(1,4), of "PipeReadChan pi"] at(2) f(2) by (simp add: tu)
  have h: "holding (PipeLock pi) (settle u)" 
    by (simp add: u_def upd_pipe_def) (simp add: holding_def acquired_form settle_form)
  have uf: "pipe_at (settle u) pi = p" "hart (settle u) = hart s"
    using f(1,4) arg_cong [OF tu, of pipe_at] arg_cong [OF tu, of hart] by (simp_all add: u_def upd_pipe_def)
  have r: "release (PipeLock pi) (settle u) = Some (upd_pipe pi (\<lambda>_. p) (settle s0))"
    using assms(4,5) by (simp add: u_def upd_pipe_def)
  consider (fin) "b = Returns True" "s' = t" "n \<le> int (i + length bs) \<or> user_pa root t (addr + of_nat (i + length bs)) = None"
    | (sleep) "b = Sleeps (PipeWriteChan pi)" "wakeup (PipeReadChan pi) t = Some s'" "\<not> pipe_room (pipe_at t pi)"
      "int (i + length bs) < n"
    using l(8) unfolding write_end_def by metis
  then show ?thesis
  proof cases
    case b: fin
    have "pipewrite_from pi pr addr n i s = Some (i + length bs, Returns (int (i + length bs)),
        upd_pipe pi (\<lambda>_. p) (settle s0)\<lparr>proc := woken {..<NPROC} (Some pr) (PipeReadChan pi) (proc s)\<rparr>)"
      using l(1) b w r by (simp add: pipewrite_from_def)
    then show ?thesis
      using l(2-5) b(3) assms(4) user_pa_cong [OF f(3)]
      by (intro exI [of _ bs] exI) (auto simp: upd_pipe_def max_def)
  next
    case b: sleep
    have "unat (nwrite p - nread p) = PIPESIZE"
      using b(3) f(1) l(4) pipe_room_iff [OF l(4)] by (simp add: pipe_ok_def)
    then have "length (pipe_bytes p) = PIPESIZE" by (simp add: pipe_bytes_def)
    moreover have "s' = settle u\<lparr>proc := woken {..<NPROC} (Some pr) (PipeReadChan pi) (proc s)\<rparr>"
      using b(2) w by simp
    moreover have "pipewrite_from pi pr addr n i s = Some (i + length bs, Sleeps (PipeWriteChan pi), s')"
      using l(1) b by (simp add: pipewrite_from_def)
    ultimately show ?thesis
      using l(2-5) b(4) h uf by (intro exI [of _ bs] exI) auto
  qed
qed

section \<open>Reading\<close>

lemma user_store_cong:
  "phys t = phys s \<Longrightarrow> phys (snd (user_store root va bs t)) = phys (snd (user_store root va bs s))"
proof (induction bs arbitrary: va s t)
  case Nil
  then show ?case by simp
next
  case (Cons b bs)
  show ?case
    using Cons.prems Cons.IH [of "t\<lparr>phys := (phys t)(x := b)\<rparr>" "s\<lparr>phys := (phys s)(x := b)\<rparr>" "va + 1" for x]
    by (simp add: user_pa_cong [OF Cons.prems] split: option.split)
qed

text \<open>How the reading loop ends: all bytes delivered, or one byte taken that had nowhere to go.\<close>

definition read_end :: "uint64 \<Rightarrow> uint64 \<Rightarrow> int \<Rightarrow> nat \<Rightarrow> nat \<Rightarrow> uchar list \<Rightarrow> uchar list \<Rightarrow> 'a pipes_scheme \<Rightarrow> bool" where
  "read_end root addr n i j bs rest s \<longleftrightarrow>
     j = i + length bs \<and> (int j = max (int i) n \<or> rest = []) \<or>
     i + length bs = Suc j \<and> user_pa root s (addr + of_nat j) = None"

lemma at_pipe_phys:
  assumes "at_pipe pi pr root lvl ps s" "user_pa root s a = Some x"
  shows "at_pipe pi pr root lvl ps (s\<lparr>phys := (phys s)(x := c)\<rparr>)"
  using assms user_write_frame(1,2) [OF at_pipeD(5,6) [OF assms(1)] assms(2), of c]
  by (simp add: at_pipe_def)

lemma piperead_loop_ok:
  assumes "at_pipe pi pr root lvl ps s"
  shows "\<exists>bs j m p. piperead_loop pi pr addr n i s = Some (j, upd_pipe pi (\<lambda>_. p) (s\<lparr>phys := m\<rparr>)) \<and>
    i \<le> j \<and> int j \<le> max (int i) n \<and> pipe_ok p \<and> pipe_bytes (pipe_at s pi) = bs @ pipe_bytes p \<and>
    p\<lparr>nread := nread (pipe_at s pi)\<rparr> = pipe_at s pi \<and>
    read_end root addr n i j bs (pipe_bytes p) s \<and>
    m = phys (snd (user_store root (addr + of_nat i) (take (j - i) bs) s)) \<and>
    at_pipe pi pr root lvl ps (upd_pipe pi (\<lambda>_. p) (s\<lparr>phys := m\<rparr>))"
  using assms
proof (induction "nat (n - int i)" arbitrary: i s rule: less_induct)
  case less
  note at = at_pipeD [OF less.prems]
  let ?p = "pipe_at s pi"
  show ?case
  proof (cases "int i < n \<and> pipe_bytes ?p \<noteq> []")
    case False
    then have "piperead_loop pi pr addr n i s = Some (i, s)"
      by (auto simp: piperead_loop.simps [of pi pr addr n i] pipe_empty_iff)
    then show ?thesis
      using False at(8) less.prems
      by (intro exI [of _ "[]"] exI [of _ i] exI [of _ "phys s"] exI [of _ ?p]) (auto simp: read_end_def max_def)
  next
    case True
    obtain c q where g: "pipe_get ?p = (c, q)" by fastforce
    have q: "pipe_ok q" "pipe_bytes ?p = c # pipe_bytes q" using pipe_get_ok [OF at(8) _ g] True by auto
    have qp: "q\<lparr>nread := nread ?p\<rparr> = ?p" using g by (auto simp: pipe_get_def)
    define u where "u = upd_pipe pi (\<lambda>_. q) s"
    have atu: "at_pipe pi pr root lvl ps u" unfolding u_def using less.prems q(1) by (rule at_pipe_upd)
    note c = copyout_byte [OF at_pipeD(5,6) [OF atu], of "addr + of_nat i" c]
    have ua: "user_pa root u = user_pa root s" by (rule user_pa_cong) (simp add: u_def)
    have pt: "p_pagetable (proc u pr) = root" by (rule at_pipeD(7) [OF atu])
    show ?thesis
    proof (cases "user_pa root s (addr + of_nat i)")
      case None
      have "piperead_loop pi pr addr n i s = Some (i, u)"
        using True g c ua None pt by (simp add: piperead_loop.simps [of pi pr addr n i] pipe_empty_iff u_def)
      then show ?thesis
        using q qp None True atu
        by (intro exI [of _ "[c]"] exI [of _ i] exI [of _ "phys s"] exI [of _ q]) (simp add: read_end_def u_def)
    next
      case (Some x)
      define v where "v = u\<lparr>phys := (phys s)(x := c)\<rparr>"
      have pu: "phys u = phys s" by (simp add: u_def)
      have step: "piperead_loop pi pr addr n i s = piperead_loop pi pr addr n (i + 1) v"
        using True g c ua Some pt pu by (simp add: piperead_loop.simps [of pi pr addr n i] pipe_empty_iff u_def v_def)
      have atv: "at_pipe pi pr root lvl ps v"
        using at_pipe_phys [OF atu, of "addr + of_nat i" x c] Some ua pu by (simp add: v_def)
      have va: "user_pa root v = user_pa root s"
        using user_write_frame(3) [OF at_pipeD(5,6) [OF atu], of "addr + of_nat i" x c] Some ua pu by (simp add: v_def)
      have pv: "pipe_at v pi = q" by (simp add: v_def u_def upd_pipe_def)
      obtain bs j m p where ih: "piperead_loop pi pr addr n (i + 1) v = Some (j, upd_pipe pi (\<lambda>_. p) (v\<lparr>phys := m\<rparr>))"
        "i + 1 \<le> j" "int j \<le> max (int (i + 1)) n" "pipe_ok p" "pipe_bytes q = bs @ pipe_bytes p"
        "p\<lparr>nread := nread q\<rparr> = q" "read_end root addr n (i + 1) j bs (pipe_bytes p) v"
        "m = phys (snd (user_store root (addr + of_nat (i + 1)) (take (j - (i + 1)) bs) v))"
        "at_pipe pi pr root lvl ps (upd_pipe pi (\<lambda>_. p) (v\<lparr>phys := m\<rparr>))"
        using less.hyps [of "i + 1" v] True atv by (auto simp: pv)
      have vs: "upd_pipe pi (\<lambda>_. p) (v\<lparr>phys := m\<rparr>) = upd_pipe pi (\<lambda>_. p) (s\<lparr>phys := m\<rparr>)"
        by (simp add: v_def u_def upd_pipe_def)
      have pp: "p\<lparr>nread := nread ?p\<rparr> = ?p"
        using arg_cong [OF ih(6), of "\<lambda>z. z\<lparr>nread := nread ?p\<rparr>"] qp by simp
      have j: "j - i = Suc (j - (i + 1))" using ih(2) by simp
      have "phys v = phys (s\<lparr>phys := (phys s)(x := c)\<rparr>)" by (simp add: v_def)
      note us = user_store_cong [OF this]
      have m: "m = phys (snd (user_store root (addr + of_nat i) (take (j - i) (c # bs)) s))"
        using ih(8) Some us unfolding j by (simp add: ac_simps)
      have re: "read_end root addr n i j (c # bs) (pipe_bytes p) s"
        using ih(7) True by (auto simp: read_end_def va max_def)
      have "pipe_bytes ?p = (c # bs) @ pipe_bytes p" using q(2) ih(5) by simp
      moreover have "piperead_loop pi pr addr n i s = Some (j, upd_pipe pi (\<lambda>_. p) (s\<lparr>phys := m\<rparr>))"
        using step ih(1) vs by simp
      moreover have "i \<le> j" "int j \<le> max (int i) n" using ih(2,3) True by auto
      ultimately show ?thesis using ih(4,9) pp re m unfolding vs by blast
    qed
  qed
qed

section \<open>The two calls\<close>

lemma at_pipe_acquired:
  assumes "at_pipe pi pr root lvl ps s"
  shows "at_pipe pi pr root lvl ps (acquired (PipeLock pi) s)"
  using assms vm_inv_cong [of root lvl ps s "acquired (PipeLock pi) s"]
    user_sep_cong [of root lvl ps s "acquired (PipeLock pi) s"]
  by (auto simp: at_pipe_def vm_inv_def kmem_ready_def)

lemma pipewrite_refused:
  assumes "at_pipe pi pr root lvl ps s" "free (PipeLock pi) s" "0 < n"
    and "\<not> readopen (pipe_at s pi) \<or> p_killed (proc s pr) \<noteq> 0"
  shows "pipewrite pi addr n s = Some (0, Returns (-1), settle s)"
proof -
  note at = at_pipeD [OF assms(1)]
  have "killed pr (acquired (PipeLock pi) s) = Some (p_killed (proc s pr), acquired (PipeLock pi) s)"
    using at(1,3) by (simp add: killed_eq)
  then show ?thesis
    using assms(2-4) at(1,2)
    by (auto simp: pipewrite_def pipewrite_from_def pipewrite_loop.simps)
qed

text \<open>
  C27. pipewrite(pi, addr, n) appends user bytes to the pipe in order. With nobody left to read, or
  the caller killed, it returns -1 and the pipe is as before. Otherwise the bytes at addr, addr+1,
  ... are appended to the queue that the ring represents, never beyond its 512 bytes, sleeping
  readers are woken, and the call returns their number, stopping before n only at an unmapped
  address; or, with the ring full and bytes left, it goes to sleep on &pi->nwrite with the lock held.
\<close>

theorem pipewrite_appends:
  assumes "at_pipe pi pr root lvl ps s" "free (PipeLock pi) s"
  shows "if 0 < n \<and> (\<not> readopen (pipe_at s pi) \<or> p_killed (proc s pr) \<noteq> 0)
    then pipewrite pi addr n s = Some (0, Returns (-1), settle s)
    else readopen (pipe_at s pi) \<and> p_killed (proc s pr) = 0 \<longrightarrow>
    (\<exists>bs b s'. pipewrite pi addr n s = Some (length bs, b, s') \<and> user_bytes root s addr (length bs) = (0, bs) \<and>
      pipe_bytes (pipe_at s' pi) = pipe_bytes (pipe_at s pi) @ bs \<and> pipe_ok (pipe_at s' pi) \<and>
      proc s' = woken {..<NPROC} (Some pr) (PipeReadChan pi) (proc s) \<and>
      (b = Returns (int (length bs)) \<and> free (PipeLock pi) s' \<and>
         (int (length bs) = max 0 n \<or> user_pa root s (addr + of_nat (length bs)) = None) \<or>
       b = Sleeps (PipeWriteChan pi) \<and> holding (PipeLock pi) s' \<and> int (length bs) < n \<and>
         length (pipe_bytes (pipe_at s' pi)) = PIPESIZE))"
proof (cases "0 < n \<and> (\<not> readopen (pipe_at s pi) \<or> p_killed (proc s pr) \<noteq> 0)")
  case True
  then show ?thesis using pipewrite_refused [OF assms] by simp
next
  case False
  note at = at_pipeD [OF assms(1)]
  let ?a = "acquired (PipeLock pi) s"
  have start: "pipewrite pi addr n s = pipewrite_from pi pr addr n 0 ?a"
    using assms(2) at(1,2) by (simp add: pipewrite_def)
  have same: "user_bytes root ?a va k = user_bytes root s va k" "user_pa root ?a = user_pa root s" for va k
    by (rule user_bytes_cong, simp) (rule user_pa_cong, simp)
  show ?thesis
    using pipewrite_from_ok [OF at_pipe_acquired [OF assms(1)] _ _ assms(2) at(1) refl, of addr n 0] False
    unfolding start same by auto
qed

text \<open>
  C28. piperead(pi, addr, n) delivers the oldest bytes of the pipe in order. With the pipe empty and
  a writer left it sleeps on &pi->nread, or returns -1 if the caller was killed. Otherwise bytes are
  taken from the front of the queue and stored at addr, addr+1, ..., sleeping writers are woken, and
  the call returns when n bytes are delivered or the queue is empty; if it meets an unmapped address
  it returns the number delivered before, and the byte it had already taken is lost.
\<close>

theorem piperead_delivers:
  assumes "at_pipe pi pr root lvl ps s" "free (PipeLock pi) s"
  shows "if pipe_bytes (pipe_at s pi) = [] \<and> writeopen (pipe_at s pi)
    then piperead pi addr n s =
      (if p_killed (proc s pr) \<noteq> 0 then Some (Returns (-1), settle s)
       else Some (Sleeps (PipeReadChan pi), acquired (PipeLock pi) s))
    else (\<exists>bs r s'. piperead pi addr n s = Some (Returns (int r), s') \<and> int r \<le> max 0 n \<and>
      pipe_bytes (pipe_at s pi) = bs @ pipe_bytes (pipe_at s' pi) \<and> pipe_ok (pipe_at s' pi) \<and>
      free (PipeLock pi) s' \<and> proc s' = woken {..<NPROC} (Some pr) (PipeWriteChan pi) (proc s) \<and>
      phys s' = phys (snd (user_store root addr (take r bs) s)) \<and>
      (r = length bs \<and> (int r = max 0 n \<or> pipe_bytes (pipe_at s' pi) = []) \<or>
       Suc r = length bs \<and> user_pa root s (addr + of_nat r) = None))"
proof -
  note at = at_pipeD [OF assms(1)]
  let ?a = "acquired (PipeLock pi) s"
  have start: "piperead pi addr n s = piperead_from pi pr addr n ?a"
    using assms(2) at(1,2) by (simp add: piperead_def)
  show ?thesis
  proof (cases "pipe_bytes (pipe_at s pi) = [] \<and> writeopen (pipe_at s pi)")
    case True
    have "killed pr ?a = Some (p_killed (proc s pr), ?a)" using at(1,3) by (simp add: killed_eq)
    then show ?thesis using True assms(2) at(1) unfolding start by (auto simp: piperead_from_def pipe_empty_iff)
  next
    case False
    obtain bs j m p where l: "piperead_loop pi pr addr n 0 ?a = Some (j, upd_pipe pi (\<lambda>_. p) (?a\<lparr>phys := m\<rparr>))"
      "int j \<le> max 0 n" "pipe_ok p" "pipe_bytes (pipe_at s pi) = bs @ pipe_bytes p"
      "read_end root addr n 0 j bs (pipe_bytes p) ?a"
      "m = phys (snd (user_store root addr (take j bs) ?a))"
      "at_pipe pi pr root lvl ps (upd_pipe pi (\<lambda>_. p) (?a\<lparr>phys := m\<rparr>))"
      using piperead_loop_ok [OF at_pipe_acquired [OF assms(1)], of addr n 0] by auto
    let ?u = "upd_pipe pi (\<lambda>_. p) (?a\<lparr>phys := m\<rparr>)"
    let ?w = "woken {..<NPROC} (Some pr) (PipeWriteChan pi) (proc s)"
    have "wakeup (PipeWriteChan pi) ?u = Some (?u\<lparr>proc := ?w\<rparr>)"
      using wakeup_eq [OF at_pipeD(1,4) [OF l(7)], of "PipeWriteChan pi"] at(1,2) by (simp add: upd_pipe_def)
    moreover have "release (PipeLock pi) (?u\<lparr>proc := ?w\<rparr>) = Some (upd_pipe pi (\<lambda>_. p) ((settle s)\<lparr>phys := m\<rparr>)\<lparr>proc := ?w\<rparr>)"
      using assms(2) at(1) by (simp add: upd_pipe_def)
    ultimately have "piperead pi addr n s = Some (Returns (int j), upd_pipe pi (\<lambda>_. p) ((settle s)\<lparr>phys := m\<rparr>)\<lparr>proc := ?w\<rparr>)"
      using False l(1) unfolding start by (auto simp: piperead_from_def pipe_empty_iff)
    moreover have "m = phys (snd (user_store root addr (take j bs) s))"
      unfolding l(6) by (rule user_store_cong) simp
    moreover have "user_pa root ?a = user_pa root s" by (rule user_pa_cong) simp
    ultimately show ?thesis
      using False l(2-5) assms(2) by (auto simp: read_end_def upd_pipe_def intro!: exI [of _ bs])
  qed
qed

text \<open>
  C29. A pipe is first-in first-out. Whatever the order in which bytes are put into the ring and
  taken out of it, and however often the 32-bit counters wrap around, the bytes that came out
  followed by those still in the ring are those that were in the ring followed by those put in.
\<close>

theorem pipe_stream:
  assumes "pipe_ok p" "fifo_run pipe_room pipe_bytes pipe_put pipe_get ops p = (ins, outs, q)"
  shows "pipe_bytes p @ ins = outs @ pipe_bytes q \<and> length (pipe_bytes q) \<le> PIPESIZE"
  using pipe_fifo.stream [OF assms] by (auto simp: pipe_ok_def pipe_bytes_def)

section \<open>A concrete pipe\<close>

text \<open>An empty pipe at address 0x80200000 whose counters are about to wrap around.\<close>

definition empty_pipe :: pipe where
  "empty_pipe = \<lparr>data = (\<lambda>_. 0), nread = 0xFFFFFFFF, nwrite = 0xFFFFFFFF, readopen = True, writeopen = True\<rparr>"

definition pisample :: pipes where
  "pisample = procs.extend psample (pipes.fields (\<lambda>_. empty_pipe))"

lemma pisample_fields [simp]:
  "hart pisample = hart psample" "cpus pisample = cpus psample" "spin pisample = spin psample"
  "phys pisample = phys psample" "kend pisample = kend psample" "freelist pisample = freelist psample"
  "proc pisample = proc psample" "cpu_proc pisample = cpu_proc psample" "pipe_at pisample = (\<lambda>_. empty_pipe)"
  by (simp_all add: pisample_def procs.defs pipes.defs)

lemma pisample_ok [simp]: "cpu_ok pisample" "free lk pisample"
  using psample_fields(2) psample_fields(3) [of lk] by (simp_all add: cpu_ok_def free_def mycpu_def)

lemma pisample_at_pipe: "at_pipe 0x80200000 0 0x80100000 sample_lvl [0x80104000, 0x80105000, 0x80106000] pisample"
proof -
  have same: "phys pisample = phys sample" "kend pisample = kend sample" "freelist pisample = freelist sample"
    by (simp_all add: psample_def sample_def)
  show ?thesis
    using vm_inv_cong [OF sample_vm_inv, of pisample] user_sep_cong [OF sample_user_sep, of pisample] same
    by (simp add: at_pipe_def psample_procs_def idle_proc_def pipe_ok_def empty_pipe_def)
qed

lemma pisample_user_pa: "user_pa 0x80100000 pisample 0x10 = Some 0x80103010" "user_pa 0x80100000 pisample 0x11 = Some 0x80103011"
proof -
  have "user_pa 0x80100000 pisample = user_pa 0x80100000 sample"
    by (rule user_pa_cong) (simp add: psample_def sample_def)
  then show "user_pa 0x80100000 pisample 0x10 = Some 0x80103010" "user_pa 0x80100000 pisample 0x11 = Some 0x80103011"
    using sample_user_pa by simp_all
qed

theorem pipewrite_appends_witness:
  "\<exists>bs b s'. pipewrite 0x80200000 0x10 2 pisample = Some (length bs, b, s') \<and>
     pipe_bytes (pipe_at s' 0x80200000) = bs \<and> proc s' = woken {..<NPROC} (Some 0) (PipeReadChan 0x80200000) psample_procs"
proof -
  have "pipe_bytes empty_pipe = []" by (simp add: pipe_empty_iff empty_pipe_def)
  then show ?thesis
    using pipewrite_appends [OF pisample_at_pipe, of 2 "0x10"]
    by (fastforce simp: psample_procs_def idle_proc_def empty_pipe_def)
qed

theorem piperead_delivers_witness:
  "\<exists>s'. piperead 0x80200000 0x10 2 (upd_pipe 0x80200000 (pipe_put 7) pisample) = Some (Returns 1, s') \<and>
     pipe_bytes (pipe_at s' 0x80200000) = []"
proof -
  let ?s = "upd_pipe 0x80200000 (pipe_put 7) pisample"
  have e: "pipe_ok empty_pipe" "pipe_room empty_pipe" "pipe_bytes empty_pipe = []"
    by (simp_all add: pipe_ok_def pipe_room_def pipe_empty_iff empty_pipe_def PIPESIZE_def)
  note p = pipe_put_ok [OF e(1,2), of 7, unfolded e(3)]
  have at: "at_pipe 0x80200000 0 0x80100000 sample_lvl [0x80104000, 0x80105000, 0x80106000] ?s"
    using pisample_at_pipe p(1) by (intro at_pipe_upd) auto
  have f: "free (PipeLock 0x80200000) ?s" by (simp add: upd_pipe_def)
  have ua: "user_pa 0x80100000 ?s 0x10 \<noteq> None"
    using user_pa_cong [of ?s pisample "0x80100000"] pisample_user_pa(1) by simp
  obtain bs r s' where r: "piperead 0x80200000 0x10 2 ?s = Some (Returns (int r), s')"
    "[7] = bs @ pipe_bytes (pipe_at s' 0x80200000)"
    "r = length bs \<and> (int r = 2 \<or> pipe_bytes (pipe_at s' 0x80200000) = []) \<or>
     Suc r = length bs \<and> user_pa 0x80100000 ?s (0x10 + of_nat r) = None"
    using piperead_delivers [OF at f, of "0x10" 2] p(2) by auto
  have "length bs \<le> 1" using arg_cong [OF r(2), of length] by simp
  with r(2,3) ua have "r = 1 \<and> pipe_bytes (pipe_at s' 0x80200000) = []" by (cases bs) auto
  with r(1) show ?thesis by auto
qed

theorem pipe_stream_witness:
  "\<exists>q. fifo_run pipe_room pipe_bytes pipe_put pipe_get [Put 7, Put 8, Get, Put 9] empty_pipe = ([7, 8, 9], [7], q) \<and>
     pipe_bytes q = [8, 9]"
proof -
  have ok: "pipe_ok empty_pipe" "pipe_bytes empty_pipe = []"
    by (simp_all add: pipe_ok_def pipe_empty_iff empty_pipe_def)
  let ?run = "fifo_run pipe_room pipe_bytes pipe_put pipe_get [Put 7, Put 8, Get, Put 9] empty_pipe"
  obtain q where q: "?run = ([7, 8, 9], [7], q)"
    by (simp add: pipe_empty_iff pipe_room_def pipe_put_def pipe_get_def empty_pipe_def PIPESIZE_def)
  from pipe_stream [OF ok(1) q] ok(2) q show ?thesis by auto
qed

end
