(* ===== verification/Uart.thy ===== *)
theory Uart
  imports Pipe
begin

text \<open>
  kernel/uart.c (without its interrupt handler, which is in Console) and \<open>consputc\<close> of console.c.
  The UART itself is a parameter of the state: \<open>u_env n reg\<close> is what the \<open>n\<close>-th read of a device
  register returns, and \<open>u_trace\<close> collects the register writes. The state also holds the globals of
  printf.c and the input buffer of console.c.
\<close>

section \<open>State\<close>

definition RHR :: nat where "RHR = 0"
definition THR :: nat where "THR = 0"
definition IER :: nat where "IER = 1"
definition IER_RX_ENABLE :: uchar where "IER_RX_ENABLE = push_bit 0 1"
definition IER_TX_ENABLE :: uchar where "IER_TX_ENABLE = push_bit 1 1"
definition FCR :: nat where "FCR = 2"
definition FCR_FIFO_ENABLE :: uchar where "FCR_FIFO_ENABLE = push_bit 0 1"
definition FCR_FIFO_CLEAR :: uchar where "FCR_FIFO_CLEAR = push_bit 1 3"
definition LCR :: nat where "LCR = 3"
definition LCR_EIGHT_BITS :: uchar where "LCR_EIGHT_BITS = push_bit 0 3"
definition LCR_BAUD_LATCH :: uchar where "LCR_BAUD_LATCH = push_bit 7 1"
definition LSR :: nat where "LSR = 5"
definition LSR_TX_IDLE :: uchar where "LSR_TX_IDLE = push_bit 5 1"
definition UART_TX_BUF_SIZE :: nat where "UART_TX_BUF_SIZE = 32"

record uart =
  u_env :: "nat \<Rightarrow> nat \<Rightarrow> uchar"
  u_reads :: nat
  u_trace :: "(nat \<times> uchar) list"
  uart_tx_buf :: "nat \<Rightarrow> uchar"
  uart_tx_w :: uint64
  uart_tx_r :: uint64

record cons =
  cons_buf :: "nat \<Rightarrow> uchar"
  cons_r :: uint
  cons_w :: uint
  cons_e :: uint

record devs = pipes +
  uart_st :: uart
  cons_st :: cons
  panicked :: bool
  pr_locking :: bool

definition ReadReg :: "nat \<Rightarrow> 'a devs_scheme \<Rightarrow> uchar \<times> 'a devs_scheme" where
  "ReadReg reg s = (u_env (uart_st s) (u_reads (uart_st s)) reg,
     s\<lparr>uart_st := (uart_st s)\<lparr>u_reads := u_reads (uart_st s) + 1\<rparr>\<rparr>)"

definition WriteReg :: "nat \<Rightarrow> uchar \<Rightarrow> 'a devs_scheme \<Rightarrow> 'a devs_scheme" where
  "WriteReg reg v s = s\<lparr>uart_st := (uart_st s)\<lparr>u_trace := u_trace (uart_st s) @ [(reg, v)]\<rparr>\<rparr>"

section \<open>Operations\<close>

definition uartinit :: "'a devs_scheme \<Rightarrow> 'a devs_scheme" where
  "uartinit s =
     (let s = WriteReg IER 0 s;
          s = WriteReg LCR LCR_BAUD_LATCH s;
          s = WriteReg 0 3 s;
          s = WriteReg 1 0 s;
          s = WriteReg LCR LCR_EIGHT_BITS s;
          s = WriteReg FCR (FCR_FIFO_ENABLE OR FCR_FIFO_CLEAR) s;
          s = WriteReg IER (IER_TX_ENABLE OR IER_RX_ENABLE) s
      in initlock UartLock ''uart'' s)"

text \<open>\<open>uart_tx_buf[uart_tx_w % UART_TX_BUF_SIZE] = c; uart_tx_w += 1\<close> and the statements that take a byte out.\<close>

definition tx_put :: "uchar \<Rightarrow> uart \<Rightarrow> uart" where
  "tx_put c u = u\<lparr>uart_tx_buf := (uart_tx_buf u)(unat (uart_tx_w u) mod UART_TX_BUF_SIZE := c),
     uart_tx_w := uart_tx_w u + 1\<rparr>"

definition tx_get :: "uart \<Rightarrow> uchar \<times> uart" where
  "tx_get u = (uart_tx_buf u (unat (uart_tx_r u) mod UART_TX_BUF_SIZE), u\<lparr>uart_tx_r := uart_tx_r u + 1\<rparr>)"

partial_function (option) uartstart :: "'a devs_scheme \<Rightarrow> 'a devs_scheme option" where
  "uartstart s =
     (if uart_tx_w (uart_st s) = uart_tx_r (uart_st s) then Some s
      else do {
        let (v, s) = ReadReg LSR s;
        if v AND LSR_TX_IDLE = 0 then Some s
        else do {
          let (c, u) = tx_get (uart_st s);
          let s = s\<lparr>uart_st := u\<rparr>;
          s \<leftarrow> wakeup UartChan s;
          let s = WriteReg THR c s;
          uartstart s
        }
      })"

text \<open>\<open>uartputc\<close> from the loop on, with the lock held: this is what runs again after a sleep.\<close>

definition uartputc_from :: "uchar \<Rightarrow> 'a devs_scheme \<Rightarrow> (unit blocking \<times> 'a devs_scheme) option" where
  "uartputc_from c s =
     (if uart_tx_w (uart_st s) = uart_tx_r (uart_st s) + of_nat UART_TX_BUF_SIZE then Some (Sleeps UartChan, s)
      else do {
        let s = s\<lparr>uart_st := tx_put c (uart_st s)\<rparr>;
        s \<leftarrow> uartstart s;
        s \<leftarrow> release UartLock s;
        Some (Returns (), s)
      })"

definition uartputc :: "uchar \<Rightarrow> 'a devs_scheme \<Rightarrow> (unit blocking \<times> 'a devs_scheme) option" where
  "uartputc c s = do {
     s \<leftarrow> acquire UartLock s;
     if panicked s then None else uartputc_from c s
   }"

partial_function (option) wait_idle :: "'a devs_scheme \<Rightarrow> 'a devs_scheme option" where
  "wait_idle s = do {
     let (v, s) = ReadReg LSR s;
     if v AND LSR_TX_IDLE = 0 then wait_idle s else Some s
   }"

definition uartputc_sync :: "uchar \<Rightarrow> 'a devs_scheme \<Rightarrow> 'a devs_scheme option" where
  "uartputc_sync c s = do {
     let s = push_off s;
     if panicked s then None
     else do {
       s \<leftarrow> wait_idle s;
       let s = WriteReg THR c s;
       pop_off s
     }
   }"

definition uartgetc :: "'a devs_scheme \<Rightarrow> int \<times> 'a devs_scheme" where
  "uartgetc s =
     (let (v, s) = ReadReg LSR s in
      if v AND 1 \<noteq> 0 then let (c, s) = ReadReg RHR s in (uint c, s)
      else (-1, s))"

definition BACKSPACE :: int where "BACKSPACE = 0x100"

definition consputc :: "int \<Rightarrow> 'a devs_scheme \<Rightarrow> 'a devs_scheme option" where
  "consputc c s =
     (if c = BACKSPACE then do {
        s \<leftarrow> uartputc_sync 8 s;
        s \<leftarrow> uartputc_sync 32 s;
        uartputc_sync 8 s
      } else uartputc_sync (of_int c) s)"

section \<open>Frame rules\<close>

lemma uart_st_frame [simp]:
  "release lk (uart_st_update f s) = map_option (uart_st_update f) (release lk s)"
  "acquired lk (uart_st_update f s) = uart_st_update f (acquired lk s)"
  "settle (uart_st_update f s) = uart_st_update f (settle s)" "push_off (uart_st_update f s) = uart_st_update f (push_off s)"
  "free lk (uart_st_update f s) = free lk s" "cpu_ok (uart_st_update f s) = cpu_ok s"
  "uart_st (acquired lk s) = uart_st s" "uart_st (settle s) = uart_st s" "uart_st (push_off s) = uart_st s"
  "mycpu (uart_st_update f s) = mycpu s" "holding lk (uart_st_update f s) = holding lk s"
  by (simp_all add: lock_forms)

lemma cons_st_frame [simp]:
  "release lk (cons_st_update f s) = map_option (cons_st_update f) (release lk s)"
  "acquired lk (cons_st_update f s) = cons_st_update f (acquired lk s)"
  "settle (cons_st_update f s) = cons_st_update f (settle s)" "push_off (cons_st_update f s) = cons_st_update f (push_off s)"
  "free lk (cons_st_update f s) = free lk s" "cpu_ok (cons_st_update f s) = cpu_ok s"
  "cons_st (acquired lk s) = cons_st s" "cons_st (settle s) = cons_st s" "cons_st (push_off s) = cons_st s"
  "mycpu (cons_st_update f s) = mycpu s" "holding lk (cons_st_update f s) = holding lk s"
  by (simp_all add: lock_forms)

lemma panicked_frame [simp]:
  "release lk (panicked_update f s) = map_option (panicked_update f) (release lk s)"
  "acquired lk (panicked_update f s) = panicked_update f (acquired lk s)"
  "settle (panicked_update f s) = panicked_update f (settle s)" "push_off (panicked_update f s) = panicked_update f (push_off s)"
  "free lk (panicked_update f s) = free lk s" "cpu_ok (panicked_update f s) = cpu_ok s"
  "panicked (acquired lk s) = panicked s" "panicked (settle s) = panicked s" "panicked (push_off s) = panicked s"
  "mycpu (panicked_update f s) = mycpu s" "holding lk (panicked_update f s) = holding lk s"
  by (simp_all add: lock_forms)

lemma pr_locking_frame [simp]:
  "release lk (pr_locking_update f s) = map_option (pr_locking_update f) (release lk s)"
  "acquired lk (pr_locking_update f s) = pr_locking_update f (acquired lk s)"
  "settle (pr_locking_update f s) = pr_locking_update f (settle s)" "push_off (pr_locking_update f s) = pr_locking_update f (push_off s)"
  "free lk (pr_locking_update f s) = free lk s" "cpu_ok (pr_locking_update f s) = cpu_ok s"
  "pr_locking (acquired lk s) = pr_locking s" "pr_locking (settle s) = pr_locking s" "pr_locking (push_off s) = pr_locking s"
  "mycpu (pr_locking_update f s) = mycpu s" "holding lk (pr_locking_update f s) = holding lk s"
  by (simp_all add: lock_forms)

section \<open>The transmit buffer\<close>

definition tx_bytes :: "uart \<Rightarrow> uchar list" where
  "tx_bytes u = ring_list UART_TX_BUF_SIZE (uart_tx_buf u) (uart_tx_r u) (uart_tx_w u)"

definition tx_ok :: "uart \<Rightarrow> bool" where
  "tx_ok u \<longleftrightarrow> unat (uart_tx_w u - uart_tx_r u) \<le> UART_TX_BUF_SIZE"

definition tx_room :: "uart \<Rightarrow> bool" where
  "tx_room u \<longleftrightarrow> uart_tx_w u \<noteq> uart_tx_r u + of_nat UART_TX_BUF_SIZE"

lemma tx_ring_size: "ring_size UART_TX_BUF_SIZE TYPE(64)"
  by (simp add: ring_size_def UART_TX_BUF_SIZE_def)

lemma tx_room_iff: "tx_ok u \<Longrightarrow> tx_room u \<longleftrightarrow> unat (uart_tx_w u - uart_tx_r u) < UART_TX_BUF_SIZE"
  using ring_full_iff [OF tx_ring_size, of "uart_tx_w u" "uart_tx_r u"] by (auto simp: tx_room_def tx_ok_def)

lemma tx_put_ok:
  assumes "tx_ok u" "tx_room u"
  shows "tx_ok (tx_put c u)" "tx_bytes (tx_put c u) = tx_bytes u @ [c]"
proof -
  have l: "unat (uart_tx_w u - uart_tx_r u) < UART_TX_BUF_SIZE" using assms tx_room_iff by simp
  show b: "tx_bytes (tx_put c u) = tx_bytes u @ [c]"
    using ring_put [OF tx_ring_size l] by (simp add: tx_bytes_def tx_put_def)
  show "tx_ok (tx_put c u)"
    using arg_cong [OF b, of length] l by (simp add: tx_ok_def tx_bytes_def tx_put_def)
qed

lemma tx_empty_iff: "tx_bytes u = [] \<longleftrightarrow> uart_tx_r u = uart_tx_w u"
  by (simp add: tx_bytes_def ring_list_empty_iff)

lemma tx_get_ok:
  assumes "tx_ok u" "tx_bytes u \<noteq> []" "tx_get u = (c, v)"
  shows "tx_ok v" "tx_bytes u = c # tx_bytes v"
proof -
  have ne: "uart_tx_r u \<noteq> uart_tx_w u" using assms(2) by (simp add: tx_empty_iff)
  show b: "tx_bytes u = c # tx_bytes v"
    using ring_get [OF ne] assms(3) by (auto simp: tx_bytes_def tx_get_def)
  show "tx_ok v"
    using arg_cong [OF b, of length] assms(1,3) by (auto simp: tx_ok_def tx_bytes_def tx_get_def)
qed

interpretation tx_fifo: fifo tx_ok tx_room tx_bytes tx_put tx_get
  by unfold_locales (simp_all add: tx_put_ok, blast intro: tx_get_ok, blast dest: tx_get_ok)

section \<open>Sending from the buffer\<close>

definition busy_last :: "uart \<Rightarrow> bool" where
  "busy_last u \<longleftrightarrow> 0 < u_reads u \<and> u_env u (u_reads u - 1) LSR AND LSR_TX_IDLE = 0"

lemma woken_again [simp]: "woken A me ch (woken A me ch pr) = woken A me ch pr"
  by (auto simp: woken_def fun_eq_iff)

text \<open>\<open>sent outs s s'\<close>: the driver has moved \<open>outs\<close> from the buffer to the device.\<close>

definition sent :: "uchar list \<Rightarrow> 'a devs_scheme \<Rightarrow> 'a devs_scheme \<Rightarrow> bool" where
  "sent outs s s' \<longleftrightarrow> settle s' = (settle s)\<lparr>uart_st := uart_st s', proc := proc s'\<rparr> \<and>
     tx_ok (uart_st s') \<and> tx_bytes (uart_st s) = outs @ tx_bytes (uart_st s') \<and>
     u_trace (uart_st s') = u_trace (uart_st s) @ map (Pair THR) outs \<and> u_env (uart_st s') = u_env (uart_st s) \<and>
     proc s' = (if outs = [] then proc s else woken {..<NPROC} (cpu_proc s (hart s)) UartChan (proc s))"

lemma sentD:
  assumes "sent outs s s'"
  shows "settle s' = (settle s)\<lparr>uart_st := uart_st s', proc := proc s'\<rparr>" "tx_ok (uart_st s')"
    "tx_bytes (uart_st s) = outs @ tx_bytes (uart_st s')"
    "u_trace (uart_st s') = u_trace (uart_st s) @ map (Pair THR) outs" "u_env (uart_st s') = u_env (uart_st s)"
    "proc s' = (if outs = [] then proc s else woken {..<NPROC} (cpu_proc s (hart s)) UartChan (proc s))"
  using assms unfolding sent_def by blast+

lemma uartstart_ok:
  assumes "cpu_ok s" "others_free s" "tx_ok (uart_st s)"
  shows "\<exists>outs s'. uartstart s = Some s' \<and> sent outs s s' \<and> (tx_bytes (uart_st s') = [] \<or> busy_last (uart_st s'))"
  using assms
proof (induction "length (tx_bytes (uart_st s))" arbitrary: s)
  case 0
  then have "uartstart s = Some s" by (simp add: uartstart.simps tx_empty_iff)
  then show ?case using 0 by (intro exI [of _ "[]"]) (simp add: sent_def settle_form)
next
  case (Suc n)
  define u where "u = (uart_st s)\<lparr>u_reads := Suc (u_reads (uart_st s))\<rparr>"
  have ne: "uart_tx_w (uart_st s) \<noteq> uart_tx_r (uart_st s)" "tx_bytes u = tx_bytes (uart_st s)" "tx_ok u" "tx_bytes u \<noteq> []"
    using Suc.hyps(2) Suc.prems(3) by (auto simp: u_def tx_bytes_def tx_ok_def ring_list_empty_iff)
  show ?case
  proof (cases "u_env (uart_st s) (u_reads (uart_st s)) LSR AND LSR_TX_IDLE = 0")
    case True
    then have "uartstart s = Some (s\<lparr>uart_st := u\<rparr>)"
      using ne(1) by (simp add: uartstart.simps [of s] ReadReg_def u_def)
    moreover have "busy_last u" using True by (simp add: busy_last_def u_def)
    ultimately show ?thesis
      using ne by (intro exI [of _ "[]"]) (auto simp: sent_def u_def settle_form)
  next
    case False
    obtain c v where g: "tx_get u = (c, v)" by fastforce
    have v: "tx_ok v" "tx_bytes u = c # tx_bytes v" using tx_get_ok [OF ne(3) ne(4) g] by auto
    have vf: "u_trace v = u_trace (uart_st s)" "u_env v = u_env (uart_st s)" using g by (auto simp: tx_get_def u_def)
    define me where "me = cpu_proc s (hart s)"
    define t where "t = (settle s)\<lparr>proc := woken {..<NPROC} me UartChan (proc s), uart_st := v\<lparr>u_trace := u_trace v @ [(THR, c)]\<rparr>\<rparr>"
    have w: "wakeup UartChan (s\<lparr>uart_st := v\<rparr>) =
        Some ((settle s)\<lparr>uart_st := v, proc := woken {..<NPROC} me UartChan (proc s)\<rparr>)"
      using wakeup_eq [of "s\<lparr>uart_st := v\<rparr>" UartChan] Suc.prems(1,2) by (simp add: others_free_def me_def)
    have step: "uartstart s = uartstart t"
      using ne(1) False g w by (simp add: uartstart.simps [of s] ReadReg_def u_def [symmetric] WriteReg_def t_def)
    have tt: "tx_bytes (uart_st t) = tx_bytes v" "tx_ok (uart_st t)" using v by (simp_all add: t_def tx_bytes_def tx_ok_def)
    obtain outs s' where ih: "uartstart t = Some s'" "sent outs t s'"
      "tx_bytes (uart_st s') = [] \<or> busy_last (uart_st s')"
      using Suc.hyps(1) [of t] Suc.hyps(2) Suc.prems(1,2) tt v(2) ne(2)
      by (auto simp: t_def others_free_def)
    note sd = sentD [OF ih(2)]
    have "settle s' = (settle s)\<lparr>uart_st := uart_st s', proc := proc s'\<rparr>"
      by (subst sd(1)) (simp add: t_def)
    moreover have "proc s' = woken {..<NPROC} me UartChan (proc s)"
      unfolding sd(6) by (simp add: t_def me_def)
    moreover have "tx_bytes (uart_st s) = c # outs @ tx_bytes (uart_st s')"
      using sd(3) v(2) ne(2) tt(1) by simp
    moreover have "u_trace (uart_st s') = u_trace (uart_st s) @ (THR, c) # map (Pair THR) outs"
      "u_env (uart_st s') = u_env (uart_st s)"
      using sd(4,5) vf by (simp_all add: t_def)
    ultimately have "sent (c # outs) s s'" using sd(2) unfolding sent_def by (simp add: me_def)
    with step ih(1,3) show ?thesis by (intro exI [of _ "c # outs"] exI [of _ s']) simp
  qed
qed

text \<open>
  C31. The UART driver sends characters in order and loses none. uartputc(c) sleeps when its 32-byte
  buffer is full. Otherwise it returns with the lock free; the bytes given to the device since,
  followed by those left in the buffer, are the bytes that were in the buffer followed by c; the
  driver stops handing over bytes only when the buffer is empty or the device is busy.
\<close>

theorem uartputc_in_order:
  assumes "cpu_ok s" "others_free s" "free UartLock s" "tx_ok (uart_st s)" "\<not> panicked s"
  shows "if length (tx_bytes (uart_st s)) = UART_TX_BUF_SIZE
    then uartputc c s = Some (Sleeps UartChan, acquired UartLock s)
    else (\<exists>outs s'. uartputc c s = Some (Returns (), s') \<and> free UartLock s' \<and>
      u_trace (uart_st s') = u_trace (uart_st s) @ map (Pair THR) outs \<and>
      tx_bytes (uart_st s) @ [c] = outs @ tx_bytes (uart_st s') \<and> tx_ok (uart_st s') \<and>
      (tx_bytes (uart_st s') = [] \<or> busy_last (uart_st s')))"
proof -
  let ?u = "uart_st s"
  have full: "length (tx_bytes ?u) = UART_TX_BUF_SIZE \<longleftrightarrow> \<not> tx_room ?u"
    using tx_room_iff [OF assms(4)] assms(4) by (auto simp: tx_bytes_def tx_ok_def)
  show ?thesis
  proof (cases "tx_room ?u")
    case False
    then show ?thesis using full assms(1,3,5) by (simp add: uartputc_def uartputc_from_def tx_room_def)
  next
    case True
    define a where "a = (acquired UartLock s)\<lparr>uart_st := tx_put c ?u\<rparr>"
    have put: "tx_ok (uart_st a)" "tx_bytes (uart_st a) = tx_bytes ?u @ [c]" "u_trace (uart_st a) = u_trace ?u"
      using tx_put_ok [OF assms(4) True, of c] by (simp_all add: a_def tx_put_def)
    have "cpu_ok a" "others_free a" using assms(1,2) by (auto simp: a_def others_free_def)
    then obtain outs s' where st: "uartstart a = Some s'" "sent outs a s'"
      "tx_bytes (uart_st s') = [] \<or> busy_last (uart_st s')"
      using uartstart_ok [of a] put(1) by blast
    have "settle s' = (acquired UartLock s)\<lparr>uart_st := uart_st s', proc := proc s'\<rparr>"
      using sentD(1) [OF st(2)] assms(1) by (simp add: a_def)
    then have "s' = (acquired UartLock s)\<lparr>uart_st := uart_st s', proc := proc s'\<rparr>"
      by (rule settle_inside) (simp add: assms(1))
    then have "release UartLock s' = release UartLock ((acquired UartLock s)\<lparr>uart_st := uart_st s', proc := proc s'\<rparr>)"
      by (rule arg_cong)
    then have r: "release UartLock s' = Some ((settle s)\<lparr>uart_st := uart_st s', proc := proc s'\<rparr>)"
      using assms(1,3) by simp
    have "uartputc c s = Some (Returns (), (settle s)\<lparr>uart_st := uart_st s', proc := proc s'\<rparr>)"
      using True assms(3,5) st(1) r by (simp add: uartputc_def uartputc_from_def tx_room_def a_def)
    moreover have "free UartLock ((settle s)\<lparr>uart_st := uart_st s', proc := proc s'\<rparr>)"
      "uart_st ((settle s)\<lparr>uart_st := uart_st s', proc := proc s'\<rparr>) = uart_st s'"
      using assms(3) by simp_all
    moreover have "tx_bytes ?u @ [c] = outs @ tx_bytes (uart_st s')" "tx_ok (uart_st s')"
      "u_trace (uart_st s') = u_trace ?u @ map (Pair THR) outs"
      using sentD(2-4) [OF st(2)] put(2,3) by simp_all
    ultimately have "\<exists>outs s'. uartputc c s = Some (Returns (), s') \<and> free UartLock s' \<and>
      u_trace (uart_st s') = u_trace ?u @ map (Pair THR) outs \<and>
      tx_bytes ?u @ [c] = outs @ tx_bytes (uart_st s') \<and> tx_ok (uart_st s') \<and>
      (tx_bytes (uart_st s') = [] \<or> busy_last (uart_st s'))"
      using st(3) by metis
    then show ?thesis using True unfolding full by (simp only: if_False not_True_eq_False)
  qed
qed

section \<open>Polled output\<close>

definition idle_at :: "uart \<Rightarrow> nat \<Rightarrow> bool" where
  "idle_at u n \<longleftrightarrow> u_env u n LSR AND LSR_TX_IDLE \<noteq> 0"

text \<open>A device that is not busy for ever.\<close>

definition ready_dev :: "uart \<Rightarrow> bool" where
  "ready_dev u \<longleftrightarrow> (\<forall>n. \<exists>m\<ge>n. idle_at u m)"

lemma wait_idle_upto:
  assumes "idle_at (uart_st s) (u_reads (uart_st s) + k)" "\<forall>j<k. \<not> idle_at (uart_st s) (u_reads (uart_st s) + j)"
  shows "wait_idle s = Some (s\<lparr>uart_st := (uart_st s)\<lparr>u_reads := u_reads (uart_st s) + k + 1\<rparr>\<rparr>)"
  using assms
proof (induction k arbitrary: s)
  case 0
  then show ?case by (simp add: wait_idle.simps [of s] ReadReg_def idle_at_def)
next
  case (Suc k)
  define t where "t = s\<lparr>uart_st := (uart_st s)\<lparr>u_reads := Suc (u_reads (uart_st s))\<rparr>\<rparr>"
  have "wait_idle s = wait_idle t"
    using Suc.prems(2) [rule_format, of 0] by (simp add: wait_idle.simps [of s] ReadReg_def idle_at_def t_def)
  also have "\<dots> = Some (t\<lparr>uart_st := (uart_st t)\<lparr>u_reads := u_reads (uart_st t) + k + 1\<rparr>\<rparr>)"
    using Suc.prems by (intro Suc.IH) (auto simp: t_def idle_at_def)
  finally show ?case by (simp add: t_def)
qed

lemma wait_idle_ok:
  assumes "ready_dev (uart_st s)"
  shows "\<exists>n. wait_idle s = Some (s\<lparr>uart_st := (uart_st s)\<lparr>u_reads := n\<rparr>\<rparr>)"
proof -
  let ?P = "\<lambda>k. idle_at (uart_st s) (u_reads (uart_st s) + k)"
  obtain m where "m \<ge> u_reads (uart_st s)" "idle_at (uart_st s) m"
    using assms unfolding ready_dev_def by blast
  then have "?P (m - u_reads (uart_st s))" by simp
  then have "?P (LEAST k. ?P k)" "\<forall>j<(LEAST k. ?P k). \<not> ?P j" by (rule LeastI, auto dest: not_less_Least)
  from wait_idle_upto [OF this] show ?thesis by blast
qed

text \<open>\<open>emitted cs s s'\<close>: the bytes \<open>cs\<close> were given to the device, nothing else happened.\<close>

definition emitted :: "uchar list \<Rightarrow> 'a devs_scheme \<Rightarrow> 'a devs_scheme \<Rightarrow> bool" where
  "emitted cs s s' \<longleftrightarrow> (\<exists>n. s' = (if cs = [] then s else settle s)\<lparr>uart_st := (uart_st s)\<lparr>u_reads := n,
     u_trace := u_trace (uart_st s) @ map (Pair THR) cs\<rparr>\<rparr>)"

definition can_emit :: "'a devs_scheme \<Rightarrow> bool" where
  "can_emit s \<longleftrightarrow> cpu_ok s \<and> ready_dev (uart_st s) \<and> \<not> panicked s"

lemma emitted_Nil [simp]: "emitted [] s s"
  unfolding emitted_def by (rule exI [of _ "u_reads (uart_st s)"]) simp

lemma emitted_append:
  assumes "emitted xs s t" "emitted ys t u"
  shows "emitted (xs @ ys) s u"
proof -
  obtain n where t: "t = (if xs = [] then s else settle s)\<lparr>uart_st := (uart_st s)\<lparr>u_reads := n,
      u_trace := u_trace (uart_st s) @ map (Pair THR) xs\<rparr>\<rparr>"
    using assms(1) unfolding emitted_def by blast
  obtain m where u: "u = (if ys = [] then t else settle t)\<lparr>uart_st := (uart_st t)\<lparr>u_reads := m,
      u_trace := u_trace (uart_st t) @ map (Pair THR) ys\<rparr>\<rparr>"
    using assms(2) unfolding emitted_def by blast
  show ?thesis
    unfolding emitted_def by (rule exI [of _ m]) (simp add: u t)
qed

lemma emitted_can:
  assumes "emitted cs s t" "can_emit s"
  shows "can_emit t"
proof -
  obtain n where t: "t = (if cs = [] then s else settle s)\<lparr>uart_st := (uart_st s)\<lparr>u_reads := n,
      u_trace := u_trace (uart_st s) @ map (Pair THR) cs\<rparr>\<rparr>"
    using assms(1) unfolding emitted_def by blast
  show ?thesis using assms(2) by (simp add: t can_emit_def ready_dev_def idle_at_def)
qed

lemma uartputc_sync_ok:
  assumes "can_emit s"
  shows "\<exists>t. uartputc_sync c s = Some t \<and> emitted [c] s t"
proof -
  have s: "cpu_ok s" "ready_dev (uart_st (push_off s))" "\<not> panicked (push_off s)" using assms by (auto simp: can_emit_def)
  obtain n where w: "wait_idle (push_off s) = Some ((push_off s)\<lparr>uart_st := (uart_st s)\<lparr>u_reads := n\<rparr>\<rparr>)"
    using wait_idle_ok [OF s(2)] by auto
  let ?u = "(push_off s)\<lparr>uart_st := (uart_st s)\<lparr>u_reads := n, u_trace := u_trace (uart_st s) @ [(THR, c)]\<rparr>\<rparr>"
  have "pop_off ?u = Some ((settle s)\<lparr>uart_st := (uart_st s)\<lparr>u_reads := n, u_trace := u_trace (uart_st s) @ [(THR, c)]\<rparr>\<rparr>)"
    using pop_off_push_off [OF s(1), of ?u] by (simp add: settle_form push_off_form)
  then have "uartputc_sync c s = Some ((settle s)\<lparr>uart_st := (uart_st s)\<lparr>u_reads := n, u_trace := u_trace (uart_st s) @ [(THR, c)]\<rparr>\<rparr>)"
    using w s(3) by (simp add: uartputc_sync_def WriteReg_def)
  then show ?thesis unfolding emitted_def by auto
qed

definition echo :: "int \<Rightarrow> uchar list" where
  "echo c = (if c = BACKSPACE then [8, 32, 8] else [of_int c])"

lemma consputc_ok:
  assumes "can_emit s"
  shows "\<exists>t. consputc c s = Some t \<and> emitted (echo c) s t"
proof (cases "c = BACKSPACE")
  case False
  then show ?thesis using uartputc_sync_ok [OF assms, of "of_int c"] by (simp add: consputc_def echo_def)
next
  case True
  obtain t where t: "uartputc_sync 8 s = Some t" "emitted [8] s t" using uartputc_sync_ok [OF assms] by blast
  obtain u where u: "uartputc_sync 32 t = Some u" "emitted [32] t u"
    using uartputc_sync_ok [OF emitted_can [OF t(2) assms]] by blast
  obtain v where v: "uartputc_sync 8 u = Some v" "emitted [8] u v"
    using uartputc_sync_ok [OF emitted_can [OF u(2) emitted_can [OF t(2) assms]]] by blast
  have "emitted ([8] @ [32] @ [8]) s v" using t(2) u(2) v(2) by (blast intro: emitted_append)
  then show ?thesis using True t(1) u(1) v(1) by (simp add: consputc_def echo_def)
qed

section \<open>A concrete device\<close>

text \<open>A UART that is idle at every second read, with an empty transmit buffer, under the sample pipe.\<close>

definition idle_uart :: uart where
  "idle_uart = \<lparr>u_env = (\<lambda>n reg. if reg = LSR \<and> even n then 32 else 0), u_reads = 0, u_trace = [],
     uart_tx_buf = (\<lambda>_. 0), uart_tx_w = 0xFFFFFFFFFFFFFFFF, uart_tx_r = 0xFFFFFFFFFFFFFFFF\<rparr>"

definition empty_cons :: cons where
  "empty_cons = \<lparr>cons_buf = (\<lambda>_. 0), cons_r = 0xFFFFFFFE, cons_w = 0xFFFFFFFE, cons_e = 0xFFFFFFFE\<rparr>"

definition dsample :: devs where
  "dsample = pipes.extend pisample (devs.fields idle_uart empty_cons False True)"

lemma dsample_fields [simp]:
  "hart dsample = hart psample" "cpus dsample = cpus psample" "spin dsample = spin psample"
  "phys dsample = phys psample" "kend dsample = kend psample" "freelist dsample = freelist psample"
  "proc dsample = proc psample" "cpu_proc dsample = cpu_proc psample" "pipe_at dsample = (\<lambda>_. empty_pipe)"
  "uart_st dsample = idle_uart" "cons_st dsample = empty_cons" "\<not> panicked dsample" "pr_locking dsample"
  using pisample_fields unfolding dsample_def by (simp_all add: pipes.defs devs.defs)

lemma dsample_ok [simp]: "cpu_ok dsample" "free lk dsample" "others_free dsample"
  using psample_fields(2) psample_fields(3) by (simp_all add: cpu_ok_def free_def mycpu_def others_free_def)

lemma dsample_can_emit [simp]: "can_emit dsample"
proof -
  have "\<exists>m\<ge>n. idle_at idle_uart m" for n
    by (rule exI [of _ "2 * n"]) (simp add: idle_at_def idle_uart_def LSR_TX_IDLE_def)
  then show ?thesis by (simp add: can_emit_def ready_dev_def)
qed

theorem uartputc_in_order_witness:
  "\<exists>outs s'. uartputc 65 dsample = Some (Returns (), s') \<and> outs @ tx_bytes (uart_st s') = [65] \<and>
     u_trace (uart_st s') = map (Pair THR) outs"
proof -
  have e: "tx_bytes idle_uart = []" "tx_ok idle_uart" "u_trace idle_uart = []"
    by (simp_all add: tx_empty_iff tx_ok_def idle_uart_def)
  then show ?thesis using uartputc_in_order [of dsample 65] by (fastforce simp: UART_TX_BUF_SIZE_def)
qed

end
