(* ===== verification/Printf.thy ===== *)
theory Printf
  imports Uart
begin

text \<open>
  kernel/printf.c and the debugging listing \<open>procdump\<close> of proc.c. A variable argument is a value of
  \<open>va\<close>; a conversion that finds no argument of its kind is undefined in C and is \<open>None\<close> here. The
  reference is \<open>fmt_text\<close>, the text that a format and its arguments denote.
\<close>

section \<open>Conversions\<close>

definition str :: "string \<Rightarrow> uchar list" where
  "str = map of_char"

definition digits :: "uchar list" where
  "digits = str ''0123456789abcdef''"

datatype va = VInt int | VPtr uint64 | VStr "uchar list option"

text \<open>The digits of \<open>printint\<close> in the order in which they are put into \<open>buf\<close>, least significant first.\<close>

partial_function (option) print_digits :: "uint \<Rightarrow> uint \<Rightarrow> uchar list option" where
  "print_digits x base =
     (if 16 \<le> unat (x mod base) then None
      else if x div base = 0 then Some [digits ! unat (x mod base)]
      else do {
        ds \<leftarrow> print_digits (x div base) base;
        Some (digits ! unat (x mod base) # ds)
      })"

definition printint_text :: "int \<Rightarrow> uint \<Rightarrow> bool \<Rightarrow> uchar list option" where
  "printint_text xx base sign = do {
     let sign = (sign \<and> xx < 0);
     let x = (if sign then of_int (- xx) else of_int xx);
     buf \<leftarrow> print_digits x base;
     let buf = (if sign then buf @ str ''-'' else buf);
     Some (rev buf)
   }"

fun put_chars :: "uchar list \<Rightarrow> 'a devs_scheme \<Rightarrow> 'a devs_scheme option" where
  "put_chars [] s = Some s"
| "put_chars (c # cs) s = do { s \<leftarrow> consputc (uint c) s; put_chars cs s }"

definition printint :: "int \<Rightarrow> uint \<Rightarrow> bool \<Rightarrow> 'a devs_scheme \<Rightarrow> 'a devs_scheme option" where
  "printint xx base sign s = do { cs \<leftarrow> printint_text xx base sign; put_chars cs s }"

fun printptr_loop :: "nat \<Rightarrow> uint64 \<Rightarrow> 'a devs_scheme \<Rightarrow> 'a devs_scheme option" where
  "printptr_loop 0 x s = Some s"
| "printptr_loop (Suc n) x s = do {
     s \<leftarrow> consputc (uint (digits ! unat (drop_bit 60 x))) s;
     printptr_loop n (push_bit 4 x) s
   }"

definition printptr :: "uint64 \<Rightarrow> 'a devs_scheme \<Rightarrow> 'a devs_scheme option" where
  "printptr x s = do {
     s \<leftarrow> consputc 48 s;
     s \<leftarrow> consputc 120 s;
     printptr_loop 16 x s
   }"

section \<open>printf\<close>

text \<open>One conversion: the character after \<open>%\<close> and the arguments that are left.\<close>

definition printf_conv :: "uchar \<Rightarrow> va list \<Rightarrow> 'a devs_scheme \<Rightarrow> (va list \<times> 'a devs_scheme) option" where
  "printf_conv c ap s =
     (if c = of_char (CHR ''d'') then (case ap of VInt i # ap \<Rightarrow> do { s \<leftarrow> printint i 10 True s; Some (ap, s) } | _ \<Rightarrow> None)
      else if c = of_char (CHR ''x'') then (case ap of VInt i # ap \<Rightarrow> do { s \<leftarrow> printint i 16 True s; Some (ap, s) } | _ \<Rightarrow> None)
      else if c = of_char (CHR ''p'') then (case ap of VPtr x # ap \<Rightarrow> do { s \<leftarrow> printptr x s; Some (ap, s) } | _ \<Rightarrow> None)
      else if c = of_char (CHR ''s'') then (case ap of VStr v # ap \<Rightarrow> do {
          s \<leftarrow> put_chars (case v of None \<Rightarrow> str ''(null)'' | Some t \<Rightarrow> t) s; Some (ap, s) } | _ \<Rightarrow> None)
      else if c = of_char (CHR ''%'') then do { s \<leftarrow> consputc (uint c) s; Some (ap, s) }
      else do { s \<leftarrow> consputc 37 s; s \<leftarrow> consputc (uint c) s; Some (ap, s) })"

fun printf_loop :: "uchar list \<Rightarrow> va list \<Rightarrow> 'a devs_scheme \<Rightarrow> 'a devs_scheme option" where
  "printf_loop [] ap s = Some s"
| "printf_loop [c] ap s = (if c \<noteq> 37 then consputc (uint c) s else Some s)"
| "printf_loop (c # d # cs) ap s =
     (if c \<noteq> 37 then do { s \<leftarrow> consputc (uint c) s; printf_loop (d # cs) ap s }
      else do { (ap, s) \<leftarrow> printf_conv d ap s; printf_loop cs ap s })"

definition printf :: "uchar list option \<Rightarrow> va list \<Rightarrow> 'a devs_scheme \<Rightarrow> 'a devs_scheme option" where
  "printf fmt ap s = do {
     let locking = pr_locking s;
     s \<leftarrow> (if locking then acquire PrLock s else Some s);
     f \<leftarrow> fmt;
     s \<leftarrow> printf_loop f ap s;
     if locking then release PrLock s else Some s
   }"

definition printfinit :: "'a devs_scheme \<Rightarrow> 'a devs_scheme" where
  "printfinit s = (initlock PrLock ''pr'' s)\<lparr>pr_locking := True\<rparr>"

section \<open>procdump\<close>

fun state_name :: "procstate \<Rightarrow> string" where
  "state_name UNUSED = ''unused''"
| "state_name USED = ''used''"
| "state_name SLEEPING = ''sleep ''"
| "state_name RUNNABLE = ''runble''"
| "state_name RUNNING = ''run   ''"
| "state_name ZOMBIE = ''zombie''"

fun procdump_loop :: "nat list \<Rightarrow> 'a devs_scheme \<Rightarrow> 'a devs_scheme option" where
  "procdump_loop [] s = Some s"
| "procdump_loop (p # ps) s =
     (if p_state (proc s p) = UNUSED then procdump_loop ps s
      else do {
        s \<leftarrow> printf (Some (str ''%d %s %s'')) [VInt (p_pid (proc s p)),
          VStr (Some (str (state_name (p_state (proc s p))))), VStr (Some (p_name (proc s p)))] s;
        s \<leftarrow> printf (Some [10]) [] s;
        procdump_loop ps s
      })"

definition procdump :: "'a devs_scheme \<Rightarrow> 'a devs_scheme option" where
  "procdump s = do {
     s \<leftarrow> printf (Some [10]) [] s;
     procdump_loop [0..<NPROC] s
   }"

section \<open>The text of a number\<close>

fun nat_text :: "nat \<Rightarrow> nat \<Rightarrow> uchar list" where
  "nat_text b n = (if b < 2 \<or> n < b then [digits ! n] else nat_text b (n div b) @ [digits ! (n mod b)])"

declare nat_text.simps [simp del]

definition int_text :: "nat \<Rightarrow> int \<Rightarrow> uchar list" where
  "int_text b i = (if i < 0 then of_char (CHR ''-'') # nat_text b (nat (- i)) else nat_text b (nat i))"

lemma print_digits_eq:
  assumes "2 \<le> unat base" "unat base \<le> 16"
  shows "\<exists>ds. print_digits x base = Some ds \<and> rev ds = nat_text (unat base) (unat x)"
proof (induction "unat x" arbitrary: x rule: less_induct)
  case less
  have m: "unat (x mod base) = unat x mod unat base" "unat (x div base) = unat x div unat base"
    by (simp_all add: unat_mod unat_div)
  have small: "\<not> 16 \<le> unat (x mod base)"
    using assms mod_less_divisor [of "unat base" "unat x"] unfolding m(1) by linarith
  show ?case
  proof (cases "unat x < unat base")
    case True
    then have "x div base = 0" by (simp add: word_unat_eq_iff m(2))
    then show ?thesis
      using small True by (simp add: print_digits.simps [of x] nat_text.simps [of "unat base" "unat x"] m(1))
  next
    case False
    have nz: "x div base \<noteq> 0" using False assms by (simp add: word_unat_eq_iff m(2) div_eq_0_iff)
    have "unat (x div base) < unat x" using False assms unfolding m(2) by (intro div_less_dividend) auto
    from less [OF this] obtain ds where ds: "print_digits (x div base) base = Some ds"
      "rev ds = nat_text (unat base) (unat x div unat base)" unfolding m(2) by blast
    have "print_digits x base = Some (digits ! (unat x mod unat base) # ds)"
      using small nz ds(1) by (subst print_digits.simps) (simp add: m(1))
    moreover have "nat_text (unat base) (unat x) = nat_text (unat base) (unat x div unat base) @ [digits ! (unat x mod unat base)]"
      using False assms by (subst nat_text.simps) simp
    ultimately show ?thesis using ds(2) by simp
  qed
qed

lemma printint_text_eq:
  assumes "- (2 ^ 31) \<le> xx" "xx < 2 ^ 31" "base = 10 \<or> base = 16"
  shows "printint_text xx base True = Some (int_text (unat base) xx)"
proof -
  have b: "2 \<le> unat base" "unat base \<le> 16" using assms(3) by auto
  have u: "unat (of_int k :: uint) = nat k" if "0 \<le> k" "k \<le> 2 ^ 31" for k
    using that by (simp add: nat_take_bit_eq [symmetric] unsigned_of_int take_bit_int_eq_self)
  show ?thesis
  proof (cases "xx < 0")
    case True
    obtain ds where "print_digits (of_int (- xx)) base = Some ds" "rev ds = nat_text (unat base) (nat (- xx))"
      using print_digits_eq [OF b, of "of_int (- xx)"] u [of "- xx"] assms(1) True by auto
    then show ?thesis using True by (simp add: printint_text_def int_text_def str_def)
  next
    case False
    obtain ds where "print_digits (of_int xx) base = Some ds" "rev ds = nat_text (unat base) (nat xx)"
      using print_digits_eq [OF b, of "of_int xx"] u [of xx] assms(2) False by auto
    then show ?thesis using False by (simp add: printint_text_def int_text_def)
  qed
qed

lemma nat_text_length: "2 \<le> b \<Longrightarrow> n < b ^ k \<Longrightarrow> 0 < k \<Longrightarrow> length (nat_text b n) \<le> k"
proof (induction k arbitrary: n)
  case 0
  then show ?case by simp
next
  case (Suc k)
  show ?case
  proof (cases "n < b")
    case True
    then show ?thesis by (simp add: nat_text.simps)
  next
    case False
    then have "0 < k" using Suc.prems(2) by (cases k) auto
    moreover have "n div b < b ^ k" using Suc.prems(1,2) by (simp add: less_mult_imp_div_less mult.commute)
    ultimately have "length (nat_text b (n div b)) \<le> k" using Suc.IH [of "n div b"] Suc.prems(1) by simp
    then show ?thesis using False Suc.prems(1) by (subst nat_text.simps) simp
  qed
qed

text \<open>The text determines the number: reading the digits back gives it.\<close>

definition digit_val :: "uchar \<Rightarrow> nat" where
  "digit_val c = (if c < 58 then unat c - 48 else unat c - 87)"

definition text_val :: "nat \<Rightarrow> uchar list \<Rightarrow> nat" where
  "text_val b cs = foldl (\<lambda>n c. n * b + digit_val c) 0 cs"

definition int_val :: "nat \<Rightarrow> uchar list \<Rightarrow> int" where
  "int_val b cs = (case cs of [] \<Rightarrow> 0 | c # ds \<Rightarrow>
     if c = of_char (CHR ''-'') then - int (text_val b ds) else int (text_val b cs))"

lemma digit_val_digits: "n < 16 \<Longrightarrow> digit_val (digits ! n) = n \<and> digits ! n \<noteq> of_char (CHR ''-'')"
proof -
  have "\<forall>n\<in>set [0..<16]. digit_val (digits ! n) = n \<and> digits ! n \<noteq> of_char (CHR ''-'')" by code_simp
  then show "n < 16 \<Longrightarrow> ?thesis" by simp
qed

lemma text_val_nat_text: "2 \<le> b \<Longrightarrow> b \<le> 16 \<Longrightarrow> text_val b (nat_text b n) = n"
proof (induction b n rule: nat_text.induct)
  case (1 b n)
  show ?case
  proof (cases "n < b")
    case True
    then show ?thesis using 1 digit_val_digits [of n] by (simp add: nat_text.simps text_val_def)
  next
    case False
    have "n mod b < 16" using 1(2,3) mod_less_divisor [of b n] by linarith
    then show ?thesis
      using False 1 digit_val_digits [of "n mod b"] by (subst nat_text.simps) (simp add: text_val_def)
  qed
qed

lemma nat_text_digits: "2 \<le> b \<Longrightarrow> b \<le> 16 \<Longrightarrow> \<exists>c cs. nat_text b n = c # cs \<and> c \<noteq> of_char (CHR ''-'')"
proof (induction b n rule: nat_text.induct)
  case (1 b n)
  show ?case
  proof (cases "n < b")
    case True
    then show ?thesis using 1 digit_val_digits [of n] by (simp add: nat_text.simps)
  next
    case False
    then show ?thesis using 1 by (subst nat_text.simps) fastforce
  qed
qed

lemma int_val_int_text: "2 \<le> b \<Longrightarrow> b \<le> 16 \<Longrightarrow> int_val b (int_text b i) = i"
  using nat_text_digits [of b "nat i"] text_val_nat_text [of b "nat i"] text_val_nat_text [of b "nat (- i)"]
  by (auto simp: int_val_def int_text_def)

text \<open>
  C35. printint() writes the number it is given. For every C int and base 10 or 16 the characters are
  the shortest text of the number with a minus sign in front of a negative one, reading them back
  gives the number (the most negative int included), and with at most 11 characters they fit into
  the 16-byte buffer.
\<close>

theorem printint_roundtrip:
  assumes "- (2 ^ 31) \<le> xx" "xx < 2 ^ 31" "base = 10 \<or> base = 16"
  shows "\<exists>cs. printint_text xx base True = Some cs \<and> cs = int_text (unat base) xx \<and>
    int_val (unat base) cs = xx \<and> length cs \<le> 11"
proof -
  have b: "2 \<le> unat base" "unat base \<le> 16" using assms(3) by auto
  have l: "length (nat_text (unat base) n) \<le> 10" if "n \<le> 2 ^ 31" for n
  proof -
    have "n < unat base ^ 10" using assms(3) that by auto
    then show ?thesis using nat_text_length [OF b(1), of n 10] by simp
  qed
  have "length (int_text (unat base) xx) \<le> 11"
    using l [of "nat (- xx)"] l [of "nat xx"] assms(1,2) by (auto simp: int_text_def nat_le_iff)
  then show ?thesis using printint_text_eq [OF assms] int_val_int_text [OF b] by auto
qed

theorem printint_roundtrip_witness:
  "\<exists>cs. printint_text (- 2147483648) 10 True = Some cs \<and> int_val 10 cs = - 2147483648 \<and> length cs \<le> 11"
  using printint_roundtrip [of "- 2147483648" 10] by auto

section \<open>The text of a format\<close>

fun ptr_digits :: "nat \<Rightarrow> uint64 \<Rightarrow> uchar list" where
  "ptr_digits 0 x = []"
| "ptr_digits (Suc n) x = digits ! unat (drop_bit 60 x) # ptr_digits n (push_bit 4 x)"

definition conv_text :: "uchar \<Rightarrow> va list \<Rightarrow> (uchar list \<times> va list) option" where
  "conv_text c ap =
     (if c = of_char (CHR ''d'') then (case ap of VInt i # ap \<Rightarrow> Some (int_text 10 i, ap) | _ \<Rightarrow> None)
      else if c = of_char (CHR ''x'') then (case ap of VInt i # ap \<Rightarrow> Some (int_text 16 i, ap) | _ \<Rightarrow> None)
      else if c = of_char (CHR ''p'') then (case ap of VPtr x # ap \<Rightarrow> Some (str ''0x'' @ ptr_digits 16 x, ap) | _ \<Rightarrow> None)
      else if c = of_char (CHR ''s'') then (case ap of VStr v # ap \<Rightarrow>
          Some (case v of None \<Rightarrow> str ''(null)'' | Some t \<Rightarrow> t, ap) | _ \<Rightarrow> None)
      else if c = of_char (CHR ''%'') then Some ([c], ap)
      else Some ([37, c], ap))"

fun fmt_text :: "uchar list \<Rightarrow> va list \<Rightarrow> uchar list option" where
  "fmt_text [] ap = Some []"
| "fmt_text [c] ap = Some (if c \<noteq> 37 then [c] else [])"
| "fmt_text (c # d # cs) ap =
     (if c \<noteq> 37 then map_option (Cons c) (fmt_text (d # cs) ap)
      else do { (t, ap) \<leftarrow> conv_text d ap; map_option (append t) (fmt_text cs ap) })"

definition va_ok :: "va \<Rightarrow> bool" where
  "va_ok v \<longleftrightarrow> (case v of VInt i \<Rightarrow> - (2 ^ 31) \<le> i \<and> i < 2 ^ 31 | _ \<Rightarrow> True)"

text \<open>\<open>prints m cs s\<close>: from state \<open>s\<close> the call \<open>m\<close> returns and has written exactly \<open>cs\<close>.\<close>

definition prints :: "('a devs_scheme \<Rightarrow> 'a devs_scheme option) \<Rightarrow> uchar list \<Rightarrow> bool" where
  "prints m cs \<longleftrightarrow> (\<forall>s. can_emit s \<longrightarrow> (\<exists>t. m s = Some t \<and> emitted cs s t))"

lemma printsD: "prints m cs \<Longrightarrow> can_emit s \<Longrightarrow> \<exists>t. m s = Some t \<and> emitted cs s t \<and> can_emit t"
  unfolding prints_def using emitted_can by blast

lemma prints_Some [intro, simp]: "prints Some []"
  by (auto simp: prints_def)

lemma prints_seq [intro]:
  assumes "prints m xs" "prints k ys"
  shows "prints (\<lambda>s. m s \<bind> k) (xs @ ys)"
  unfolding prints_def
proof (intro allI impI)
  fix s :: "'a devs_scheme" assume "can_emit s"
  then obtain t u where "m s = Some t" "emitted xs s t" "k t = Some u" "emitted ys t u"
    using printsD [OF assms(1)] printsD [OF assms(2)] by metis
  then show "\<exists>u. (m s \<bind> k) = Some u \<and> emitted (xs @ ys) s u" using emitted_append by fastforce
qed

lemma prints_char [intro]: "prints (consputc (uint c)) [c]"
proof -
  have "uint c \<noteq> BACKSPACE" using unsigned_less [of c, where 'a = int] by (simp add: BACKSPACE_def)
  then have "echo (uint c) = [c]" by (simp add: echo_def)
  then show ?thesis unfolding prints_def by (metis consputc_ok)
qed

lemma prints_put_chars [intro]: "prints (put_chars cs) cs"
proof (induction cs)
  case Nil
  then show ?case by (simp add: prints_def)
next
  case (Cons c cs)
  have "put_chars (c # cs) = (\<lambda>s. consputc (uint c) s \<bind> put_chars cs)" by (rule ext) simp
  then show ?case using prints_seq [OF prints_char Cons] by simp
qed

lemma prints_printptr_loop: "prints (printptr_loop n x) (ptr_digits n x)"
proof (induction n arbitrary: x)
  case 0
  then show ?case by (simp add: prints_def)
next
  case (Suc n)
  have "printptr_loop (Suc n) x = (\<lambda>s. consputc (uint (digits ! unat (drop_bit 60 x))) s \<bind> printptr_loop n (push_bit 4 x))"
    by (rule ext) simp
  then show ?case using prints_seq [OF prints_char Suc] by simp
qed

lemma prints_printptr: "prints (printptr x :: 'a devs_scheme \<Rightarrow> _) (str ''0x'' @ ptr_digits 16 x)"
proof -
  have "(printptr x :: 'a devs_scheme \<Rightarrow> _) =
      (\<lambda>s. consputc (uint (48 :: uchar)) s \<bind> (\<lambda>s. consputc (uint (120 :: uchar)) s \<bind> printptr_loop 16 x))"
    by (rule ext) (simp add: printptr_def)
  moreover have "str ''0x'' @ ptr_digits 16 x = [48] @ [120] @ ptr_digits 16 x" by (simp add: str_def)
  ultimately show ?thesis
    using prints_seq [OF prints_char [of 48] prints_seq [OF prints_char [of 120] prints_printptr_loop [of 16 x]]]
    by (simp only:)
qed

lemma prints_printint:
  "- (2 ^ 31) \<le> i \<Longrightarrow> i < 2 ^ 31 \<Longrightarrow> b = 10 \<or> b = 16 \<Longrightarrow> prints (printint i b True) (int_text (unat b) i)"
  using prints_put_chars [of "int_text (unat b) i"] printint_text_eq [of i b]
  by (auto simp: prints_def printint_def)

lemma printf_conv_prints:
  fixes s :: "'a devs_scheme"
  assumes "conv_text c ap = Some (cs, ap')" "list_all va_ok ap" "can_emit s"
  shows "\<exists>t. printf_conv c ap s = Some (ap', t) \<and> emitted cs s t \<and> can_emit t \<and> list_all va_ok ap'"
proof -
  have ret: "\<exists>t. (m s \<bind> (\<lambda>s. Some (a, s))) = Some (a, t) \<and> emitted ds s t \<and> can_emit t"
    if "prints m ds" for m :: "'a devs_scheme \<Rightarrow> _" and ds and a :: "va list"
    using printsD [OF that assms(3)] by fastforce
  have two: "\<exists>t. (consputc 37 s \<bind> (\<lambda>s. consputc (uint c) s \<bind> (\<lambda>s. Some (a, s)))) = Some (a, t) \<and>
      emitted [37, c] s t \<and> can_emit t" for a :: "va list"
    using ret [OF prints_seq [OF prints_char [of 37] prints_char [of c]]] by (simp add: bind_assoc)
  show ?thesis
    using assms(1,2) prints_printint [of _ 10] prints_printint [of _ 16]
    by (auto simp: conv_text_def printf_conv_def va_ok_def two split: if_splits list.splits va.splits
        intro!: ret prints_printptr prints_put_chars prints_char prints_char [of 37, simplified])
qed

lemma printf_loop_prints:
  fixes s :: "'a devs_scheme"
  shows "fmt_text fmt ap = Some cs \<Longrightarrow> list_all va_ok ap \<Longrightarrow> can_emit s \<Longrightarrow>
    \<exists>t. printf_loop fmt ap s = Some t \<and> emitted cs s t"
proof (induction fmt ap arbitrary: cs s rule: fmt_text.induct)
  case (1 ap)
  then show ?case by simp
next
  case (2 c ap)
  then show ?case using prints_char [of c] by (auto simp: prints_def)
next
  case (3 c d fmt ap)
  show ?case
  proof (cases "c = 37")
    case False
    then obtain ds where ds: "fmt_text (d # fmt) ap = Some ds" "cs = c # ds" using 3(3) by auto
    obtain t where t: "consputc (uint c) s = Some t" "emitted [c] s t" "can_emit t"
      using printsD [OF prints_char 3(5), of c] by blast
    obtain u where "printf_loop (d # fmt) ap t = Some u" "emitted ds t u"
      using 3(1) [OF False ds(1) 3(4) t(3)] by blast
    then show ?thesis using False ds(2) t emitted_append [OF t(2), of ds u] by simp
  next
    case True
    then obtain xs ap' ys where x: "conv_text d ap = Some (xs, ap')" "fmt_text fmt ap' = Some ys" "cs = xs @ ys"
      using 3(3) by (auto simp: bind_eq_Some_conv)
    obtain t where t: "printf_conv d ap s = Some (ap', t)" "emitted xs s t" "can_emit t" "list_all va_ok ap'"
      using printf_conv_prints [OF x(1) 3(4,5)] by blast
    obtain u where "printf_loop fmt ap' t = Some u" "emitted ys t u"
      using 3(2) [OF _ x(1) refl x(2) t(4,3)] True by blast
    then show ?thesis using True x(3) t emitted_append [OF t(2), of ys u] by simp
  qed
qed

text \<open>
  C34. The kernel's printf() returns and sends exactly the text of its format: ordinary characters as
  they are, %d and %x as the number's text in base 10 and 16, %p as 0x and sixteen hexadecimal
  digits, %s as the string or (null), %% as a percent sign and any other sequence unchanged. The
  print lock is free again and nothing but the device has changed.
\<close>

theorem printf_text:
  assumes "can_emit s" "free PrLock s" "pr_locking s" "fmt_text fmt ap = Some cs" "list_all va_ok ap"
  shows "\<exists>n. printf (Some fmt) ap s = Some ((settle s)\<lparr>uart_st := (uart_st s)\<lparr>u_reads := n,
    u_trace := u_trace (uart_st s) @ map (Pair THR) cs\<rparr>\<rparr>)"
proof -
  have ok: "cpu_ok s" "can_emit (acquired PrLock s)" using assms(1) by (auto simp: can_emit_def)
  obtain t where t: "printf_loop fmt ap (acquired PrLock s) = Some t" "emitted cs (acquired PrLock s) t"
    using printf_loop_prints [OF assms(4,5) ok(2)] by blast
  then obtain n where n: "t = (acquired PrLock s)\<lparr>uart_st := (uart_st s)\<lparr>u_reads := n,
      u_trace := u_trace (uart_st s) @ map (Pair THR) cs\<rparr>\<rparr>"
    using ok(1) unfolding emitted_def by (auto split: if_splits)
  then have "printf (Some fmt) ap s = Some ((settle s)\<lparr>uart_st := (uart_st s)\<lparr>u_reads := n,
      u_trace := u_trace (uart_st s) @ map (Pair THR) cs\<rparr>\<rparr>)"
    using t(1) assms(2,3) ok(1) by (simp add: printf_def)
  then show ?thesis by blast
qed

theorem printf_text_witness:
  "\<exists>n. printf (Some (str ''%d %s'')) [VInt (-7), VStr None] dsample =
     Some ((settle dsample)\<lparr>uart_st := idle_uart\<lparr>u_reads := n, u_trace := map (Pair THR) (str ''-7 (null)'')\<rparr>\<rparr>)"
proof -
  have "fmt_text (str ''%d %s'') [VInt (-7), VStr None] = Some (str ''-7 (null)'')"
    by (simp add: str_def conv_text_def int_text_def nat_text.simps digits_def)
  moreover have "list_all va_ok [VInt (-7), VStr None]" by (simp add: va_ok_def)
  moreover have "u_trace idle_uart = []" by (simp add: idle_uart_def)
  ultimately show ?thesis using printf_text [of dsample "str ''%d %s''" "[VInt (-7), VStr None]"] by simp
qed

end
