(* ===== verification/Console.thy ===== *)
theory Console
  imports Printf
begin

text \<open>
  kernel/console.c and the interrupt handler of uart.c: the line discipline of the console. The
  input buffer is a ring with three counters; the bytes from \<open>r\<close> to \<open>w\<close> are complete lines waiting
  for \<open>consoleread\<close>, those from \<open>w\<close> to \<open>e\<close> are the line being edited.
\<close>

section \<open>Operations\<close>

definition INPUT_BUF_SIZE :: nat where "INPUT_BUF_SIZE = 128"

definition C :: "char \<Rightarrow> int" where "C x = of_char x - of_char (CHR ''@'')"

text \<open>\<open>consolewrite\<close> from its \<open>i\<close>-th character on.\<close>

function consolewrite_from :: "usrc \<Rightarrow> int \<Rightarrow> nat \<Rightarrow> 'a devs_scheme \<Rightarrow> (nat \<times> int blocking \<times> 'a devs_scheme) option" where
  "consolewrite_from src n i s =
     (if int i < n then do {
        (r, bs, s) \<leftarrow> either_copyin src i 1 s;
        if r = -1 then Some (i, Returns (int i), s)
        else do {
          (b, s) \<leftarrow> uartputc (hd bs) s;
          case b of Sleeps ch \<Rightarrow> Some (i, Sleeps ch, s)
          | Returns _ \<Rightarrow> consolewrite_from src n (i + 1) s
        }
      } else Some (i, Returns (int i), s))"
  by auto
termination
  by (relation "measure (\<lambda>(_, n, i, _). nat (n - int i))") auto

declare consolewrite_from.simps [simp del]

definition consolewrite :: "usrc \<Rightarrow> int \<Rightarrow> 'a devs_scheme \<Rightarrow> (nat \<times> int blocking \<times> 'a devs_scheme) option" where
  "consolewrite src n s = consolewrite_from src n 0 s"

text \<open>
  The loop of \<open>consoleread\<close>, with the lock held. The results are \<open>n\<close>, \<open>dst\<close> and whether the loop was
  left normally (\<open>Returns True\<close>), by the return of -1 (\<open>Returns False\<close>) or at the call of \<open>sleep\<close>.
\<close>

function consoleread_loop :: "bool \<Rightarrow> uint \<Rightarrow> uint64 \<Rightarrow> int \<Rightarrow> 'a devs_scheme \<Rightarrow>
    (uint64 \<times> int \<times> bool blocking \<times> 'a devs_scheme) option" where
  "consoleread_loop user_dst target dst n s =
     (if 0 < n then
        if cons_r (cons_st s) = cons_w (cons_st s) then do {
          (me, s) \<leftarrow> myproc s;
          p \<leftarrow> me;
          (k, s) \<leftarrow> killed p s;
          if k \<noteq> 0 then do { s \<leftarrow> release ConsLock s; Some (dst, n, Returns False, s) }
          else Some (dst, n, Sleeps ConsChan, s)
        } else do {
          let c = cons_buf (cons_st s) (unat (cons_r (cons_st s)) mod INPUT_BUF_SIZE);
          let s = s\<lparr>cons_st := (cons_st s)\<lparr>cons_r := cons_r (cons_st s) + 1\<rparr>\<rparr>;
          if uint c = C (CHR ''D'') then
            Some (dst, n, Returns True,
              if (of_int n :: uint) < target then s\<lparr>cons_st := (cons_st s)\<lparr>cons_r := cons_r (cons_st s) - 1\<rparr>\<rparr> else s)
          else do {
            (r, s) \<leftarrow> either_copyout user_dst dst [c] s;
            if r = -1 then Some (dst, n, Returns True, s)
            else if c = 10 then Some (dst + 1, n - 1, Returns True, s)
            else consoleread_loop user_dst target (dst + 1) (n - 1) s
          }
        }
      else Some (dst, n, Returns True, s))"
  by auto
termination
  by (relation "measure (\<lambda>(_, _, _, n, _). nat n)") auto

declare consoleread_loop.simps [simp del]

definition consoleread_from :: "bool \<Rightarrow> uint \<Rightarrow> uint64 \<Rightarrow> int \<Rightarrow> 'a devs_scheme \<Rightarrow>
    (uint64 \<times> int \<times> int blocking \<times> 'a devs_scheme) option" where
  "consoleread_from user_dst target dst n s = do {
     (dst, n, b, s) \<leftarrow> consoleread_loop user_dst target dst n s;
     case b of
       Sleeps ch \<Rightarrow> Some (dst, n, Sleeps ch, s)
     | Returns False \<Rightarrow> Some (dst, n, Returns (-1), s)
     | Returns True \<Rightarrow> do {
         s \<leftarrow> release ConsLock s;
         Some (dst, n, Returns (sint (target - of_int n)), s)
       }
   }"

definition consoleread :: "bool \<Rightarrow> uint64 \<Rightarrow> int \<Rightarrow> 'a devs_scheme \<Rightarrow> (uint64 \<times> int \<times> int blocking \<times> 'a devs_scheme) option" where
  "consoleread user_dst dst n s = do {
     let target = of_int n;
     s \<leftarrow> acquire ConsLock s;
     consoleread_from user_dst target dst n s
   }"

partial_function (option) kill_line :: "'a devs_scheme \<Rightarrow> 'a devs_scheme option" where
  "kill_line s =
     (if cons_e (cons_st s) \<noteq> cons_w (cons_st s) \<and>
         cons_buf (cons_st s) (unat (cons_e (cons_st s) - 1) mod INPUT_BUF_SIZE) \<noteq> 10
      then do {
        let s = s\<lparr>cons_st := (cons_st s)\<lparr>cons_e := cons_e (cons_st s) - 1\<rparr>\<rparr>;
        s \<leftarrow> consputc BACKSPACE s;
        kill_line s
      } else Some s)"

text \<open>The \<open>default\<close> case of the switch in \<open>consoleintr\<close>.\<close>

definition cons_put :: "uchar \<Rightarrow> cons \<Rightarrow> cons" where
  "cons_put c k = k\<lparr>cons_buf := (cons_buf k)(unat (cons_e k) mod INPUT_BUF_SIZE := c), cons_e := cons_e k + 1\<rparr>"

definition consoleintr_default :: "int \<Rightarrow> 'a devs_scheme \<Rightarrow> 'a devs_scheme option" where
  "consoleintr_default c s =
     (if c \<noteq> 0 \<and> cons_e (cons_st s) - cons_r (cons_st s) < of_nat INPUT_BUF_SIZE then do {
        let c = (if c = 13 then 10 else c);
        s \<leftarrow> consputc c s;
        let s = s\<lparr>cons_st := cons_put (of_int c) (cons_st s)\<rparr>;
        if c = 10 \<or> c = C (CHR ''D'') \<or> cons_e (cons_st s) - cons_r (cons_st s) = of_nat INPUT_BUF_SIZE
        then wakeup ConsChan (s\<lparr>cons_st := (cons_st s)\<lparr>cons_w := cons_e (cons_st s)\<rparr>\<rparr>)
        else Some s
      } else Some s)"

definition consoleintr_switch :: "int \<Rightarrow> 'a devs_scheme \<Rightarrow> 'a devs_scheme option" where
  "consoleintr_switch c s =
     (if c = C (CHR ''P'') then procdump s
      else if c = C (CHR ''U'') then kill_line s
      else if c = C (CHR ''H'') \<or> c = 127 then
        (if cons_e (cons_st s) \<noteq> cons_w (cons_st s)
         then consputc BACKSPACE (s\<lparr>cons_st := (cons_st s)\<lparr>cons_e := cons_e (cons_st s) - 1\<rparr>\<rparr>)
         else Some s)
      else consoleintr_default c s)"

definition consoleintr :: "int \<Rightarrow> 'a devs_scheme \<Rightarrow> 'a devs_scheme option" where
  "consoleintr c s = do {
     s \<leftarrow> acquire ConsLock s;
     s \<leftarrow> consoleintr_switch c s;
     release ConsLock s
   }"

text \<open>\<open>consoleinit\<close>; the two device switch entries it fills in are constants of File.\<close>

definition consoleinit :: "'a devs_scheme \<Rightarrow> 'a devs_scheme" where
  "consoleinit s = uartinit (initlock ConsLock ''cons'' s)"

partial_function (option) uartintr_loop :: "'a devs_scheme \<Rightarrow> 'a devs_scheme option" where
  "uartintr_loop s = do {
     let (c, s) = uartgetc s;
     if c = -1 then Some s
     else do { s \<leftarrow> consoleintr c s; uartintr_loop s }
   }"

definition uartintr :: "'a devs_scheme \<Rightarrow> 'a devs_scheme option" where
  "uartintr s = do {
     s \<leftarrow> uartintr_loop s;
     s \<leftarrow> acquire UartLock s;
     s \<leftarrow> uartstart s;
     release UartLock s
   }"

section \<open>The line discipline\<close>

definition cons_ready :: "cons \<Rightarrow> uchar list" where
  "cons_ready k = ring_list INPUT_BUF_SIZE (cons_buf k) (cons_r k) (cons_w k)"

definition cons_line :: "cons \<Rightarrow> uchar list" where
  "cons_line k = ring_list INPUT_BUF_SIZE (cons_buf k) (cons_w k) (cons_e k)"

definition cons_ok :: "cons \<Rightarrow> bool" where
  "cons_ok k \<longleftrightarrow> length (cons_ready k) + length (cons_line k) \<le> INPUT_BUF_SIZE \<and> 10 \<notin> set (cons_line k)"

text \<open>The line editor that the handler implements: complete lines and the line being typed.\<close>

definition line_step :: "int \<Rightarrow> uchar list \<times> uchar list \<Rightarrow> uchar list \<times> uchar list" where
  "line_step c q = (case q of (ready, line) \<Rightarrow>
     if c = C (CHR ''U'') then (ready, [])
     else if c = C (CHR ''H'') \<or> c = 127 then (ready, butlast line)
     else if c = 0 \<or> length ready + length line = INPUT_BUF_SIZE then (ready, line)
     else let c = (if c = 13 then 10 else c); line = line @ [of_int c] in
       if c = 10 \<or> c = C (CHR ''D'') \<or> length ready + length line = INPUT_BUF_SIZE then (ready @ line, []) else (ready, line))"

definition line_echo :: "int \<Rightarrow> uchar list \<times> uchar list \<Rightarrow> uchar list" where
  "line_echo c q = (case q of (ready, line) \<Rightarrow>
     if c = C (CHR ''U'') then concat (map (\<lambda>_. echo BACKSPACE) line)
     else if c = C (CHR ''H'') \<or> c = 127 then (if line = [] then [] else echo BACKSPACE)
     else if c = 0 \<or> length ready + length line = INPUT_BUF_SIZE then []
     else echo (if c = 13 then 10 else c))"

lemma cons_ring_size: "ring_size INPUT_BUF_SIZE TYPE(32)"
  by (simp add: ring_size_def INPUT_BUF_SIZE_def)

lemma cons_parts:
  assumes "length (cons_ready k) + length (cons_line k) \<le> INPUT_BUF_SIZE"
  shows "ring_list INPUT_BUF_SIZE (cons_buf k) (cons_r k) (cons_e k) = cons_ready k @ cons_line k"
    and "unat (cons_e k - cons_r k) = length (cons_ready k) + length (cons_line k)"
proof -
  show r: "ring_list INPUT_BUF_SIZE (cons_buf k) (cons_r k) (cons_e k) = cons_ready k @ cons_line k"
    unfolding cons_ready_def cons_line_def using assms
    by (intro ring_append) (simp add: cons_ready_def cons_line_def INPUT_BUF_SIZE_def)
  show "unat (cons_e k - cons_r k) = length (cons_ready k) + length (cons_line k)"
    using arg_cong [OF r, of length] by simp
qed

lemma cons_put_parts:
  assumes "length (cons_ready k) + length (cons_line k) < INPUT_BUF_SIZE"
  shows "cons_ready (cons_put c k) = cons_ready k" "cons_line (cons_put c k) = cons_line k @ [c]"
proof -
  let ?b = "(cons_buf k)(unat (cons_e k) mod INPUT_BUF_SIZE := c)"
  have line: "ring_list INPUT_BUF_SIZE ?b (cons_w k) (cons_e k + 1) = cons_line k @ [c]"
    unfolding cons_line_def using assms
    by (intro ring_put [OF cons_ring_size]) (simp add: cons_line_def)
  have l: "unat (cons_e k + 1 - cons_w k) = Suc (length (cons_line k))" using arg_cong [OF line, of length] by simp
  have "ring_list INPUT_BUF_SIZE ?b (cons_r k) (cons_e k + 1) =
      ring_list INPUT_BUF_SIZE ?b (cons_r k) (cons_w k) @ ring_list INPUT_BUF_SIZE ?b (cons_w k) (cons_e k + 1)"
    using assms by (intro ring_append) (simp add: l cons_ready_def INPUT_BUF_SIZE_def)
  moreover have "ring_list INPUT_BUF_SIZE ?b (cons_r k) (cons_e k + 1) = (cons_ready k @ cons_line k) @ [c]"
    using ring_put [OF cons_ring_size, of "cons_e k" "cons_r k" "cons_buf k" c] cons_parts [of k] assms by simp
  ultimately show "cons_ready (cons_put c k) = cons_ready k" "cons_line (cons_put c k) = cons_line k @ [c]"
    using line by (simp_all add: cons_ready_def cons_line_def cons_put_def)
qed

lemma cons_commit:
  assumes "length (cons_ready k) + length (cons_line k) \<le> INPUT_BUF_SIZE"
  shows "cons_ready (k\<lparr>cons_w := cons_e k\<rparr>) = cons_ready k @ cons_line k" "cons_line (k\<lparr>cons_w := cons_e k\<rparr>) = []"
    "cons_ok (k\<lparr>cons_w := cons_e k\<rparr>)"
proof -
  show r: "cons_ready (k\<lparr>cons_w := cons_e k\<rparr>) = cons_ready k @ cons_line k"
    using cons_parts(1) [OF assms] by (simp add: cons_ready_def)
  show l: "cons_line (k\<lparr>cons_w := cons_e k\<rparr>) = []" by (simp add: cons_line_def ring_list_empty_iff)
  show "cons_ok (k\<lparr>cons_w := cons_e k\<rparr>)" using assms r l by (simp add: cons_ok_def)
qed

lemma cons_line_empty: "cons_line k = [] \<longleftrightarrow> cons_e k = cons_w k"
  by (auto simp: cons_line_def ring_list_empty_iff)

lemma cons_erase:
  assumes "cons_ok k" "cons_line k \<noteq> []"
  shows "cons_line (k\<lparr>cons_e := cons_e k - 1\<rparr>) = butlast (cons_line k)"
    "cons_ready (k\<lparr>cons_e := cons_e k - 1\<rparr>) = cons_ready k" "cons_ok (k\<lparr>cons_e := cons_e k - 1\<rparr>)"
    "cons_buf k (unat (cons_e k - 1) mod INPUT_BUF_SIZE) \<noteq> 10"
proof -
  have ne: "cons_w k \<noteq> cons_e k" using assms(2) by (auto simp: cons_line_empty)
  show l: "cons_line (k\<lparr>cons_e := cons_e k - 1\<rparr>) = butlast (cons_line k)"
    using ring_unput(1) [OF ne] by (simp add: cons_line_def)
  show r: "cons_ready (k\<lparr>cons_e := cons_e k - 1\<rparr>) = cons_ready k" by (simp add: cons_ready_def)
  show "cons_ok (k\<lparr>cons_e := cons_e k - 1\<rparr>)" using assms(1) l r by (auto simp: cons_ok_def dest: in_set_butlastD)
  have "cons_buf k (unat (cons_e k - 1) mod INPUT_BUF_SIZE) = last (cons_line k)"
    using ring_unput(2) [OF ne, of INPUT_BUF_SIZE "cons_buf k"] by (simp add: cons_line_def)
  then show "cons_buf k (unat (cons_e k - 1) mod INPUT_BUF_SIZE) \<noteq> 10"
    using assms by (metis cons_ok_def last_in_set)
qed

section \<open>The interrupt handler refines the line editor\<close>

definition at_cons :: "'a devs_scheme \<Rightarrow> bool" where
  "at_cons s \<longleftrightarrow> can_emit s \<and> others_free s \<and> noff (mycpu s) \<noteq> 0 \<and> cons_ok (cons_st s)"

lemma at_cons_settle: "at_cons s \<Longrightarrow> settle s = s"
  using settle_inside [of s "settle s"] by (simp add: at_cons_def settle_form settle_cpu_def mycpu_def)

lemma consputc_inside:
  assumes "at_cons s"
  obtains n where "consputc c s = Some (s\<lparr>uart_st := (uart_st s)\<lparr>u_reads := n, u_trace := u_trace (uart_st s) @ map (Pair THR) (echo c)\<rparr>\<rparr>)"
proof -
  have "can_emit s" using assms by (simp add: at_cons_def)
  then obtain t where t: "consputc c s = Some t" "emitted (echo c) s t" using consputc_ok by blast
  from t(2) show ?thesis using that t(1) at_cons_settle [OF assms] unfolding emitted_def by (auto split: if_splits)
qed

lemma at_cons_upd:
  assumes "at_cons s" "cons_ok k" "u_env u = u_env (uart_st s)"
  shows "at_cons (s\<lparr>cons_st := k, uart_st := u\<rparr>)"
  using assms by (simp add: at_cons_def can_emit_def ready_dev_def idle_at_def others_free_def)

lemma kill_line_ok:
  assumes "at_cons s"
  shows "\<exists>n. kill_line s = Some (s\<lparr>cons_st := (cons_st s)\<lparr>cons_e := cons_w (cons_st s)\<rparr>,
    uart_st := (uart_st s)\<lparr>u_reads := n,
      u_trace := u_trace (uart_st s) @ map (Pair THR) (concat (map (\<lambda>_. echo BACKSPACE) (cons_line (cons_st s))))\<rparr>\<rparr>)"
  using assms
proof (induction "length (cons_line (cons_st s))" arbitrary: s)
  case 0
  then have e: "cons_e (cons_st s) = cons_w (cons_st s)" "cons_line (cons_st s) = []" by (simp_all add: cons_line_empty)
  have "kill_line s = Some s" using e(1) by (subst kill_line.simps) simp
  moreover have "s = s\<lparr>cons_st := (cons_st s)\<lparr>cons_e := cons_w (cons_st s)\<rparr>,
      uart_st := (uart_st s)\<lparr>u_reads := u_reads (uart_st s), u_trace := u_trace (uart_st s) @ []\<rparr>\<rparr>"
    using e(1) [symmetric] by simp
  ultimately show ?case unfolding e(2) by (metis concat.simps(1) list.simps(8))
next
  case (Suc n)
  let ?k = "cons_st s" and ?B = "echo BACKSPACE"
  let ?k' = "?k\<lparr>cons_e := cons_e ?k - 1\<rparr>"
  have ne: "cons_line ?k \<noteq> []" and ok: "cons_ok ?k" using Suc.hyps(2) Suc.prems by (auto simp: at_cons_def)
  note er = cons_erase [OF ok ne]
  have at': "at_cons (s\<lparr>cons_st := ?k'\<rparr>)" using at_cons_upd [OF Suc.prems er(3), of "uart_st s"] by simp
  obtain m where m: "consputc BACKSPACE (s\<lparr>cons_st := ?k'\<rparr>) = Some (s\<lparr>cons_st := ?k', uart_st := (uart_st s)
      \<lparr>u_reads := m, u_trace := u_trace (uart_st s) @ map (Pair THR) ?B\<rparr>\<rparr>)"
    using consputc_inside [OF at', of BACKSPACE] by auto
  define t where "t = s\<lparr>cons_st := ?k', uart_st := (uart_st s)\<lparr>u_reads := m, u_trace := u_trace (uart_st s) @ map (Pair THR) ?B\<rparr>\<rparr>"
  have step: "kill_line s = kill_line t"
    using ne er(4) m by (subst kill_line.simps) (simp add: t_def cons_line_empty)
  have att: "at_cons t" unfolding t_def using Suc.prems er(3) by (intro at_cons_upd) auto
  have tl: "cons_line (cons_st t) = butlast (cons_line ?k)" using er(1) by (simp add: t_def)
  obtain j where j: "kill_line t = Some (t\<lparr>cons_st := (cons_st t)\<lparr>cons_e := cons_w (cons_st t)\<rparr>,
      uart_st := (uart_st t)\<lparr>u_reads := j,
        u_trace := u_trace (uart_st t) @ map (Pair THR) (concat (map (\<lambda>_. ?B) (cons_line (cons_st t))))\<rparr>\<rparr>)"
    using Suc.hyps(1) [OF _ att] tl Suc.hyps(2) by (metis diff_Suc_1 length_butlast)
  have "concat (map (\<lambda>_. ?B) xs) = concat (replicate (length xs) ?B)" for xs :: "uchar list"
    by (simp add: map_replicate_const)
  then have c: "?B @ concat (map (\<lambda>_. ?B) (butlast (cons_line ?k))) = concat (map (\<lambda>_. ?B) (cons_line ?k))"
    using Suc.hyps(2) by (cases "cons_line ?k") auto
  show ?case
    unfolding step j tl c [symmetric] by (intro exI [of _ j]) (simp add: t_def)
qed

text \<open>What \<open>consoleintr\<close> does between the two lock operations.\<close>

definition cons_done :: "int \<Rightarrow> 'a devs_scheme \<Rightarrow> 'a devs_scheme \<Rightarrow> bool" where
  "cons_done c s t \<longleftrightarrow> (let q = (cons_ready (cons_st s), cons_line (cons_st s)) in
     (\<exists>n k. t = s\<lparr>uart_st := (uart_st s)\<lparr>u_reads := n, u_trace := u_trace (uart_st s) @ map (Pair THR) (line_echo c q)\<rparr>,
        cons_st := k, proc := (if fst (line_step c q) = fst q then proc s
          else woken {..<NPROC} (cpu_proc s (hart s)) ConsChan (proc s))\<rparr> \<and>
      cons_ok k \<and> (cons_ready k, cons_line k) = line_step c q))"

lemma cons_done_refl:
  assumes "cons_ok (cons_st s)" "line_step c (cons_ready (cons_st s), cons_line (cons_st s)) = (cons_ready (cons_st s), cons_line (cons_st s))"
    "line_echo c (cons_ready (cons_st s), cons_line (cons_st s)) = []"
  shows "cons_done c s s"
  unfolding cons_done_def Let_def assms(2,3)
  by (rule exI [of _ "u_reads (uart_st s)"], rule exI [of _ "cons_st s"]) (simp add: assms(1))

lemma C_values: "C (CHR ''P'') = 16" "C (CHR ''U'') = 21" "C (CHR ''H'') = 8" "C (CHR ''D'') = 4"
  by (simp_all add: C_def)

lemma consoleintr_default_done:
  assumes "at_cons s" "0 \<le> c" "c < 256" "c \<notin> {8, 16, 21, 127}"
  shows "\<exists>t. consoleintr_default c s = Some t \<and> cons_done c s t"
proof -
  let ?k = "cons_st s"
  let ?q = "(cons_ready ?k, cons_line ?k)"
  define d where "d = (if c = 13 then 10 else c)"
  have ok: "cons_ok ?k" using assms(1) by (simp add: at_cons_def)
  have le: "length (cons_ready ?k) + length (cons_line ?k) \<le> INPUT_BUF_SIZE" using ok by (simp add: cons_ok_def)
  have room: "cons_e ?k - cons_r ?k < of_nat INPUT_BUF_SIZE \<longleftrightarrow> length (cons_ready ?k) + length (cons_line ?k) \<noteq> INPUT_BUF_SIZE"
    using le cons_parts(2) [OF le] by (auto simp: word_less_nat_alt INPUT_BUF_SIZE_def)
  show ?thesis
  proof (cases "c = 0 \<or> length (cons_ready ?k) + length (cons_line ?k) = INPUT_BUF_SIZE")
    case True
    then have "consoleintr_default c s = Some s" "line_step c ?q = ?q" "line_echo c ?q = []"
      using room assms(4) by (auto simp: consoleintr_default_def line_step_def line_echo_def C_values)
    then show ?thesis using cons_done_refl [OF ok] by blast
  next
    case False
    obtain n where n: "consputc d s = Some (s\<lparr>uart_st := (uart_st s)\<lparr>u_reads := n,
        u_trace := u_trace (uart_st s) @ map (Pair THR) (echo d)\<rparr>\<rparr>)"
      using consputc_inside [OF assms(1)] .
    have echo: "line_echo c ?q = echo d" using False assms(4) by (auto simp: line_echo_def C_values d_def)
    have lt: "length (cons_ready ?k) + length (cons_line ?k) < INPUT_BUF_SIZE" using False le by simp
    define k where "k = cons_put (of_int d) ?k"
    note put = cons_put_parts [OF lt, of "of_int d", folded k_def]
    define s1 where "s1 = s\<lparr>uart_st := (uart_st s)\<lparr>u_reads := n, u_trace := u_trace (uart_st s) @ map (Pair THR) (echo d)\<rparr>, cons_st := k\<rparr>"
    have kw: "cons_w k = cons_w ?k" "cons_e k = cons_e ?k + 1" "cons_r k = cons_r ?k" by (simp_all add: k_def cons_put_def)
    have le': "length (cons_ready k) + length (cons_line k) \<le> INPUT_BUF_SIZE" using lt put by simp
    have full: "cons_e k - cons_r k = of_nat INPUT_BUF_SIZE \<longleftrightarrow> length (cons_ready ?k) + length (cons_line ?k @ [of_int d]) = INPUT_BUF_SIZE"
      using cons_parts(2) [OF le'] put by (simp add: word_unat_eq_iff INPUT_BUF_SIZE_def)
    define com where "com \<longleftrightarrow> d = 10 \<or> d = 4 \<or> cons_e k - cons_r k = of_nat INPUT_BUF_SIZE"
    have run: "consoleintr_default c s = (if com then wakeup ConsChan (s1\<lparr>cons_st := k\<lparr>cons_w := cons_e k\<rparr>\<rparr>) else Some s1)"
      using False room n unfolding consoleintr_default_def com_def s1_def d_def [symmetric] k_def C_values by simp
    have step: "line_step c ?q = (if com then (cons_ready ?k @ cons_line ?k @ [of_int d], []) else (cons_ready ?k, cons_line ?k @ [of_int d]))"
      using False assms(4) unfolding line_step_def com_def full C_values d_def [symmetric] by (auto simp: d_def Let_def)
    show ?thesis
    proof (cases com)
      case True
      have w: "wakeup ConsChan (s1\<lparr>cons_st := k\<lparr>cons_w := cons_e k\<rparr>\<rparr>) = Some (s1\<lparr>cons_st := k\<lparr>cons_w := cons_e k\<rparr>,
          proc := woken {..<NPROC} (cpu_proc s (hart s)) ConsChan (proc s)\<rparr>)"
        using wakeup_eq [of "s1\<lparr>cons_st := k\<lparr>cons_w := cons_e k\<rparr>\<rparr>" ConsChan] assms(1) at_cons_settle [OF assms(1)]
        by (simp add: s1_def at_cons_def can_emit_def others_free_def)
      then show ?thesis
        using True run cons_commit [OF le'] put step echo
        by (auto simp: cons_done_def s1_def intro!: exI [of _ n] exI [of _ "k\<lparr>cons_w := cons_e k\<rparr>"])
    next
      case False
      have "of_int d \<noteq> (10 :: uchar)"
      proof
        assume "of_int d = (10 :: uchar)"
        then have "uint (of_int d :: uchar) = 10" by simp
        moreover have "uint (of_int d :: uchar) = d"
          using assms(2,3) by (simp add: d_def unsigned_of_int take_bit_int_eq_self)
        ultimately show False using False by (simp add: com_def)
      qed
      then have "cons_ok k" using ok put le' by (simp add: cons_ok_def)
      then show ?thesis
        using False run put step echo by (auto simp: cons_done_def s1_def intro!: exI [of _ n] exI [of _ k])
    qed
  qed
qed

lemma consoleintr_switch_done:
  assumes "at_cons s" "0 \<le> c" "c < 256" "c \<noteq> C (CHR ''P'')"
  shows "\<exists>t. consoleintr_switch c s = Some t \<and> cons_done c s t"
proof -
  let ?k = "cons_st s"
  have ok: "cons_ok ?k" using assms(1) by (simp add: at_cons_def)
  consider (kill) "c = 21" | (erase) "c = 8 \<or> c = 127" | (dflt) "c \<notin> {8, 16, 21, 127}"
    using assms(4) by (auto simp: C_values)
  then show ?thesis
  proof cases
    case kill
    have e: "cons_line (?k\<lparr>cons_e := cons_w ?k\<rparr>) = []" "cons_ready (?k\<lparr>cons_e := cons_w ?k\<rparr>) = cons_ready ?k"
      by (simp_all add: cons_line_empty cons_ready_def)
    then have "cons_ok (?k\<lparr>cons_e := cons_w ?k\<rparr>)" using ok by (simp add: cons_ok_def)
    moreover obtain n where "kill_line s = Some (s\<lparr>cons_st := ?k\<lparr>cons_e := cons_w ?k\<rparr>, uart_st := (uart_st s)\<lparr>u_reads := n,
        u_trace := u_trace (uart_st s) @ map (Pair THR) (concat (map (\<lambda>_. echo BACKSPACE) (cons_line ?k)))\<rparr>\<rparr>)"
      using kill_line_ok [OF assms(1)] by blast
    ultimately show ?thesis
      using kill e
      by (auto simp: consoleintr_switch_def C_values cons_done_def line_step_def line_echo_def Let_def
          intro!: exI [of _ n] exI [of _ "?k\<lparr>cons_e := cons_w ?k\<rparr>"])
  next
    case erase
    show ?thesis
    proof (cases "cons_line ?k = []")
      case True
      then have "cons_e ?k = cons_w ?k" by (simp add: cons_line_empty)
      then have "consoleintr_switch c s = Some s" using erase by (auto simp: consoleintr_switch_def C_values)
      moreover have "cons_done c s s"
        using erase True ok by (intro cons_done_refl) (auto simp: C_values line_step_def line_echo_def)
      ultimately show ?thesis by blast
    next
      case False
      note er = cons_erase [OF ok False]
      have ne: "cons_e ?k \<noteq> cons_w ?k" using False by (simp add: cons_line_empty)
      have at': "at_cons (s\<lparr>cons_st := ?k\<lparr>cons_e := cons_e ?k - 1\<rparr>\<rparr>)"
        using at_cons_upd [OF assms(1) er(3), of "uart_st s"] by simp
      obtain n where n: "consputc BACKSPACE (s\<lparr>cons_st := ?k\<lparr>cons_e := cons_e ?k - 1\<rparr>\<rparr>) =
        Some (s\<lparr>cons_st := ?k\<lparr>cons_e := cons_e ?k - 1\<rparr>, uart_st := (uart_st s)\<lparr>u_reads := n,
          u_trace := u_trace (uart_st s) @ map (Pair THR) (echo BACKSPACE)\<rparr>\<rparr>)"
        using consputc_inside [OF at', of BACKSPACE] by auto
      then have "consoleintr_switch c s = consputc BACKSPACE (s\<lparr>cons_st := ?k\<lparr>cons_e := cons_e ?k - 1\<rparr>\<rparr>)"
        using erase ne by (auto simp: consoleintr_switch_def C_values)
      moreover have ls: "line_step c (cons_ready ?k, cons_line ?k) = (cons_ready ?k, butlast (cons_line ?k))"
        "line_echo c (cons_ready ?k, cons_line ?k) = echo BACKSPACE"
        using erase False by (auto simp: line_step_def line_echo_def C_values)
      have "cons_done c s (s\<lparr>cons_st := ?k\<lparr>cons_e := cons_e ?k - 1\<rparr>, uart_st := (uart_st s)\<lparr>u_reads := n,
          u_trace := u_trace (uart_st s) @ map (Pair THR) (echo BACKSPACE)\<rparr>\<rparr>)"
        unfolding cons_done_def Let_def ls
        by (rule exI [of _ n], rule exI [of _ "?k\<lparr>cons_e := cons_e ?k - 1\<rparr>"]) (simp add: er)
      ultimately show ?thesis unfolding n by blast
    qed
  next
    case dflt
    then show ?thesis
      using consoleintr_default_done [OF assms(1-3)] by (auto simp: consoleintr_switch_def C_values)
  qed
qed

text \<open>
  C32. The console's interrupt handler implements a line editor. For every input character except ^P,
  consoleintr() returns with the lock free, and the complete lines and the line being typed that the
  ring represents change as the editor says: ^U drops the line being typed, backspace and delete its
  last character, anything else is appended (carriage return as newline) unless the 128 bytes are
  full; a newline, ^D or a full buffer hands the line over to the readers, who are woken exactly then.
  The echo is the corresponding text, and the ring invariant is kept however the counters wrap.
\<close>

theorem consoleintr_line_editor:
  assumes "can_emit s" "others_free s" "free ConsLock s" "cons_ok (cons_st s)"
    and "0 \<le> c" "c < 256" "c \<noteq> C (CHR ''P'')"
  shows "\<exists>s'. consoleintr c s = Some s' \<and> free ConsLock s' \<and> cons_ok (cons_st s') \<and>
    (let q = (cons_ready (cons_st s), cons_line (cons_st s)) in
     (cons_ready (cons_st s'), cons_line (cons_st s')) = line_step c q \<and>
     u_trace (uart_st s') = u_trace (uart_st s) @ map (Pair THR) (line_echo c q) \<and>
     proc s' = (if fst (line_step c q) = fst q then proc s else woken {..<NPROC} (cpu_proc s (hart s)) ConsChan (proc s)))"
proof -
  let ?a = "acquired ConsLock s" and ?q = "(cons_ready (cons_st s), cons_line (cons_st s))"
  have cpu: "cpu_ok s" using assms(1) by (simp add: can_emit_def)
  have "at_cons ?a" using assms(1,2,4) cpu by (simp add: at_cons_def can_emit_def others_free_def)
  then obtain t where t: "consoleintr_switch c ?a = Some t" "cons_done c ?a t"
    using consoleintr_switch_done assms(5-7) by blast
  have start: "consoleintr c s = release ConsLock t"
    using t(1) assms(3) by (simp add: consoleintr_def)
  from t(2) obtain n k where k: "t = ?a\<lparr>uart_st := (uart_st s)\<lparr>u_reads := n, u_trace := u_trace (uart_st s) @ map (Pair THR) (line_echo c ?q)\<rparr>,
      cons_st := k, proc := (if fst (line_step c ?q) = fst ?q then proc s else woken {..<NPROC} (cpu_proc s (hart s)) ConsChan (proc s))\<rparr>"
    "cons_ok k" "(cons_ready k, cons_line k) = line_step c ?q"
    unfolding cons_done_def Let_def uart_st_frame(7) cons_st_frame(7) proc_frame(7) cpu_proc_frame(7) acquired_fields(1)
    by blast
  show ?thesis
    unfolding start k(1) using assms(3) cpu k(2,3) by (simp add: Let_def)
qed

theorem consoleintr_line_editor_witness:
  "\<exists>s'. consoleintr 13 dsample = Some s' \<and> cons_ready (cons_st s') = [10] \<and> cons_line (cons_st s') = [] \<and>
     u_trace (uart_st s') = [(THR, 10)]"
proof -
  have e: "cons_ready empty_cons = []" "cons_line empty_cons = []"
    by (simp_all add: cons_ready_def cons_line_def ring_list_empty_iff empty_cons_def)
  then have "cons_ok empty_cons" by (simp add: cons_ok_def)
  then show ?thesis
    using consoleintr_line_editor [of dsample 13] e
    by (auto simp: C_values line_step_def line_echo_def echo_def BACKSPACE_def INPUT_BUF_SIZE_def idle_uart_def Let_def)
qed

section \<open>Reading a line\<close>

text \<open>
  \<open>take_line n fresh q\<close>: what a read of \<open>n\<close> more bytes takes from the complete input \<open>q\<close>, \<open>fresh\<close> if
  nothing was delivered yet: the bytes, the input left, and whether the read has to wait for more.
\<close>

fun take_line :: "nat \<Rightarrow> bool \<Rightarrow> uchar list \<Rightarrow> uchar list \<times> uchar list \<times> bool" where
  "take_line 0 fresh q = ([], q, False)"
| "take_line (Suc n) fresh [] = ([], [], True)"
| "take_line (Suc n) fresh (c # q) =
     (if c = 4 then ([], if fresh then q else c # q, False)
      else if c = 10 then ([c], q, False)
      else let (d, q, b) = take_line n False q in (c # d, q, b))"

definition at_read :: "nat \<Rightarrow> uint64 \<Rightarrow> (uint64 \<rightharpoonup> nat) \<Rightarrow> uint64 list \<Rightarrow> 'a devs_scheme \<Rightarrow> bool" where
  "at_read p root lvl ps s \<longleftrightarrow> cpu_ok s \<and> noff (mycpu s) \<noteq> 0 \<and> cpu_proc s (hart s) = Some p \<and> free (ProcLock p) s \<and>
     p_killed (proc s p) = 0 \<and> vm_inv root lvl ps s \<and> user_sep root lvl ps s \<and> p_pagetable (proc s p) = root"

lemma at_readD:
  assumes "at_read p root lvl ps s"
  shows "cpu_ok s" "settle s = s" "cpu_proc s (hart s) = Some p" "free (ProcLock p) s" "p_killed (proc s p) = 0"
    "vm_inv root lvl ps s" "user_sep root lvl ps s" "p_pagetable (proc s p) = root"
  using assms settle_inside [of s "settle s"]
  by (auto simp: at_read_def settle_form settle_cpu_def mycpu_def)

lemma at_read_cons:
  assumes "at_read p root lvl ps s"
  shows "at_read p root lvl ps (s\<lparr>cons_st := k\<rparr>)"
  using assms vm_inv_cong [of root lvl ps s "s\<lparr>cons_st := k\<rparr>"] user_sep_cong [of root lvl ps s "s\<lparr>cons_st := k\<rparr>"]
  by (auto simp: at_read_def vm_inv_def kmem_ready_def)

lemma cons_ready_step:
  assumes "cons_r k \<noteq> cons_w k"
  shows "cons_ready k = cons_buf k (unat (cons_r k) mod INPUT_BUF_SIZE) # cons_ready (k\<lparr>cons_r := cons_r k + 1\<rparr>)"
  using ring_get [OF assms] by (simp add: cons_ready_def)

lemma cons_ready_empty: "cons_ready k = [] \<longleftrightarrow> cons_r k = cons_w k"
  by (simp add: cons_ready_def ring_list_empty_iff)

lemma either_copyout_user:
  assumes "at_read p root lvl ps s" "user_pa root s dst = Some x"
  shows "either_copyout True dst [c] s = Some (0, s\<lparr>phys := (phys s)(x := c)\<rparr>)"
  using at_readD [OF assms(1)] copyout_byte [of root lvl ps s dst c] assms(2)
  by (simp add: either_copyout_def)

lemma consoleread_loop_ok:
  assumes "at_read p root lvl ps s" "m \<le> N" "N < 2 ^ 31" "\<forall>i<m. user_pa root s (dst + of_nat i) \<noteq> None"
    and "take_line m (m = N) (cons_ready (cons_st s)) = (d, q, b)"
  shows "\<exists>k. consoleread_loop True (of_nat N) dst (int m) s = Some (dst + of_nat (length d), int m - int (length d),
      if b then Sleeps ConsChan else Returns True, s\<lparr>cons_st := k, phys := phys (snd (user_store root dst d s))\<rparr>) \<and>
    cons_ready k = q \<and> k\<lparr>cons_r := cons_r (cons_st s)\<rparr> = cons_st s"
  using assms
proof (induction m arbitrary: s dst d)
  case 0
  then have "d = []" "q = cons_ready (cons_st s)" "\<not> b" by auto
  moreover have "consoleread_loop True (of_nat N) dst (int 0) s = Some (dst, 0, Returns True, s)"
    by (subst consoleread_loop.simps) simp
  ultimately show ?case by (intro exI [of _ "cons_st s"]) simp
next
  case (Suc m)
  note at = at_readD [OF Suc.prems(1)]
  let ?k = "cons_st s"
  show ?case
  proof (cases "cons_ready ?k")
    case Nil
    then have e: "cons_r ?k = cons_w ?k" by (simp add: cons_ready_empty)
    have e': "d = []" "q = []" "b" using Suc.prems(5) unfolding Nil by auto
    have "consoleread_loop True (of_nat N) dst (int (Suc m)) s = Some (dst, int (Suc m), Sleeps ConsChan, s)"
      using e at killed_eq [OF at(1,4)] by (subst consoleread_loop.simps) simp
    then show ?thesis using e' Nil by (intro exI [of _ ?k]) simp
  next
    case (Cons c r)
    have ne: "cons_r ?k \<noteq> cons_w ?k" using Cons cons_ready_empty [of ?k] by auto
    define k1 where "k1 = ?k\<lparr>cons_r := cons_r ?k + 1\<rparr>"
    have c: "cons_buf ?k (unat (cons_r ?k) mod INPUT_BUF_SIZE) = c" "cons_ready k1 = r"
      using cons_ready_step [OF ne] Cons by (simp_all add: k1_def)
    have uD: "uint c = C (CHR ''D'') \<longleftrightarrow> c = 4" by (auto simp: C_values word_uint_eq_iff)
    have tgt: "(of_int (int (Suc m)) :: uint) < of_nat N \<longleftrightarrow> Suc m \<noteq> N"
      using Suc.prems(2,3) by (auto simp: word_less_nat_alt unat_of_nat_small simp del: of_nat_Suc)
    have "user_pa root s dst \<noteq> None" using Suc.prems(4) [rule_format, of 0] by simp
    then obtain x where x: "user_pa root s dst = Some x" by blast
    define s1 where "s1 = s\<lparr>cons_st := k1\<rparr>"
    have at1: "at_read p root lvl ps s1" unfolding s1_def using Suc.prems(1) by (rule at_read_cons)
    have up1: "user_pa root s1 = user_pa root s" by (rule user_pa_cong) (simp add: s1_def)
    define s2 where "s2 = s1\<lparr>phys := (phys s)(x := c)\<rparr>"
    have co: "either_copyout True dst [c] s1 = Some (0, s2)"
      using either_copyout_user [OF at1, of dst x c] x up1 by (simp add: s2_def s1_def)
    consider (eof) "c = 4" | (nl) "c = 10" | (more) "c \<noteq> 4" "c \<noteq> 10" by blast
    then show ?thesis
    proof cases
      case eof
      then have r: "d = []" "q = (if Suc m = N then r else c # r)" "\<not> b" using Suc.prems(5) Cons by auto
      have "consoleread_loop True (of_nat N) dst (int (Suc m)) s =
          Some (dst, int (Suc m), Returns True, s\<lparr>cons_st := (if Suc m = N then k1 else ?k)\<rparr>)"
        using ne c(1) uD eof tgt by (subst consoleread_loop.simps) (simp add: k1_def del: of_nat_Suc)
      then show ?thesis
        using r c Cons by (intro exI [of _ "if Suc m = N then k1 else ?k"]) (simp add: k1_def)
    next
      case nl
      then have r: "d = [c]" "q = r" "\<not> b" using Suc.prems(5) Cons by auto
      have "consoleread_loop True (of_nat N) dst (int (Suc m)) s = Some (dst + 1, int m, Returns True, s2)"
        using ne c(1) uD nl co by (subst consoleread_loop.simps) (simp add: s1_def k1_def)
      then show ?thesis
        using r c x by (intro exI [of _ k1]) (simp add: k1_def s2_def s1_def del: fun_upd_apply)
    next
      case more
      obtain d' where d': "take_line m False r = (d', q, b)" "d = c # d'"
        using Suc.prems(5) Cons more by (auto split: prod.splits)
      have step: "consoleread_loop True (of_nat N) dst (int (Suc m)) s = consoleread_loop True (of_nat N) (dst + 1) (int m) s2"
        using ne c(1) uD more co by (subst consoleread_loop.simps) (simp add: s1_def k1_def)
      have fr: "vm_inv root lvl ps s2" "user_sep root lvl ps s2" "user_pa root s2 = user_pa root s1"
        using user_write_frame [OF at_readD(6,7) [OF at1], of dst x c] x up1 by (simp_all add: s2_def s1_def)
      have at2: "at_read p root lvl ps s2"
        using fr(1,2) at1 by (simp add: at_read_def s2_def)
      have mapped: "\<forall>i<m. user_pa root s2 (dst + 1 + of_nat i) \<noteq> None"
      proof (intro allI impI)
        fix i assume "i < m"
        then have "user_pa root s (dst + of_nat (Suc i)) \<noteq> None" using Suc.prems(4) by blast
        then show "user_pa root s2 (dst + 1 + of_nat i) \<noteq> None" using fr(3) up1 by (simp add: ac_simps)
      qed
      have t: "take_line m (m = N) (cons_ready (cons_st s2)) = (d', q, b)"
        using d'(1) Suc.prems(2) c(2) by (simp add: s2_def s1_def)
      obtain k where k: "consoleread_loop True (of_nat N) (dst + 1) (int m) s2 = Some (dst + 1 + of_nat (length d'),
          int m - int (length d'), if b then Sleeps ConsChan else Returns True,
          s2\<lparr>cons_st := k, phys := phys (snd (user_store root (dst + 1) d' s2))\<rparr>)" "cons_ready k = q"
        "k\<lparr>cons_r := cons_r (cons_st s2)\<rparr> = cons_st s2"
        using Suc.IH [OF at2 _ Suc.prems(3) mapped t] Suc.prems(2) by auto
      have "phys s2 = phys (s\<lparr>phys := (phys s)(x := c)\<rparr>)" by (simp add: s2_def)
      then have "phys (snd (user_store root (dst + 1) d' s2)) = phys (snd (user_store root dst d s))"
        using user_store_cong [of s2 "s\<lparr>phys := (phys s)(x := c)\<rparr>" root "dst + 1" d'] x d'(2) by simp
      moreover have "k\<lparr>cons_r := cons_r ?k\<rparr> = ?k"
        using arg_cong [OF k(3), of "\<lambda>z. z\<lparr>cons_r := cons_r ?k\<rparr>"] by (simp add: s2_def s1_def k1_def)
      ultimately show ?thesis
        using step k(1,2) d'(2) by (intro exI [of _ k]) (simp add: s2_def s1_def ac_simps del: fun_upd_apply)
    qed
  qed
qed

lemma take_line_length: "take_line n f q = (d, q', b) \<Longrightarrow> length d \<le> n"
proof (induction n f q arbitrary: d q' b rule: take_line.induct)
  case (3 n f c q)
  then show ?case by (cases "take_line n False q") (auto split: if_splits)
qed auto

text \<open>
  C33. read() on the console delivers at most one line. consoleread(1, dst, n), called by a process
  that was not killed on a mapped buffer of n bytes, takes from the complete input up to n bytes, up
  to and including a newline, or up to a ^D, which it consumes only when nothing precedes it in this
  read (so that the next read returns 0). It stores these bytes at dst, returns their number and
  releases the lock; if the input runs out first it sleeps with the lock held, the bytes so far stored.
\<close>

theorem consoleread_one_line:
  assumes "at_read p root lvl ps (acquired ConsLock s)" "cpu_ok s" "free ConsLock s" "n < 2 ^ 31"
    and "\<forall>i<n. user_pa root s (dst + of_nat i) \<noteq> None"
    and "take_line n True (cons_ready (cons_st s)) = (d, q, b)"
  shows "\<exists>r s'. consoleread True dst (int n) s = Some (dst + of_nat (length d), int n - int (length d), r, s') \<and>
    cons_ready (cons_st s') = q \<and> phys s' = phys (snd (user_store root dst d s)) \<and>
    (if b then r = Sleeps ConsChan \<and> holding ConsLock s' else r = Returns (int (length d)) \<and> free ConsLock s')"
proof -
  let ?a = "acquired ConsLock s"
  have up: "user_pa root ?a = user_pa root s" by (rule user_pa_cong) simp
  obtain k where k: "consoleread_loop True (of_nat n) dst (int n) ?a = Some (dst + of_nat (length d), int n - int (length d),
      if b then Sleeps ConsChan else Returns True, ?a\<lparr>cons_st := k, phys := phys (snd (user_store root dst d ?a))\<rparr>)"
    "cons_ready k = q"
    using consoleread_loop_ok [OF assms(1) order_refl assms(4), of dst d q b] assms(5,6) by (auto simp: up)
  have m: "phys (snd (user_store root dst d ?a)) = phys (snd (user_store root dst d s))"
    by (rule user_store_cong) simp
  have le: "length d \<le> n"
    using assms(6) by (rule take_line_length)
  let ?s = "?a\<lparr>cons_st := k, phys := phys (snd (user_store root dst d s))\<rparr>"
  have start: "consoleread True dst (int n) s = consoleread_from True (of_nat n) dst (int n) ?a"
    using assms(3) by (simp add: consoleread_def)
  show ?thesis
  proof (cases b)
    case True
    then have "consoleread True dst (int n) s = Some (dst + of_nat (length d), int n - int (length d), Sleeps ConsChan, ?s)"
      using k(1) m start by (simp add: consoleread_from_def)
    moreover have "holding ConsLock ?s" by (simp add: holding_def acquired_form)
    ultimately show ?thesis using True k(2) by simp
  next
    case False
    have "release ConsLock ?s = Some ((settle s)\<lparr>cons_st := k, phys := phys (snd (user_store root dst d s))\<rparr>)"
      using assms(2,3) by simp
    moreover have "sint (of_nat n - of_int (int n - int (length d)) :: uint) = int (length d)"
    proof -
      have "(of_nat n - of_int (int n - int (length d)) :: uint) = of_nat (length d)" by simp
      moreover have "sint (of_nat (length d) :: uint) = int (length d)"
        using le assms(4) by (simp add: sint_of_nat_small)
      ultimately show ?thesis by (simp only:)
    qed
    ultimately have "consoleread True dst (int n) s = Some (dst + of_nat (length d), int n - int (length d),
        Returns (int (length d)), (settle s)\<lparr>cons_st := k, phys := phys (snd (user_store root dst d s))\<rparr>)"
      using False k(1) m start assms(2,3) by (simp add: consoleread_from_def)
    then show ?thesis using False k(2) assms(3) by simp
  qed
qed

theorem consoleread_one_line_witness:
  "\<exists>s'. consoleread True 0x10 2 (dsample\<lparr>cons_st := (cons_put 10 empty_cons)\<lparr>cons_w := 0xFFFFFFFF\<rparr>\<rparr>) =
     Some (0x11, 1, Returns 1, s') \<and> cons_ready (cons_st s') = [] \<and> free ConsLock s'"
proof -
  define k where "k = (cons_put 10 empty_cons)\<lparr>cons_w := 0xFFFFFFFF\<rparr>"
  define s where "s = dsample\<lparr>cons_st := k\<rparr>"
  have k: "cons_ready k = [10]"
    by (simp add: k_def cons_ready_def ring_list_def cons_put_def empty_cons_def INPUT_BUF_SIZE_def)
  have same: "phys s = phys sample" "kend s = kend sample" "freelist s = freelist sample"
    by (simp_all add: s_def psample_def sample_def)
  have ok: "cpu_ok s" "\<And>lk. free lk s" by (simp_all add: s_def)
  have vm: "vm_inv 0x80100000 sample_lvl [0x80104000, 0x80105000, 0x80106000] (acquired ConsLock s)"
    using same ok by (intro vm_inv_cong [OF sample_vm_inv]) simp_all
  have at: "at_read 0 0x80100000 sample_lvl [0x80104000, 0x80105000, 0x80106000] (acquired ConsLock s)"
    using vm user_sep_cong [OF sample_user_sep, of "acquired ConsLock s"] same ok
    by (simp add: at_read_def) (simp add: s_def psample_procs_def idle_proc_def)
  have up: "user_pa 0x80100000 s = user_pa 0x80100000 sample" using same(1) by (rule user_pa_cong)
  have mapped: "\<forall>i<2. user_pa 0x80100000 s (0x10 + of_nat i) \<noteq> None"
    using sample_user_pa by (auto simp: up numeral_2_eq_2 less_Suc_eq)
  have t: "take_line 2 True (cons_ready (cons_st s)) = ([10], [], False)"
    unfolding numeral_2_eq_2 by (simp add: s_def k)
  show ?thesis
    using consoleread_one_line [OF at ok(1,2) _ mapped t] unfolding s_def k_def by auto
qed

end
