(* ===== verification/Virtio.thy ===== *)
theory Virtio
  imports Console
begin

text \<open>
  kernel/virtio_disk.c, the driver of the disk, with buf.h and virtio.h. The disk itself is a
  parameter of the state: \<open>v_env n r\<close> is what the \<open>n\<close>-th read of a control register returns,
  \<open>v_trace\<close> collects the register writes, and \<open>device\<close> is the function by which the device serves the
  requests in the queue, given the queue, the data of the buffers and the contents of the disk.
  Contents are kept per 1024-byte transfer, by its first sector, together with the list of writes
  in the order in which they reached the disk.
\<close>

section \<open>Constants\<close>

definition VIRTIO_MMIO_MAGIC_VALUE :: nat where "VIRTIO_MMIO_MAGIC_VALUE = 0x000"
definition VIRTIO_MMIO_VERSION :: nat where "VIRTIO_MMIO_VERSION = 0x004"
definition VIRTIO_MMIO_DEVICE_ID :: nat where "VIRTIO_MMIO_DEVICE_ID = 0x008"
definition VIRTIO_MMIO_VENDOR_ID :: nat where "VIRTIO_MMIO_VENDOR_ID = 0x00c"
definition VIRTIO_MMIO_DEVICE_FEATURES :: nat where "VIRTIO_MMIO_DEVICE_FEATURES = 0x010"
definition VIRTIO_MMIO_DRIVER_FEATURES :: nat where "VIRTIO_MMIO_DRIVER_FEATURES = 0x020"
definition VIRTIO_MMIO_QUEUE_SEL :: nat where "VIRTIO_MMIO_QUEUE_SEL = 0x030"
definition VIRTIO_MMIO_QUEUE_NUM_MAX :: nat where "VIRTIO_MMIO_QUEUE_NUM_MAX = 0x034"
definition VIRTIO_MMIO_QUEUE_NUM :: nat where "VIRTIO_MMIO_QUEUE_NUM = 0x038"
definition VIRTIO_MMIO_QUEUE_READY :: nat where "VIRTIO_MMIO_QUEUE_READY = 0x044"
definition VIRTIO_MMIO_QUEUE_NOTIFY :: nat where "VIRTIO_MMIO_QUEUE_NOTIFY = 0x050"
definition VIRTIO_MMIO_INTERRUPT_STATUS :: nat where "VIRTIO_MMIO_INTERRUPT_STATUS = 0x060"
definition VIRTIO_MMIO_INTERRUPT_ACK :: nat where "VIRTIO_MMIO_INTERRUPT_ACK = 0x064"
definition VIRTIO_MMIO_STATUS :: nat where "VIRTIO_MMIO_STATUS = 0x070"
definition VIRTIO_MMIO_QUEUE_DESC_LOW :: nat where "VIRTIO_MMIO_QUEUE_DESC_LOW = 0x080"
definition VIRTIO_MMIO_QUEUE_DESC_HIGH :: nat where "VIRTIO_MMIO_QUEUE_DESC_HIGH = 0x084"
definition VIRTIO_MMIO_DRIVER_DESC_LOW :: nat where "VIRTIO_MMIO_DRIVER_DESC_LOW = 0x090"
definition VIRTIO_MMIO_DRIVER_DESC_HIGH :: nat where "VIRTIO_MMIO_DRIVER_DESC_HIGH = 0x094"
definition VIRTIO_MMIO_DEVICE_DESC_LOW :: nat where "VIRTIO_MMIO_DEVICE_DESC_LOW = 0x0a0"
definition VIRTIO_MMIO_DEVICE_DESC_HIGH :: nat where "VIRTIO_MMIO_DEVICE_DESC_HIGH = 0x0a4"
definition VIRTIO_CONFIG_S_ACKNOWLEDGE :: uint where "VIRTIO_CONFIG_S_ACKNOWLEDGE = 1"
definition VIRTIO_CONFIG_S_DRIVER :: uint where "VIRTIO_CONFIG_S_DRIVER = 2"
definition VIRTIO_CONFIG_S_DRIVER_OK :: uint where "VIRTIO_CONFIG_S_DRIVER_OK = 4"
definition VIRTIO_CONFIG_S_FEATURES_OK :: uint where "VIRTIO_CONFIG_S_FEATURES_OK = 8"
definition VIRTIO_BLK_F_RO :: nat where "VIRTIO_BLK_F_RO = 5"
definition VIRTIO_BLK_F_SCSI :: nat where "VIRTIO_BLK_F_SCSI = 7"
definition VIRTIO_BLK_F_CONFIG_WCE :: nat where "VIRTIO_BLK_F_CONFIG_WCE = 11"
definition VIRTIO_BLK_F_MQ :: nat where "VIRTIO_BLK_F_MQ = 12"
definition VIRTIO_F_ANY_LAYOUT :: nat where "VIRTIO_F_ANY_LAYOUT = 27"
definition VIRTIO_RING_F_INDIRECT_DESC :: nat where "VIRTIO_RING_F_INDIRECT_DESC = 28"
definition VIRTIO_RING_F_EVENT_IDX :: nat where "VIRTIO_RING_F_EVENT_IDX = 29"
definition NUM :: nat where "NUM = 8"
definition VRING_DESC_F_NEXT :: ushort where "VRING_DESC_F_NEXT = 1"
definition VRING_DESC_F_WRITE :: ushort where "VRING_DESC_F_WRITE = 2"
definition VIRTIO_BLK_T_IN :: uint where "VIRTIO_BLK_T_IN = 0"
definition VIRTIO_BLK_T_OUT :: uint where "VIRTIO_BLK_T_OUT = 1"
definition BSIZE :: nat where "BSIZE = 1024"

section \<open>State\<close>

text \<open>The addresses that descriptors hold: of \<open>ops[i]\<close>, of the data of buffer \<open>i\<close>, of \<open>info[i].status\<close>.\<close>

datatype dma = DNull | DOp nat | DData nat | DStatus nat

record virtq_desc =
  d_addr :: dma
  d_len :: uint
  d_flags :: ushort
  d_next :: nat

record virtio_blk_req =
  rq_type :: uint
  rq_reserved :: uint
  rq_sector :: uint64

text \<open>
  \<open>struct disk\<close>: the descriptors, the avail ring and the used ring that live in three pages shared
  with the device, and the driver's own book-keeping.
\<close>

record vdisk =
  desc :: "nat \<Rightarrow> virtq_desc"
  avail_idx :: ushort
  avail_ring :: "nat \<Rightarrow> nat"
  used_idx :: ushort  \<comment> \<open>\<open>disk.used->idx\<close>\<close>
  used_ring :: "nat \<Rightarrow> nat"
  queue_pages :: "uint64 \<times> uint64 \<times> uint64"
  vfree :: "nat \<Rightarrow> bool"
  seen_idx :: ushort  \<comment> \<open>\<open>disk.used_idx\<close>\<close>
  info_b :: "nat \<Rightarrow> nat option"
  info_status :: "nat \<Rightarrow> uchar"
  ops :: "nat \<Rightarrow> virtio_blk_req"

record buf =
  valid_b :: bool
  b_disk :: bool
  b_dev :: uint
  blockno :: uint
  refcnt :: uint
  b_prev :: nat
  b_next :: nat
  b_data :: bytes

record platter =
  sectors :: "uint64 \<Rightarrow> bytes"
  writes :: "(uint64 \<times> bytes) list"

type_synonym vdevice = "vdisk \<Rightarrow> (nat \<Rightarrow> bytes) \<Rightarrow> platter \<Rightarrow> vdisk \<times> (nat \<Rightarrow> bytes) \<times> platter"

record mmio =
  v_env :: "nat \<Rightarrow> nat \<Rightarrow> uint"
  v_reads :: nat
  v_trace :: "(nat \<times> uint) list"

record disks = devs +
  mmio_st :: mmio
  vd :: vdisk
  device :: vdevice
  disk :: platter
  bufs :: "nat \<Rightarrow> buf"

definition upd_buf :: "nat \<Rightarrow> (buf \<Rightarrow> buf) \<Rightarrow> 'a disks_scheme \<Rightarrow> 'a disks_scheme" where
  "upd_buf i f s = s\<lparr>bufs := (bufs s)(i := f (bufs s i))\<rparr>"

definition upd_desc :: "nat \<Rightarrow> (virtq_desc \<Rightarrow> virtq_desc) \<Rightarrow> 'a disks_scheme \<Rightarrow> 'a disks_scheme" where
  "upd_desc i f s = s\<lparr>vd := (vd s)\<lparr>desc := (desc (vd s))(i := f (desc (vd s) i))\<rparr>\<rparr>"

definition readR :: "nat \<Rightarrow> 'a disks_scheme \<Rightarrow> uint \<times> 'a disks_scheme" where
  "readR r s = (v_env (mmio_st s) (v_reads (mmio_st s)) r,
     s\<lparr>mmio_st := (mmio_st s)\<lparr>v_reads := v_reads (mmio_st s) + 1\<rparr>\<rparr>)"

definition writeR :: "nat \<Rightarrow> uint \<Rightarrow> 'a disks_scheme \<Rightarrow> 'a disks_scheme" where
  "writeR r v s = s\<lparr>mmio_st := (mmio_st s)\<lparr>v_trace := v_trace (mmio_st s) @ [(r, v)]\<rparr>\<rparr>"

section \<open>Initialisation\<close>

definition features_mask :: uint64 where
  "features_mask = NOT (push_bit VIRTIO_BLK_F_RO 1) AND NOT (push_bit VIRTIO_BLK_F_SCSI 1) AND
     NOT (push_bit VIRTIO_BLK_F_CONFIG_WCE 1) AND NOT (push_bit VIRTIO_BLK_F_MQ 1) AND
     NOT (push_bit VIRTIO_F_ANY_LAYOUT 1) AND NOT (push_bit VIRTIO_RING_F_EVENT_IDX 1) AND
     NOT (push_bit VIRTIO_RING_F_INDIRECT_DESC 1)"

definition virtio_disk_init :: "'a disks_scheme \<Rightarrow> 'a disks_scheme option" where
  "virtio_disk_init s = do {
     let s = initlock DiskLock ''virtio_disk'' s;
     let (magic, s) = readR VIRTIO_MMIO_MAGIC_VALUE s;
     panic_if (magic \<noteq> 0x74726976) ''could not find virtio disk'';
     let (version, s) = readR VIRTIO_MMIO_VERSION s;
     panic_if (version \<noteq> 2) ''could not find virtio disk'';
     let (device_id, s) = readR VIRTIO_MMIO_DEVICE_ID s;
     panic_if (device_id \<noteq> 2) ''could not find virtio disk'';
     let (vendor, s) = readR VIRTIO_MMIO_VENDOR_ID s;
     panic_if (vendor \<noteq> 0x554d4551) ''could not find virtio disk'';
     let status = 0;
     let s = writeR VIRTIO_MMIO_STATUS status s;
     let status = status OR VIRTIO_CONFIG_S_ACKNOWLEDGE;
     let s = writeR VIRTIO_MMIO_STATUS status s;
     let status = status OR VIRTIO_CONFIG_S_DRIVER;
     let s = writeR VIRTIO_MMIO_STATUS status s;
     let (f, s) = readR VIRTIO_MMIO_DEVICE_FEATURES s;
     let features = ucast f AND features_mask;
     let s = writeR VIRTIO_MMIO_DRIVER_FEATURES (ucast features) s;
     let status = status OR VIRTIO_CONFIG_S_FEATURES_OK;
     let s = writeR VIRTIO_MMIO_STATUS status s;
     let (status, s) = readR VIRTIO_MMIO_STATUS s;
     panic_if (status AND VIRTIO_CONFIG_S_FEATURES_OK = 0) ''virtio disk FEATURES_OK unset'';
     let s = writeR VIRTIO_MMIO_QUEUE_SEL 0 s;
     let (ready, s) = readR VIRTIO_MMIO_QUEUE_READY s;
     panic_if (ready \<noteq> 0) ''virtio disk should not be ready'';
     let (mx, s) = readR VIRTIO_MMIO_QUEUE_NUM_MAX s;
     panic_if (mx = 0) ''virtio disk has no queue 0'';
     panic_if (mx < of_nat NUM) ''virtio disk max queue too short'';
     (d, s) \<leftarrow> kalloc s;
     (a, s) \<leftarrow> kalloc s;
     (u, s) \<leftarrow> kalloc s;
     panic_if (d = 0 \<or> a = 0 \<or> u = 0) ''virtio disk kalloc'';
     let s = s\<lparr>vd := (vd s)\<lparr>queue_pages := (d, a, u),
       desc := (\<lambda>_. \<lparr>d_addr = DNull, d_len = 0, d_flags = 0, d_next = 0\<rparr>),
       avail_idx := 0, avail_ring := (\<lambda>_. 0), used_idx := 0, used_ring := (\<lambda>_. 0)\<rparr>\<rparr>;
     let s = writeR VIRTIO_MMIO_QUEUE_NUM (of_nat NUM) s;
     let s = writeR VIRTIO_MMIO_QUEUE_DESC_LOW (ucast d) s;
     let s = writeR VIRTIO_MMIO_QUEUE_DESC_HIGH (ucast (drop_bit 32 d)) s;
     let s = writeR VIRTIO_MMIO_DRIVER_DESC_LOW (ucast a) s;
     let s = writeR VIRTIO_MMIO_DRIVER_DESC_HIGH (ucast (drop_bit 32 a)) s;
     let s = writeR VIRTIO_MMIO_DEVICE_DESC_LOW (ucast u) s;
     let s = writeR VIRTIO_MMIO_DEVICE_DESC_HIGH (ucast (drop_bit 32 u)) s;
     let s = writeR VIRTIO_MMIO_QUEUE_READY 1 s;
     let s = s\<lparr>vd := (vd s)\<lparr>vfree := (\<lambda>i. if i < NUM then True else vfree (vd s) i)\<rparr>\<rparr>;
     let status = status OR VIRTIO_CONFIG_S_DRIVER_OK;
     Some (writeR VIRTIO_MMIO_STATUS status s)
   }"

section \<open>Descriptors\<close>

definition alloc_desc :: "'a disks_scheme \<Rightarrow> int \<times> 'a disks_scheme" where
  "alloc_desc s = (case find (\<lambda>i. vfree (vd s) i) [0..<NUM] of
     None \<Rightarrow> (-1, s)
   | Some i \<Rightarrow> (int i, s\<lparr>vd := (vd s)\<lparr>vfree := (vfree (vd s))(i := False)\<rparr>\<rparr>))"

definition free_desc :: "nat \<Rightarrow> 'a disks_scheme \<Rightarrow> 'a disks_scheme option" where
  "free_desc i s = do {
     panic_if (NUM \<le> i) ''free_desc 1'';
     panic_if (vfree (vd s) i) ''free_desc 2'';
     let s = upd_desc i (\<lambda>_. \<lparr>d_addr = DNull, d_len = 0, d_flags = 0, d_next = 0\<rparr>) s;
     let s = s\<lparr>vd := (vd s)\<lparr>vfree := (vfree (vd s))(i := True)\<rparr>\<rparr>;
     wakeup DiskFreeChan s
   }"

partial_function (option) free_chain :: "nat \<Rightarrow> 'a disks_scheme \<Rightarrow> 'a disks_scheme option" where
  "free_chain i s = do {
     let flag = d_flags (desc (vd s) i);
     let nxt = d_next (desc (vd s) i);
     s \<leftarrow> free_desc i s;
     if flag AND VRING_DESC_F_NEXT \<noteq> 0 then free_chain nxt s else Some s
   }"

fun free_descs :: "nat list \<Rightarrow> 'a disks_scheme \<Rightarrow> 'a disks_scheme option" where
  "free_descs [] s = Some s"
| "free_descs (i # is) s = do { s \<leftarrow> free_desc i s; free_descs is s }"

text \<open>\<open>alloc3_desc\<close>: the indices so far are the argument; None instead of -1 when it gives up.\<close>

fun alloc_descs :: "nat \<Rightarrow> nat list \<Rightarrow> 'a disks_scheme \<Rightarrow> (nat list option \<times> 'a disks_scheme) option" where
  "alloc_descs 0 idx s = Some (Some idx, s)"
| "alloc_descs (Suc n) idx s = do {
     let (i, s) = alloc_desc s;
     if i < 0 then do { s \<leftarrow> free_descs idx s; Some (None, s) }
     else alloc_descs n (idx @ [nat i]) s
   }"

definition alloc3_desc :: "'a disks_scheme \<Rightarrow> (nat list option \<times> 'a disks_scheme) option" where
  "alloc3_desc s = alloc_descs 3 [] s"

section \<open>Reading and writing a block\<close>

text \<open>\<open>virtio_disk_rw\<close> from the formatting of the descriptors to the notification of the device.\<close>

definition virtio_submit :: "nat \<Rightarrow> bool \<Rightarrow> uint64 \<Rightarrow> nat \<Rightarrow> nat \<Rightarrow> nat \<Rightarrow> 'a disks_scheme \<Rightarrow> 'a disks_scheme" where
  "virtio_submit b wr sector i0 i1 i2 s =
     (let s = s\<lparr>vd := (vd s)\<lparr>ops := (ops (vd s))(i0 :=
            \<lparr>rq_type = (if wr then VIRTIO_BLK_T_OUT else VIRTIO_BLK_T_IN), rq_reserved = 0, rq_sector = sector\<rparr>)\<rparr>\<rparr>;
          s = upd_desc i0 (\<lambda>_. \<lparr>d_addr = DOp i0, d_len = 16, d_flags = VRING_DESC_F_NEXT, d_next = i1\<rparr>) s;
          s = upd_desc i1 (\<lambda>_. \<lparr>d_addr = DData b, d_len = of_nat BSIZE,
            d_flags = (if wr then 0 else VRING_DESC_F_WRITE) OR VRING_DESC_F_NEXT, d_next = i2\<rparr>) s;
          s = s\<lparr>vd := (vd s)\<lparr>info_status := (info_status (vd s))(i0 := 0xff)\<rparr>\<rparr>;
          s = upd_desc i2 (\<lambda>_. \<lparr>d_addr = DStatus i0, d_len = 1, d_flags = VRING_DESC_F_WRITE, d_next = 0\<rparr>) s;
          s = upd_buf b (b_disk_update (\<lambda>_. True)) s;
          s = s\<lparr>vd := (vd s)\<lparr>info_b := (info_b (vd s))(i0 := Some b)\<rparr>\<rparr>;
          s = s\<lparr>vd := (vd s)\<lparr>avail_ring := (avail_ring (vd s))(unat (avail_idx (vd s)) mod NUM := i0)\<rparr>\<rparr>;
          s = s\<lparr>vd := (vd s)\<lparr>avail_idx := avail_idx (vd s) + 1\<rparr>\<rparr>
      in writeR VIRTIO_MMIO_QUEUE_NOTIFY 0 s)"

text \<open>The device takes its turn.\<close>

definition device_run :: "'a disks_scheme \<Rightarrow> 'a disks_scheme" where
  "device_run s = (case device s (vd s) (\<lambda>i. b_data (bufs s i)) (disk s) of
     (v, mem, d) \<Rightarrow> s\<lparr>vd := v, bufs := (\<lambda>i. (bufs s i)\<lparr>b_data := mem i\<rparr>), disk := d\<rparr>)"

partial_function (option) virtio_intr_loop :: "'a disks_scheme \<Rightarrow> 'a disks_scheme option" where
  "virtio_intr_loop s =
     (if seen_idx (vd s) \<noteq> used_idx (vd s) then do {
        let id = used_ring (vd s) (unat (seen_idx (vd s)) mod NUM);
        panic_if (info_status (vd s) id \<noteq> 0) ''virtio_disk_intr status'';
        b \<leftarrow> info_b (vd s) id;
        let s = upd_buf b (b_disk_update (\<lambda>_. False)) s;
        s \<leftarrow> wakeup (DiskBufChan b) s;
        virtio_intr_loop (s\<lparr>vd := (vd s)\<lparr>seen_idx := seen_idx (vd s) + 1\<rparr>\<rparr>)
      } else Some s)"

definition virtio_disk_intr :: "'a disks_scheme \<Rightarrow> 'a disks_scheme option" where
  "virtio_disk_intr s = do {
     s \<leftarrow> acquire DiskLock s;
     let (st, s) = readR VIRTIO_MMIO_INTERRUPT_STATUS s;
     let s = writeR VIRTIO_MMIO_INTERRUPT_ACK (st AND 3) s;
     s \<leftarrow> virtio_intr_loop s;
     release DiskLock s
   }"

text \<open>
  \<open>virtio_disk_rw\<close>. With no descriptors to be had the caller sleeps: \<open>None\<close>. The loop that waits for
  the buffer gives up the lock in \<open>sleep\<close>; in the meantime the device serves the queue and its
  interrupt is handled; if the request is still not done the caller sleeps on: \<open>None\<close>.
\<close>

definition virtio_wait :: "nat \<Rightarrow> 'a disks_scheme \<Rightarrow> 'a disks_scheme option" where
  "virtio_wait b s =
     (if b_disk (bufs s b) then do {
        s \<leftarrow> release DiskLock s;
        s \<leftarrow> virtio_disk_intr (device_run s);
        s \<leftarrow> acquire DiskLock s;
        if b_disk (bufs s b) then None else Some s
      } else Some s)"

definition virtio_disk_rw :: "nat \<Rightarrow> bool \<Rightarrow> 'a disks_scheme \<Rightarrow> 'a disks_scheme option" where
  "virtio_disk_rw b wr s = do {
     let sector = ucast (blockno (bufs s b) * of_nat (BSIZE div 512));
     s \<leftarrow> acquire DiskLock s;
     (idx, s) \<leftarrow> alloc3_desc s;
     case idx of
       Some [i0, i1, i2] \<Rightarrow> do {
         let s = virtio_submit b wr sector i0 i1 i2 s;
         s \<leftarrow> virtio_wait b s;
         let s = s\<lparr>vd := (vd s)\<lparr>info_b := (info_b (vd s))(i0 := None)\<rparr>\<rparr>;
         s \<leftarrow> free_chain i0 s;
         release DiskLock s
       }
     | _ \<Rightarrow> None
   }"

section \<open>Frame rules\<close>

lemma mmio_st_frame [simp]:
  "release lk (mmio_st_update f s) = map_option (mmio_st_update f) (release lk s)"
  "acquired lk (mmio_st_update f s) = mmio_st_update f (acquired lk s)"
  "settle (mmio_st_update f s) = mmio_st_update f (settle s)" "push_off (mmio_st_update f s) = mmio_st_update f (push_off s)"
  "free lk (mmio_st_update f s) = free lk s" "cpu_ok (mmio_st_update f s) = cpu_ok s"
  "mmio_st (acquired lk s) = mmio_st s" "mmio_st (settle s) = mmio_st s" "mmio_st (push_off s) = mmio_st s"
  "mycpu (mmio_st_update f s) = mycpu s" "holding lk (mmio_st_update f s) = holding lk s"
  by (simp_all add: lock_forms)

lemma vd_frame [simp]:
  "release lk (vd_update f s) = map_option (vd_update f) (release lk s)"
  "acquired lk (vd_update f s) = vd_update f (acquired lk s)"
  "settle (vd_update f s) = vd_update f (settle s)" "push_off (vd_update f s) = vd_update f (push_off s)"
  "free lk (vd_update f s) = free lk s" "cpu_ok (vd_update f s) = cpu_ok s"
  "vd (acquired lk s) = vd s" "vd (settle s) = vd s" "vd (push_off s) = vd s"
  "mycpu (vd_update f s) = mycpu s" "holding lk (vd_update f s) = holding lk s"
  by (simp_all add: lock_forms)

lemma device_frame [simp]:
  "release lk (device_update f s) = map_option (device_update f) (release lk s)"
  "acquired lk (device_update f s) = device_update f (acquired lk s)"
  "settle (device_update f s) = device_update f (settle s)" "push_off (device_update f s) = device_update f (push_off s)"
  "free lk (device_update f s) = free lk s" "cpu_ok (device_update f s) = cpu_ok s"
  "device (acquired lk s) = device s" "device (settle s) = device s" "device (push_off s) = device s"
  "mycpu (device_update f s) = mycpu s" "holding lk (device_update f s) = holding lk s"
  by (simp_all add: lock_forms)

lemma disk_frame [simp]:
  "release lk (disk_update f s) = map_option (disk_update f) (release lk s)"
  "acquired lk (disk_update f s) = disk_update f (acquired lk s)"
  "settle (disk_update f s) = disk_update f (settle s)" "push_off (disk_update f s) = disk_update f (push_off s)"
  "free lk (disk_update f s) = free lk s" "cpu_ok (disk_update f s) = cpu_ok s"
  "disk (acquired lk s) = disk s" "disk (settle s) = disk s" "disk (push_off s) = disk s"
  "mycpu (disk_update f s) = mycpu s" "holding lk (disk_update f s) = holding lk s"
  by (simp_all add: lock_forms)

lemma bufs_frame [simp]:
  "release lk (bufs_update f s) = map_option (bufs_update f) (release lk s)"
  "acquired lk (bufs_update f s) = bufs_update f (acquired lk s)"
  "settle (bufs_update f s) = bufs_update f (settle s)" "push_off (bufs_update f s) = bufs_update f (push_off s)"
  "free lk (bufs_update f s) = free lk s" "cpu_ok (bufs_update f s) = cpu_ok s"
  "bufs (acquired lk s) = bufs s" "bufs (settle s) = bufs s" "bufs (push_off s) = bufs s"
  "mycpu (bufs_update f s) = mycpu s" "holding lk (bufs_update f s) = holding lk s"
  by (simp_all add: lock_forms)

section \<open>What the device promises\<close>

text \<open>
  \<open>pending v b i0 i1 i2\<close>: exactly one request is in the queue, for buffer \<open>b\<close>. \<open>serves dev\<close>: from
  there the device transfers the block, reports success and puts the chain on the used ring
  (sections 2.6 and 5.2 of the virtio specification).
\<close>

definition pending :: "vdisk \<Rightarrow> nat \<Rightarrow> nat \<Rightarrow> nat \<Rightarrow> nat \<Rightarrow> bool" where
  "pending v b i0 i1 i2 \<longleftrightarrow> avail_idx v = used_idx v + 1 \<and> avail_ring v (unat (used_idx v) mod NUM) = i0 \<and>
     d_addr (desc v i0) = DOp i0 \<and> d_next (desc v i0) = i1 \<and> d_flags (desc v i0) AND VRING_DESC_F_NEXT \<noteq> 0 \<and>
     d_addr (desc v i1) = DData b \<and> d_len (desc v i1) = of_nat BSIZE \<and> d_next (desc v i1) = i2 \<and>
     d_flags (desc v i1) AND VRING_DESC_F_NEXT \<noteq> 0 \<and>
     (d_flags (desc v i1) AND VRING_DESC_F_WRITE \<noteq> 0 \<longleftrightarrow> rq_type (ops v i0) = VIRTIO_BLK_T_IN) \<and>
     d_addr (desc v i2) = DStatus i0"

definition transfer :: "virtio_blk_req \<Rightarrow> nat \<Rightarrow> (nat \<Rightarrow> bytes) \<Rightarrow> platter \<Rightarrow> (nat \<Rightarrow> bytes) \<times> platter" where
  "transfer rq b mem p =
     (if rq_type rq = VIRTIO_BLK_T_IN then (mem(b := sectors p (rq_sector rq)), p)
      else (mem, p\<lparr>sectors := (sectors p)(rq_sector rq := mem b), writes := writes p @ [(rq_sector rq, mem b)]\<rparr>))"

definition completed :: "nat \<Rightarrow> vdisk \<Rightarrow> vdisk" where
  "completed i0 v = v\<lparr>used_ring := (used_ring v)(unat (used_idx v) mod NUM := i0), used_idx := used_idx v + 1,
     info_status := (info_status v)(i0 := 0)\<rparr>"

definition serves :: "vdevice \<Rightarrow> bool" where
  "serves dev \<longleftrightarrow> (\<forall>v mem p b i0 i1 i2. pending v b i0 i1 i2 \<longrightarrow>
     dev v mem p = (completed i0 v, transfer (ops v i0) b mem p))"

definition vd_idle :: "vdisk \<Rightarrow> bool" where
  "vd_idle v \<longleftrightarrow> (\<forall>i<NUM. vfree v i) \<and> seen_idx v = used_idx v \<and> avail_idx v = used_idx v"

section \<open>A request from start to end\<close>

lemma wakeup_inside:
  assumes "cpu_ok s" "others_free s" "settle s = s"
  shows "wakeup ch s = Some (s\<lparr>proc := woken {..<NPROC} (cpu_proc s (hart s)) ch (proc s)\<rparr>)"
  using wakeup_eq [OF assms(1,2)] assms(3) by simp

lemma vfree_all: "vd_idle v \<Longrightarrow> vfree v 0 \<and> vfree v 1 \<and> vfree v 2"
  by (simp add: vd_idle_def NUM_def)

lemma find_upt: "P i \<Longrightarrow> i < n \<Longrightarrow> (\<And>j. j < i \<Longrightarrow> \<not> P j) \<Longrightarrow> find P [0..<n] = Some i"
  by (auto simp: find_Some_iff intro!: exI [of _ i])

lemma alloc3_idle:
  assumes "vd_idle (vd s)"
  shows "alloc3_desc s = Some (Some [0, 1, 2],
    s\<lparr>vd := (vd s)\<lparr>vfree := (vfree (vd s))(0 := False, 1 := False, 2 := False)\<rparr>\<rparr>)"
proof -
  let ?f = "vfree (vd s)"
  have f: "?f 0" "?f 1" "?f 2" "0 < NUM" "1 < NUM" "2 < NUM" using vfree_all [OF assms] by (simp_all add: NUM_def)
  have 0: "find ?f [0..<NUM] = Some 0" using f by (intro find_upt) auto
  have 1: "find (?f(0 := False)) [0..<NUM] = Some 1" using f by (intro find_upt) auto
  have 2: "find (?f(0 := False, Suc 0 := False)) [0..<NUM] = Some 2" using f by (intro find_upt) (auto simp: less_2_cases_iff)
  show ?thesis
    unfolding alloc3_desc_def eval_nat_numeral
    using 0 1 2 by (simp add: alloc_desc_def numeral_2_eq_2 del: fun_upd_apply)
qed

lemma free_desc_inside:
  assumes "i < NUM" "\<not> vfree (vd s) i" "cpu_ok s" "others_free s" "settle s = s"
  shows "free_desc i s = Some (s\<lparr>proc := woken {..<NPROC} (cpu_proc s (hart s)) DiskFreeChan (proc s),
    vd := (vd s)\<lparr>desc := (desc (vd s))(i := \<lparr>d_addr = DNull, d_len = 0, d_flags = 0, d_next = 0\<rparr>),
      vfree := (vfree (vd s))(i := True)\<rparr>\<rparr>)"
proof -
  let ?t = "s\<lparr>vd := (vd s)\<lparr>desc := (desc (vd s))(i := \<lparr>d_addr = DNull, d_len = 0, d_flags = 0, d_next = 0\<rparr>),
      vfree := (vfree (vd s))(i := True)\<rparr>\<rparr>"
  have "wakeup DiskFreeChan ?t = Some (?t\<lparr>proc := woken {..<NPROC} (cpu_proc s (hart s)) DiskFreeChan (proc s)\<rparr>)"
    using wakeup_inside [of ?t DiskFreeChan] assms(3-5) by (simp add: others_free_def)
  then show ?thesis using assms(1,2) by (simp add: free_desc_def upd_desc_def del: fun_upd_apply)
qed

definition block_sector :: "uint \<Rightarrow> uint64" where
  "block_sector b = ucast (b * of_nat (BSIZE div 512))"

definition submitted :: "nat \<Rightarrow> bool \<Rightarrow> uint64 \<Rightarrow> vdisk \<Rightarrow> vdisk" where
  "submitted b wr sector v = v\<lparr>
     ops := (ops v)(0 := \<lparr>rq_type = (if wr then VIRTIO_BLK_T_OUT else VIRTIO_BLK_T_IN), rq_reserved = 0, rq_sector = sector\<rparr>),
     desc := (desc v)(0 := \<lparr>d_addr = DOp 0, d_len = 16, d_flags = VRING_DESC_F_NEXT, d_next = 1\<rparr>,
       1 := \<lparr>d_addr = DData b, d_len = of_nat BSIZE, d_flags = (if wr then 0 else VRING_DESC_F_WRITE) OR VRING_DESC_F_NEXT, d_next = 2\<rparr>,
       2 := \<lparr>d_addr = DStatus 0, d_len = 1, d_flags = VRING_DESC_F_WRITE, d_next = 0\<rparr>),
     info_status := (info_status v)(0 := 0xff), info_b := (info_b v)(0 := Some b),
     avail_ring := (avail_ring v)(unat (avail_idx v) mod NUM := 0), avail_idx := avail_idx v + 1\<rparr>"

lemma virtio_submit_eq:
  "virtio_submit b wr sector 0 1 2 s = s\<lparr>
     mmio_st := (mmio_st s)\<lparr>v_trace := v_trace (mmio_st s) @ [(VIRTIO_MMIO_QUEUE_NOTIFY, 0)]\<rparr>,
     vd := submitted b wr sector (vd s), bufs := (bufs s)(b := (bufs s b)\<lparr>b_disk := True\<rparr>)\<rparr>"
  by (rule disks.equality) (simp_all add: virtio_submit_def upd_desc_def upd_buf_def writeR_def submitted_def Let_def del: fun_upd_apply)

lemma pending_submitted: "avail_idx v = used_idx v \<Longrightarrow> pending (submitted b wr sector v) b 0 1 2"
  by (simp add: pending_def submitted_def VRING_DESC_F_NEXT_def VRING_DESC_F_WRITE_def VIRTIO_BLK_T_IN_def VIRTIO_BLK_T_OUT_def)

lemma device_run_eq:
  assumes "serves (device s)" "pending (vd s) b 0 1 2"
  shows "device_run s = s\<lparr>vd := completed 0 (vd s),
    bufs := (\<lambda>i. (bufs s i)\<lparr>b_data := fst (transfer (ops (vd s) 0) b (\<lambda>i. b_data (bufs s i)) (disk s)) i\<rparr>),
    disk := snd (transfer (ops (vd s) 0) b (\<lambda>i. b_data (bufs s i)) (disk s))\<rparr>"
proof -
  have d: "device s (vd s) (\<lambda>i. b_data (bufs s i)) (disk s) =
      (completed 0 (vd s), transfer (ops (vd s) 0) b (\<lambda>i. b_data (bufs s i)) (disk s))"
    using assms unfolding serves_def by blast
  show ?thesis unfolding device_run_def d by (simp split: prod.split)
qed

text \<open>One completed request on the used ring, handled.\<close>

lemma virtio_intr_one:
  assumes "cpu_ok s" "others_free s" "settle s = s" "used_idx (vd s) = seen_idx (vd s) + 1"
    and "used_ring (vd s) (unat (seen_idx (vd s)) mod NUM) = 0" "info_status (vd s) 0 = 0" "info_b (vd s) 0 = Some b"
  shows "virtio_intr_loop s = Some (s\<lparr>proc := woken {..<NPROC} (cpu_proc s (hart s)) (DiskBufChan b) (proc s),
    vd := (vd s)\<lparr>seen_idx := used_idx (vd s)\<rparr>, bufs := (bufs s)(b := (bufs s b)\<lparr>b_disk := False\<rparr>)\<rparr>)"
proof -
  let ?t = "upd_buf b (b_disk_update (\<lambda>_. False)) s"
  let ?p = "woken {..<NPROC} (cpu_proc s (hart s)) (DiskBufChan b) (proc s)"
  have w: "wakeup (DiskBufChan b) ?t = Some (?t\<lparr>proc := ?p\<rparr>)"
    using wakeup_inside [of ?t "DiskBufChan b"] assms(1-3) by (simp add: others_free_def upd_buf_def)
  have ne: "seen_idx (vd s) \<noteq> used_idx (vd s)" using assms(4) by simp
  have "virtio_intr_loop s = virtio_intr_loop (?t\<lparr>proc := ?p, vd := (vd s)\<lparr>seen_idx := seen_idx (vd s) + 1\<rparr>\<rparr>)"
    using ne assms(5-7) w by (subst virtio_intr_loop.simps) (simp add: upd_buf_def)
  also have "\<dots> = Some (?t\<lparr>proc := ?p, vd := (vd s)\<lparr>seen_idx := seen_idx (vd s) + 1\<rparr>\<rparr>)"
    using assms(4) by (subst virtio_intr_loop.simps) simp
  also have "?t\<lparr>proc := ?p, vd := (vd s)\<lparr>seen_idx := seen_idx (vd s) + 1\<rparr>\<rparr> =
      s\<lparr>proc := ?p, vd := (vd s)\<lparr>seen_idx := used_idx (vd s)\<rparr>, bufs := (bufs s)(b := (bufs s b)\<lparr>b_disk := False\<rparr>)\<rparr>"
    by (rule disks.equality) (simp_all add: upd_buf_def assms(4))
  finally show ?thesis .
qed

text \<open>The chain of three descriptors is given back.\<close>

definition chain_desc :: "vdisk \<Rightarrow> bool" where
  "chain_desc v \<longleftrightarrow> d_flags (desc v 0) AND VRING_DESC_F_NEXT \<noteq> 0 \<and> d_next (desc v 0) = 1 \<and>
     d_flags (desc v 1) AND VRING_DESC_F_NEXT \<noteq> 0 \<and> d_next (desc v 1) = 2 \<and> d_flags (desc v 2) AND VRING_DESC_F_NEXT = 0 \<and>
     \<not> vfree v 0 \<and> \<not> vfree v 1 \<and> \<not> vfree v 2"

lemma free_chain_eq:
  assumes "chain_desc (vd s)" "cpu_ok s" "others_free s" "settle s = s"
  shows "\<exists>d. free_chain 0 s = Some (s\<lparr>proc := woken {..<NPROC} (cpu_proc s (hart s)) DiskFreeChan (proc s),
    vd := (vd s)\<lparr>desc := d, vfree := (vfree (vd s))(0 := True, 1 := True, 2 := True)\<rparr>\<rparr>)"
proof -
  let ?z = "\<lparr>d_addr = DNull, d_len = 0, d_flags = 0, d_next = 0\<rparr>"
  let ?p = "woken {..<NPROC} (cpu_proc s (hart s)) DiskFreeChan (proc s)"
  define s1 where "s1 = s\<lparr>proc := ?p, vd := (vd s)\<lparr>desc := (desc (vd s))(0 := ?z), vfree := (vfree (vd s))(0 := True)\<rparr>\<rparr>"
  define s2 where "s2 = s1\<lparr>vd := (vd s1)\<lparr>desc := (desc (vd s1))(1 := ?z), vfree := (vfree (vd s1))(1 := True)\<rparr>\<rparr>"
  define s3 where "s3 = s2\<lparr>vd := (vd s2)\<lparr>desc := (desc (vd s2))(2 := ?z), vfree := (vfree (vd s2))(2 := True)\<rparr>\<rparr>"
  have inside: "cpu_ok s1" "others_free s1" "settle s1 = s1" "cpu_ok s2" "others_free s2" "settle s2 = s2"
    using assms(2-4) by (simp_all add: s1_def s2_def others_free_def)
  have n: "0 < NUM" "1 < NUM" "2 < NUM" by (simp_all add: NUM_def)
  have c: "\<not> vfree (vd s) 0" "\<not> vfree (vd s1) 1" "\<not> vfree (vd s2) 2"
    "d_flags (desc (vd s) 0) AND VRING_DESC_F_NEXT \<noteq> 0" "d_next (desc (vd s) 0) = 1"
    "d_flags (desc (vd s1) 1) AND VRING_DESC_F_NEXT \<noteq> 0" "d_next (desc (vd s1) 1) = 2"
    "d_flags (desc (vd s2) 2) AND VRING_DESC_F_NEXT = 0"
    using assms(1) by (simp_all add: chain_desc_def s1_def s2_def)
  have pr: "proc s1 = ?p" "cpu_proc s1 = cpu_proc s" "hart s1 = hart s" "proc s2 = ?p" "cpu_proc s2 = cpu_proc s" "hart s2 = hart s"
    by (simp_all add: s1_def s2_def)
  have f1: "free_desc 0 s = Some s1" using free_desc_inside [OF n(1) c(1) assms(2-4)] by (simp add: s1_def)
  have f2: "free_desc 1 s1 = Some s2" using free_desc_inside [OF n(2) c(2) inside(1-3)] by (simp add: pr s2_def s1_def)
  have f3: "free_desc 2 s2 = Some s3" using free_desc_inside [OF n(3) c(3) inside(4-6)] by (simp add: pr s3_def s2_def s1_def)
  have "free_chain 0 s = free_chain 1 s1" using f1 c(4,5) by (subst free_chain.simps) simp
  also have "\<dots> = free_chain 2 s2" using f2 c(6,7) by (subst free_chain.simps) simp
  also have "\<dots> = Some s3" using f3 c(8) by (subst free_chain.simps) simp
  finally show ?thesis
    by (intro exI [of _ "(desc (vd s))(0 := ?z, 1 := ?z, 2 := ?z)"])
      (simp add: s1_def s2_def s3_def del: fun_upd_apply)
qed

text \<open>The state outside and inside the driver's critical section, up to what the driver changes.\<close>

definition vout :: "'a disks_scheme \<Rightarrow> (nat \<Rightarrow> proc) \<Rightarrow> mmio \<Rightarrow> vdisk \<Rightarrow> platter \<Rightarrow> (nat \<Rightarrow> buf) \<Rightarrow> 'a disks_scheme" where
  "vout s pr m v d bf = (settle s)\<lparr>proc := pr, mmio_st := m, vd := v, disk := d, bufs := bf\<rparr>"

definition vin :: "'a disks_scheme \<Rightarrow> (nat \<Rightarrow> proc) \<Rightarrow> mmio \<Rightarrow> vdisk \<Rightarrow> platter \<Rightarrow> (nat \<Rightarrow> buf) \<Rightarrow> 'a disks_scheme" where
  "vin s pr m v d bf = (acquired DiskLock s)\<lparr>proc := pr, mmio_st := m, vd := v, disk := d, bufs := bf\<rparr>"

lemma vout_fields [simp]:
  "proc (vout s pr m v d bf) = pr" "mmio_st (vout s pr m v d bf) = m" "vd (vout s pr m v d bf) = v"
  "disk (vout s pr m v d bf) = d" "bufs (vout s pr m v d bf) = bf" "device (vout s pr m v d bf) = device s"
  "cpu_proc (vout s pr m v d bf) = cpu_proc s" "hart (vout s pr m v d bf) = hart s"
  "(vout s pr m v d bf)\<lparr>vd := v', bufs := bf', disk := d'\<rparr> = vout s pr m v' d' bf'"
  by (simp_all add: vout_def)

lemma vin_fields [simp]:
  "proc (vin s pr m v d bf) = pr" "mmio_st (vin s pr m v d bf) = m" "vd (vin s pr m v d bf) = v"
  "disk (vin s pr m v d bf) = d" "bufs (vin s pr m v d bf) = bf" "cpu_proc (vin s pr m v d bf) = cpu_proc s"
  "hart (vin s pr m v d bf) = hart s"
  "(vin s pr m v d bf)\<lparr>mmio_st := m'\<rparr> = vin s pr m' v d bf" "(vin s pr m v d bf)\<lparr>vd := v'\<rparr> = vin s pr m v' d bf"
  "(vin s pr m v d bf)\<lparr>proc := pr', vd := v', bufs := bf'\<rparr> = vin s pr' m v' d bf'"
  "(vin s pr m v d bf)\<lparr>proc := pr', vd := v'\<rparr> = vin s pr' m v' d bf"
  "(vin s pr m v d bf)\<lparr>bufs := bf'\<rparr> = vin s pr m v d bf'"
  by (simp_all add: vin_def)

lemma vin_inside:
  assumes "cpu_ok s" "\<forall>p<NPROC. free (ProcLock p) s"
  shows "cpu_ok (vin s pr m v d bf)" "others_free (vin s pr m v d bf)" "settle (vin s pr m v d bf) = vin s pr m v d bf"
  using assms by (simp_all add: vin_def others_free_def)

lemma vin_vout:
  assumes "cpu_ok s" "free DiskLock s"
  shows "acquire DiskLock s = Some (vin s (proc s) (mmio_st s) (vd s) (disk s) (bufs s))"
    "acquire DiskLock (vout s pr m v d bf) = Some (vin s pr m v d bf)"
    "release DiskLock (vin s pr m v d bf) = Some (vout s pr m v d bf)"
  using assms by (simp_all add: vin_def vout_def)

lemma virtio_rw_eq:
  fixes s :: "'a disks_scheme" and b :: nat
  assumes "cpu_ok s" "free DiskLock s" "\<forall>p<NPROC. free (ProcLock p) s" "vd_idle (vd s)" "serves (device s)"
  defines "sec \<equiv> block_sector (blockno (bufs s b))"
  shows "\<exists>m v. virtio_disk_rw b wr s = Some (vout s
      (woken {..<NPROC} (cpu_proc s (hart s)) DiskFreeChan (woken {..<NPROC} (cpu_proc s (hart s)) (DiskBufChan b) (proc s))) m v
      (if wr then (disk s)\<lparr>sectors := (sectors (disk s))(sec := b_data (bufs s b)), writes := writes (disk s) @ [(sec, b_data (bufs s b))]\<rparr>
       else disk s)
      ((bufs s)(b := (bufs s b)\<lparr>b_disk := False, b_data := (if wr then b_data (bufs s b) else sectors (disk s) sec)\<rparr>))) \<and> vd_idle v"
proof -
  let ?pr = "proc s" and ?m = "mmio_st s" and ?bf = "bufs s" and ?d = "disk s" and ?me = "cpu_proc s (hart s)"
  let ?pr1 = "woken {..<NPROC} ?me (DiskBufChan b) ?pr"
  let ?pr2 = "woken {..<NPROC} ?me DiskFreeChan ?pr1"
  define v0 where "v0 = (vd s)\<lparr>vfree := (vfree (vd s))(0 := False, 1 := False, 2 := False)\<rparr>"
  define v1 where "v1 = submitted b wr sec v0"
  define m1 where "m1 = ?m\<lparr>v_trace := v_trace ?m @ [(VIRTIO_MMIO_QUEUE_NOTIFY, 0)]\<rparr>"
  define bf1 where "bf1 = ?bf(b := (?bf b)\<lparr>b_disk := True\<rparr>)"
  define tr where "tr = transfer (ops v1 0) b (\<lambda>i. b_data (bf1 i)) ?d"
  define v2 where "v2 = completed 0 v1"
  define bf2 where "bf2 = (\<lambda>i. (bf1 i)\<lparr>b_data := fst tr i\<rparr>)"
  define st where "st = v_env m1 (v_reads m1) VIRTIO_MMIO_INTERRUPT_STATUS"
  define m2 where "m2 = m1\<lparr>v_reads := v_reads m1 + 1, v_trace := v_trace m1 @ [(VIRTIO_MMIO_INTERRUPT_ACK, st AND 3)]\<rparr>"
  define v3 where "v3 = v2\<lparr>seen_idx := used_idx v2\<rparr>"
  define bf3 where "bf3 = bf2(b := (bf2 b)\<lparr>b_disk := False\<rparr>)"
  define v4 where "v4 = v3\<lparr>info_b := (info_b v3)(0 := None)\<rparr>"
  note lk = vin_vout [OF assms(1,2)]
  note ins = vin_inside [OF assms(1,3)]
  have idle: "avail_idx v0 = used_idx v0" "seen_idx v0 = used_idx v0" using assms(4) by (simp_all add: vd_idle_def v0_def)
  have a3: "alloc3_desc (vin s ?pr ?m (vd s) ?d ?bf) = Some (Some [0, 1, 2], vin s ?pr ?m v0 ?d ?bf)"
    using alloc3_idle [of "vin s ?pr ?m (vd s) ?d ?bf"] assms(4) by (simp add: v0_def)
  have sub: "virtio_submit b wr sec 0 1 2 (vin s ?pr ?m v0 ?d ?bf) = vin s ?pr m1 v1 ?d bf1"
    unfolding virtio_submit_eq by (simp add: v1_def m1_def bf1_def)
  have pend: "pending v1 b 0 1 2" unfolding v1_def using idle(1) by (rule pending_submitted)
  have run: "device_run (vout s ?pr m1 v1 ?d bf1) = vout s ?pr m1 v2 (snd tr) bf2"
    using device_run_eq [of "vout s ?pr m1 v1 ?d bf1" b] assms(5) pend by (simp add: v2_def bf2_def tr_def)
  have vs: "used_idx v2 = seen_idx v2 + 1" "used_ring v2 (unat (seen_idx v2) mod NUM) = 0" "info_status v2 0 = 0" "info_b v2 0 = Some b"
    using idle by (simp_all add: v2_def v1_def completed_def submitted_def)
  have reg: "(let (st, u) = readR VIRTIO_MMIO_INTERRUPT_STATUS (vin s pr m1 v d bf) in writeR VIRTIO_MMIO_INTERRUPT_ACK (st AND 3) u) =
      vin s pr m2 v d bf" for pr v d bf by (simp add: readR_def writeR_def m2_def st_def)
  have loop: "virtio_intr_loop (vin s ?pr m2 v2 (snd tr) bf2) = Some (vin s ?pr1 m2 v3 (snd tr) bf3)"
    using virtio_intr_one [OF ins, of ?pr m2 v2 "snd tr" bf2 b] vs by (simp add: v3_def bf3_def)
  have intr: "virtio_disk_intr (vout s ?pr m1 v2 (snd tr) bf2) = Some (vout s ?pr1 m2 v3 (snd tr) bf3)"
    using lk loop reg [of ?pr v2 "snd tr" bf2] by (simp add: virtio_disk_intr_def case_prod_beta)
  have wait: "virtio_wait b (vin s ?pr m1 v1 ?d bf1) = Some (vin s ?pr1 m2 v3 (snd tr) bf3)"
    using lk run intr by (simp add: virtio_wait_def) (simp add: bf1_def bf3_def)
  have chain: "chain_desc v4"
    by (simp add: chain_desc_def v4_def v3_def v2_def v1_def v0_def completed_def submitted_def VRING_DESC_F_NEXT_def VRING_DESC_F_WRITE_def)
  obtain ds where fr: "free_chain 0 (vin s ?pr1 m2 v4 (snd tr) bf3) =
      Some (vin s ?pr2 m2 (v4\<lparr>desc := ds, vfree := (vfree v4)(0 := True, 1 := True, 2 := True)\<rparr>) (snd tr) bf3)"
    using free_chain_eq [OF _ ins, of ?pr1 m2 v4 "snd tr" bf3] chain by auto
  let ?v = "v4\<lparr>desc := ds, vfree := (vfree v4)(0 := True, 1 := True, 2 := True)\<rparr>"
  have "virtio_disk_rw b wr s = Some (vout s ?pr2 m2 ?v (snd tr) bf3)"
    using lk a3 sub wait fr by (simp add: virtio_disk_rw_def sec_def block_sector_def v4_def)
  moreover have "vd_idle ?v"
    using assms(4) by (auto simp: vd_idle_def v4_def v3_def v2_def v1_def v0_def completed_def submitted_def)
  moreover have "snd tr = (if wr then ?d\<lparr>sectors := (sectors ?d)(sec := b_data (?bf b)), writes := writes ?d @ [(sec, b_data (?bf b))]\<rparr> else ?d)"
    by (simp add: tr_def transfer_def v1_def submitted_def VIRTIO_BLK_T_IN_def VIRTIO_BLK_T_OUT_def bf1_def)
  moreover have "bf3 = ?bf(b := (?bf b)\<lparr>b_disk := False, b_data := (if wr then b_data (?bf b) else sectors ?d sec)\<rparr>)"
    by (rule ext) (simp add: bf3_def bf2_def bf1_def tr_def transfer_def v1_def submitted_def VIRTIO_BLK_T_IN_def VIRTIO_BLK_T_OUT_def)
  ultimately show ?thesis by auto
qed

section \<open>The driver\<close>


text \<open>A device that serves, and a machine with one.\<close>

definition sample_device :: vdevice where
  "sample_device v mem p =
     (let i0 = avail_ring v (unat (used_idx v) mod NUM) in
      case d_addr (desc v (d_next (desc v i0))) of DData b \<Rightarrow> (completed i0 v, transfer (ops v i0) b mem p) | _ \<Rightarrow> (v, mem, p))"

lemma sample_device_serves [simp]: "serves sample_device"
  by (auto simp: serves_def pending_def sample_device_def)

definition idle_disk :: vdisk where
  "idle_disk = \<lparr>desc = (\<lambda>_. \<lparr>d_addr = DNull, d_len = 0, d_flags = 0, d_next = 0\<rparr>), avail_idx = 0xffff, avail_ring = (\<lambda>_. 0),
     used_idx = 0xffff, used_ring = (\<lambda>_. 0), queue_pages = (0, 0, 0), vfree = (\<lambda>_. True), seen_idx = 0xffff,
     info_b = (\<lambda>_. None), info_status = (\<lambda>_. 0), ops = (\<lambda>_. \<lparr>rq_type = 0, rq_reserved = 0, rq_sector = 0\<rparr>)\<rparr>"

definition sample_buf :: buf where
  "sample_buf = \<lparr>valid_b = False, b_disk = False, b_dev = 1, blockno = 5, refcnt = 1, b_prev = 0, b_next = 0, b_data = (\<lambda>_. 7)\<rparr>"

definition vsample :: disks where
  "vsample = devs.extend dsample (disks.fields \<lparr>v_env = (\<lambda>_ _. 1), v_reads = 0, v_trace = []\<rparr> idle_disk sample_device
     \<lparr>sectors = (\<lambda>_ _. 9), writes = []\<rparr> (\<lambda>_. sample_buf))"

lemma vsample_fields [simp]:
  "hart vsample = hart dsample" "cpus vsample = cpus dsample" "spin vsample = spin dsample"
  "phys vsample = phys psample" "kend vsample = kend psample" "freelist vsample = freelist psample"
  "proc vsample = proc psample" "cpu_proc vsample = cpu_proc psample" "slk vsample = slk dsample"
  "vd vsample = idle_disk" "device vsample = sample_device" "disk vsample = \<lparr>sectors = (\<lambda>_ _. 9), writes = []\<rparr>"
  "bufs vsample = (\<lambda>_. sample_buf)" "uart_st vsample = idle_uart" "\<not> panicked vsample" "pr_locking vsample"
  using dsample_fields unfolding vsample_def by (simp_all add: devs.defs disks.defs)

lemma vsample_ok [simp]: "cpu_ok vsample" "free lk vsample" "vd_idle idle_disk"
  using dsample_ok by (simp_all add: cpu_ok_def free_def mycpu_def vd_idle_def idle_disk_def)


end
