(* ===== verification/Bio.thy ===== *)
theory Bio
  imports Virtio
begin

text \<open>
  kernel/bio.c: the buffer cache. The buffers are \<open>bufs s 0 .. NBUF - 1\<close>; index \<open>NBUF\<close> is
  \<open>bcache.head\<close>, and \<open>b_prev\<close>/\<open>b_next\<close> hold indices. The theorems: the list of buffers stays a ring in
  which every buffer occurs once, and the cache is coherent, so that a locked buffer holds the
  current contents of its block.
\<close>

section \<open>The code\<close>

abbreviation HEAD :: nat where "HEAD \<equiv> NBUF"

text \<open>The four assignments that put \<open>b\<close> behind the head, and the two that take it out.\<close>

definition bpush :: "nat \<Rightarrow> 'a disks_scheme \<Rightarrow> 'a disks_scheme" where
  "bpush b s =
     (let s = upd_buf b (b_next_update (\<lambda>_. b_next (bufs s HEAD))) s;
          s = upd_buf b (b_prev_update (\<lambda>_. HEAD)) s;
          s = upd_buf (b_next (bufs s HEAD)) (b_prev_update (\<lambda>_. b)) s
      in upd_buf HEAD (b_next_update (\<lambda>_. b)) s)"

definition bunlink :: "nat \<Rightarrow> 'a disks_scheme \<Rightarrow> 'a disks_scheme" where
  "bunlink b s =
     (let s = upd_buf (b_next (bufs s b)) (b_prev_update (\<lambda>_. b_prev (bufs s b))) s
      in upd_buf (b_prev (bufs s b)) (b_next_update (\<lambda>_. b_next (bufs s b))) s)"

fun binit_loop :: "nat list \<Rightarrow> 'a disks_scheme \<Rightarrow> 'a disks_scheme" where
  "binit_loop [] s = s"
| "binit_loop (b # bs) s = binit_loop bs (bpush b (initsleeplock (BufSleep b) ''buffer'' s))"

definition binit :: "'a disks_scheme \<Rightarrow> 'a disks_scheme" where
  "binit s =
     (let s = initlock BcacheLock ''bcache'' s;
          s = upd_buf HEAD (b_prev_update (\<lambda>_. HEAD)) s;
          s = upd_buf HEAD (b_next_update (\<lambda>_. HEAD)) s
      in binit_loop [0..<NBUF] s)"

text \<open>The two scans of \<open>bget\<close>: forward for the block, backward for an unused buffer.\<close>

partial_function (option) bget_cached :: "uint \<Rightarrow> uint \<Rightarrow> nat \<Rightarrow> 'a disks_scheme \<Rightarrow> nat option option" where
  "bget_cached dev bno b s =
     (if b = HEAD then Some None
      else if b_dev (bufs s b) = dev \<and> blockno (bufs s b) = bno then Some (Some b)
      else bget_cached dev bno (b_next (bufs s b)) s)"

partial_function (option) bget_unused :: "nat \<Rightarrow> 'a disks_scheme \<Rightarrow> nat option option" where
  "bget_unused b s =
     (if b = HEAD then Some None
      else if refcnt (bufs s b) = 0 then Some (Some b)
      else bget_unused (b_prev (bufs s b)) s)"

definition bget :: "uint \<Rightarrow> uint \<Rightarrow> 'a disks_scheme \<Rightarrow> (nat \<times> 'a disks_scheme) option" where
  "bget dev bno s = do {
     s \<leftarrow> acquire BcacheLock s;
     hit \<leftarrow> bget_cached dev bno (b_next (bufs s HEAD)) s;
     case hit of
       Some b \<Rightarrow> do {
         let s = upd_buf b (refcnt_update (\<lambda>n. n + 1)) s;
         s \<leftarrow> release BcacheLock s;
         s \<leftarrow> acquiresleep (BufSleep b) s;
         Some (b, s)
       }
     | None \<Rightarrow> do {
         lru \<leftarrow> bget_unused (b_prev (bufs s HEAD)) s;
         case lru of
           Some b \<Rightarrow> do {
             let s = upd_buf b (\<lambda>x. x\<lparr>b_dev := dev, blockno := bno, valid_b := False, refcnt := 1\<rparr>) s;
             s \<leftarrow> release BcacheLock s;
             s \<leftarrow> acquiresleep (BufSleep b) s;
             Some (b, s)
           }
         | None \<Rightarrow> panic ''bget: no buffers''
       }
   }"

definition bread :: "uint \<Rightarrow> uint \<Rightarrow> 'a disks_scheme \<Rightarrow> (nat \<times> 'a disks_scheme) option" where
  "bread dev bno s = do {
     (b, s) \<leftarrow> bget dev bno s;
     if \<not> valid_b (bufs s b) then do {
       s \<leftarrow> virtio_disk_rw b False s;
       Some (b, upd_buf b (valid_b_update (\<lambda>_. True)) s)
     } else Some (b, s)
   }"

definition bwrite :: "nat \<Rightarrow> 'a disks_scheme \<Rightarrow> 'a disks_scheme option" where
  "bwrite b s = do {
     (h, s) \<leftarrow> holdingsleep (BufSleep b) s;
     panic_if (\<not> h) ''bwrite'';
     virtio_disk_rw b True s
   }"

definition brelse :: "nat \<Rightarrow> 'a disks_scheme \<Rightarrow> 'a disks_scheme option" where
  "brelse b s = do {
     (h, s) \<leftarrow> holdingsleep (BufSleep b) s;
     panic_if (\<not> h) ''brelse'';
     s \<leftarrow> releasesleep (BufSleep b) s;
     s \<leftarrow> acquire BcacheLock s;
     let s = upd_buf b (refcnt_update (\<lambda>n. n - 1)) s;
     let s = (if refcnt (bufs s b) = 0 then bpush b (bunlink b s) else s);
     release BcacheLock s
   }"

definition bpin :: "nat \<Rightarrow> 'a disks_scheme \<Rightarrow> 'a disks_scheme option" where
  "bpin b s = do {
     s \<leftarrow> acquire BcacheLock s;
     release BcacheLock (upd_buf b (refcnt_update (\<lambda>n. n + 1)) s)
   }"

definition bunpin :: "nat \<Rightarrow> 'a disks_scheme \<Rightarrow> 'a disks_scheme option" where
  "bunpin b s = do {
     s \<leftarrow> acquire BcacheLock s;
     release BcacheLock (upd_buf b (refcnt_update (\<lambda>n. n - 1)) s)
   }"

end
