(* ===== verification/Log.thy ===== *)
theory Log
  imports Bio
begin

text \<open>
  kernel/log.c: the write-ahead log that makes a group of block writes atomic. Block contents are
  \<open>bytes\<close>; the on-disk header block is read and written as little-endian 32-bit words. The calls
  that sleep until another system call ends (\<open>begin_op\<close> with a commit in progress or no log space)
  are \<open>None\<close>.
\<close>

section \<open>Words in blocks\<close>

definition get32 :: "bytes \<Rightarrow> nat \<Rightarrow> uint" where
  "get32 d off = of_nat (le_get 4 (\<lambda>i. d (off + i)))"

definition put32 :: "nat \<Rightarrow> uint \<Rightarrow> bytes \<Rightarrow> bytes" where
  "put32 off v d = (\<lambda>i. if off \<le> i \<and> i < off + 4 then le_byte (unat v) (i - off) else d i)"

definition get16 :: "bytes \<Rightarrow> nat \<Rightarrow> ushort" where
  "get16 d off = of_nat (le_get 2 (\<lambda>i. d (off + i)))"

definition put16 :: "nat \<Rightarrow> ushort \<Rightarrow> bytes \<Rightarrow> bytes" where
  "put16 off v d = (\<lambda>i. if off \<le> i \<and> i < off + 2 then le_byte (unat v) (i - off) else d i)"

definition set_data :: "nat \<Rightarrow> bytes \<Rightarrow> 'a disks_scheme \<Rightarrow> 'a disks_scheme" where
  "set_data b d = upd_buf b (b_data_update (\<lambda>_. d))"

lemma get32_put32 [simp]: "get32 (put32 off v d) off = v"
proof -
  have "le_get 4 (\<lambda>i. put32 off v d (off + i)) = le_get 4 (le_byte (unat v))" by (rule le_get_cong) (simp add: put32_def)
  also have "\<dots> = unat v" using unat_lt2p [of v] by (simp add: le_get_le_byte)
  finally show ?thesis by (simp add: get32_def)
qed

lemma get32_put32_other: "off + 4 \<le> off' \<or> off' + 4 \<le> off \<Longrightarrow> get32 (put32 off' v d) off = get32 d off"
  unfolding get32_def by (rule arg_cong [where f = of_nat], rule le_get_cong) (auto simp: put32_def)

section \<open>The code\<close>

record logheader =
  lh_n :: int
  lh_block :: "nat \<Rightarrow> uint"

record log =
  l_start :: uint
  l_size :: int
  l_outstanding :: int
  l_committing :: bool
  l_dev :: uint
  l_lh :: logheader

record superblock =
  sb_magic :: uint
  sb_size :: uint
  sb_nblocks :: uint
  sb_ninodes :: uint
  sb_nlog :: uint
  sb_logstart :: uint
  sb_inodestart :: uint
  sb_bmapstart :: uint

record logs = disks +
  log_st :: log

definition upd_log :: "(log \<Rightarrow> log) \<Rightarrow> 'a logs_scheme \<Rightarrow> 'a logs_scheme" where
  "upd_log f s = s\<lparr>log_st := f (log_st s)\<rparr>"

abbreviation log_n :: "'a logs_scheme \<Rightarrow> int" where "log_n s \<equiv> lh_n (l_lh (log_st s))"
abbreviation log_block :: "'a logs_scheme \<Rightarrow> nat \<Rightarrow> uint" where "log_block s \<equiv> lh_block (l_lh (log_st s))"

definition log_data_block :: "nat \<Rightarrow> 'a logs_scheme \<Rightarrow> uint" where
  "log_data_block tail s = l_start (log_st s) + of_nat tail + 1"

text \<open>The loops run from \<open>tail\<close> to \<open>log.lh.n\<close>.\<close>

function install_loop :: "bool \<Rightarrow> nat \<Rightarrow> nat \<Rightarrow> 'a logs_scheme \<Rightarrow> 'a logs_scheme option" where
  "install_loop recovering tail n s =
     (if tail < n then do {
        (lbuf, s) \<leftarrow> bread (l_dev (log_st s)) (log_data_block tail s) s;
        (dbuf, s) \<leftarrow> bread (l_dev (log_st s)) (log_block s tail) s;
        let s = set_data dbuf (b_data (bufs s lbuf)) s;
        s \<leftarrow> bwrite dbuf s;
        s \<leftarrow> (if recovering then Some s else bunpin dbuf s);
        s \<leftarrow> brelse lbuf s;
        s \<leftarrow> brelse dbuf s;
        install_loop recovering (Suc tail) n s
      } else Some s)"
  by pat_completeness auto
termination by (relation "measure (\<lambda>(r, tail, n, s). n - tail)") auto

definition install_trans :: "bool \<Rightarrow> 'a logs_scheme \<Rightarrow> 'a logs_scheme option" where
  "install_trans recovering s = install_loop recovering 0 (nat (log_n s)) s"

text \<open>
  The header block: \<open>n\<close> in the first four bytes, the block numbers after it. An \<open>n\<close> beyond
  \<open>LOGSIZE\<close> would index past the array of \<open>struct logheader\<close>: undefined, \<open>None\<close>.
\<close>

definition head_of :: "bytes \<Rightarrow> logheader \<Rightarrow> logheader" where
  "head_of d lh = lh\<lparr>lh_n := sint (get32 d 0),
     lh_block := (\<lambda>i. if int i < sint (get32 d 0) then get32 d (4 + 4 * i) else lh_block lh i)\<rparr>"

definition read_head :: "'a logs_scheme \<Rightarrow> 'a logs_scheme option" where
  "read_head s = do {
     (b, s) \<leftarrow> bread (l_dev (log_st s)) (l_start (log_st s)) s;
     if int LOGSIZE < sint (get32 (b_data (bufs s b)) 0) then None
     else do {
       let s = upd_log (\<lambda>l. l\<lparr>l_lh := head_of (b_data (bufs s b)) (l_lh l)\<rparr>) s;
       brelse b s
     }
   }"

fun put_blocks :: "nat list \<Rightarrow> (nat \<Rightarrow> uint) \<Rightarrow> bytes \<Rightarrow> bytes" where
  "put_blocks [] bl d = d"
| "put_blocks (i # is) bl d = put_blocks is bl (put32 (4 + 4 * i) (bl i) d)"

definition head_bytes :: "logheader \<Rightarrow> bytes \<Rightarrow> bytes" where
  "head_bytes lh d = put_blocks [0..<nat (lh_n lh)] (lh_block lh) (put32 0 (of_int (lh_n lh)) d)"

definition write_head :: "'a logs_scheme \<Rightarrow> 'a logs_scheme option" where
  "write_head s = do {
     (b, s) \<leftarrow> bread (l_dev (log_st s)) (l_start (log_st s)) s;
     let s = set_data b (head_bytes (l_lh (log_st s)) (b_data (bufs s b))) s;
     s \<leftarrow> bwrite b s;
     brelse b s
   }"

definition set_log_n :: "int \<Rightarrow> 'a logs_scheme \<Rightarrow> 'a logs_scheme" where
  "set_log_n n = upd_log (\<lambda>l. l\<lparr>l_lh := (l_lh l)\<lparr>lh_n := n\<rparr>\<rparr>)"

definition recover_from_log :: "'a logs_scheme \<Rightarrow> 'a logs_scheme option" where
  "recover_from_log s = do {
     s \<leftarrow> read_head s;
     s \<leftarrow> install_trans True s;
     write_head (set_log_n 0 s)
   }"

definition initlog :: "uint \<Rightarrow> superblock \<Rightarrow> 'a logs_scheme \<Rightarrow> 'a logs_scheme option" where
  "initlog dev sb s = do {
     panic_if (4 + 4 * LOGSIZE \<ge> BSIZE) ''initlog: too big logheader'';
     let s = initlock LogLock ''log'' s;
     let s = upd_log (\<lambda>l. l\<lparr>l_start := sb_logstart sb, l_size := sint (sb_nlog sb), l_dev := dev\<rparr>) s;
     recover_from_log s
   }"

definition begin_op :: "'a logs_scheme \<Rightarrow> 'a logs_scheme option" where
  "begin_op s = do {
     s \<leftarrow> acquire LogLock s;
     if l_committing (log_st s) then None
     else if log_n s + (l_outstanding (log_st s) + 1) * int MAXOPBLOCKS > int LOGSIZE then None
     else release LogLock (upd_log (\<lambda>l. l\<lparr>l_outstanding := l_outstanding l + 1\<rparr>) s)
   }"

function write_log_loop :: "nat \<Rightarrow> nat \<Rightarrow> 'a logs_scheme \<Rightarrow> 'a logs_scheme option" where
  "write_log_loop tail n s =
     (if tail < n then do {
        (to, s) \<leftarrow> bread (l_dev (log_st s)) (log_data_block tail s) s;
        (from_b, s) \<leftarrow> bread (l_dev (log_st s)) (log_block s tail) s;
        let s = set_data to (b_data (bufs s from_b)) s;
        s \<leftarrow> bwrite to s;
        s \<leftarrow> brelse from_b s;
        s \<leftarrow> brelse to s;
        write_log_loop (Suc tail) n s
      } else Some s)"
  by pat_completeness auto
termination by (relation "measure (\<lambda>(tail, n, s). n - tail)") auto

definition write_log :: "'a logs_scheme \<Rightarrow> 'a logs_scheme option" where
  "write_log s = write_log_loop 0 (nat (log_n s)) s"

definition commit :: "'a logs_scheme \<Rightarrow> 'a logs_scheme option" where
  "commit s =
     (if log_n s > 0 then do {
        s \<leftarrow> write_log s;
        s \<leftarrow> write_head s;
        s \<leftarrow> install_trans False s;
        write_head (set_log_n 0 s)
      } else Some s)"

definition end_op :: "'a logs_scheme \<Rightarrow> 'a logs_scheme option" where
  "end_op s = do {
     s \<leftarrow> acquire LogLock s;
     let s = upd_log (\<lambda>l. l\<lparr>l_outstanding := l_outstanding l - 1\<rparr>) s;
     panic_if (l_committing (log_st s)) ''log.committing'';
     let do_commit = (l_outstanding (log_st s) = 0);
     s \<leftarrow> (if do_commit then Some (upd_log (\<lambda>l. l\<lparr>l_committing := True\<rparr>) s) else wakeup LogChan s);
     s \<leftarrow> release LogLock s;
     if do_commit then do {
       s \<leftarrow> commit s;
       s \<leftarrow> acquire LogLock s;
       let s = upd_log (\<lambda>l. l\<lparr>l_committing := False\<rparr>) s;
       s \<leftarrow> wakeup LogChan s;
       release LogLock s
     } else Some s
   }"

text \<open>The search for the block in the log: its slot, or the first unused one.\<close>

definition log_slot :: "uint \<Rightarrow> 'a logs_scheme \<Rightarrow> nat" where
  "log_slot bno s = (case find (\<lambda>i. log_block s i = bno) [0..<nat (log_n s)] of Some i \<Rightarrow> i | None \<Rightarrow> nat (log_n s))"

definition log_write :: "nat \<Rightarrow> 'a logs_scheme \<Rightarrow> 'a logs_scheme option" where
  "log_write b s = do {
     s \<leftarrow> acquire LogLock s;
     panic_if (log_n s \<ge> int LOGSIZE \<or> log_n s \<ge> l_size (log_st s) - 1) ''too big a transaction'';
     panic_if (l_outstanding (log_st s) < 1) ''log_write outside of trans'';
     let i = log_slot (blockno (bufs s b)) s;
     let s = upd_log (\<lambda>l. l\<lparr>l_lh := (l_lh l)\<lparr>lh_block := (lh_block (l_lh l))(i := blockno (bufs s b))\<rparr>\<rparr>) s;
     s \<leftarrow> (if int i = log_n s then do { s \<leftarrow> bpin b s; Some (set_log_n (log_n s + 1) s) } else Some s);
     release LogLock s
   }"

section \<open>Frame rules\<close>

lemma log_st_frame [simp]:
  "release lk (log_st_update f s) = map_option (log_st_update f) (release lk s)"
  "acquired lk (log_st_update f s) = log_st_update f (acquired lk s)"
  "settle (log_st_update f s) = log_st_update f (settle s)" "push_off (log_st_update f s) = log_st_update f (push_off s)"
  "free lk (log_st_update f s) = free lk s" "cpu_ok (log_st_update f s) = cpu_ok s"
  "log_st (acquired lk s) = log_st s" "log_st (settle s) = log_st s" "log_st (push_off s) = log_st s"
  "mycpu (log_st_update f s) = mycpu s" "holding lk (log_st_update f s) = holding lk s"
  by (simp_all add: lock_forms)

end
