(* ===== verification/Fs.thy ===== *)
theory Fs
  imports Log Printf
begin

text \<open>
  kernel/fs.c, kernel/fs.h and the inode part of kernel/file.h: the block allocator, inodes, their
  contents, directories and path names. Inodes are indices into \<open>itable.inode\<close>; a null inode pointer
  is \<open>None\<close>. File names and paths are the bytes before the terminating NUL. A kernel object that
  \<open>readi\<close> fills is the list of bytes it returns; one that \<open>writei\<close> takes from is a \<open>KernSrc\<close>.
\<close>

section \<open>Constants and structures (fs.h, file.h, stat.h)\<close>

definition ROOTINO :: uint where "ROOTINO = 1"
definition FSMAGIC :: uint where "FSMAGIC = 0x10203040"
definition NDIRECT :: nat where "NDIRECT = 12"
definition NINDIRECT :: nat where "NINDIRECT = BSIZE div 4"
definition MAXFILE :: nat where "MAXFILE = NDIRECT + NINDIRECT"
definition DINODE_SIZE :: nat where "DINODE_SIZE = 4 * 2 + 4 + 4 * (NDIRECT + 1)"
definition IPB :: nat where "IPB = BSIZE div DINODE_SIZE"
definition BPB :: nat where "BPB = BSIZE * 8"
definition DIRSIZ :: nat where "DIRSIZ = 14"
definition DIRENT_SIZE :: nat where "DIRENT_SIZE = 2 + DIRSIZ"

definition IBLOCK :: "uint \<Rightarrow> superblock \<Rightarrow> uint" where
  "IBLOCK i sb = i div of_nat IPB + sb_inodestart sb"

definition BBLOCK :: "uint \<Rightarrow> superblock \<Rightarrow> uint" where
  "BBLOCK b sb = b div of_nat BPB + sb_bmapstart sb"

definition T_DIR :: ushort where "T_DIR = 1"
definition T_FILE :: ushort where "T_FILE = 2"
definition T_DEVICE :: ushort where "T_DEVICE = 3"

record dinode =
  d_type :: ushort
  d_major :: ushort
  d_minor :: ushort
  d_nlink :: ushort
  d_size :: uint
  d_addrs :: "nat \<Rightarrow> uint"

record inode =
  i_dev :: uint
  i_inum :: uint
  i_ref :: int
  i_valid :: bool
  i_type :: ushort
  i_major :: ushort
  i_minor :: ushort
  i_nlink :: ushort
  i_size :: uint
  i_addrs :: "nat \<Rightarrow> uint"

record stat =
  st_dev :: uint
  st_ino :: uint
  st_type :: ushort
  st_nlink :: ushort
  st_size :: uint64

record dirent =
  de_inum :: ushort
  de_name :: "uchar list"

text \<open>\<open>sb\<close>, \<open>itable\<close>, and what the bytes of an uninitialised local variable happen to hold.\<close>

record fss = logs +
  sb_st :: superblock
  inodes :: "nat \<Rightarrow> inode"
  junk :: bytes

definition upd_inode :: "nat \<Rightarrow> (inode \<Rightarrow> inode) \<Rightarrow> 'a fss_scheme \<Rightarrow> 'a fss_scheme" where
  "upd_inode i f s = s\<lparr>inodes := (inodes s)(i := f (inodes s i))\<rparr>"

text \<open>An on-disk inode at byte \<open>off\<close> of a block.\<close>

definition get_dinode :: "bytes \<Rightarrow> nat \<Rightarrow> dinode" where
  "get_dinode d off = \<lparr>d_type = get16 d off, d_major = get16 d (off + 2), d_minor = get16 d (off + 4),
     d_nlink = get16 d (off + 6), d_size = get32 d (off + 8), d_addrs = (\<lambda>i. get32 d (off + 12 + 4 * i))\<rparr>"

fun put_addrs :: "nat list \<Rightarrow> nat \<Rightarrow> (nat \<Rightarrow> uint) \<Rightarrow> bytes \<Rightarrow> bytes" where
  "put_addrs [] off a d = d"
| "put_addrs (i # is) off a d = put_addrs is off a (put32 (off + 4 * i) (a i) d)"

definition put_dinode :: "nat \<Rightarrow> dinode \<Rightarrow> bytes \<Rightarrow> bytes" where
  "put_dinode off x d =
     put_addrs [0..<NDIRECT + 1] (off + 12) (d_addrs x) (put32 (off + 8) (d_size x) (put16 (off + 6) (d_nlink x)
       (put16 (off + 4) (d_minor x) (put16 (off + 2) (d_major x) (put16 off (d_type x) d)))))"

definition dinode_off :: "uint \<Rightarrow> nat" where
  "dinode_off inum = unat inum mod IPB * DINODE_SIZE"

text \<open>Bytes of a block as a list, and a list written into a block.\<close>

definition get_block :: "bytes \<Rightarrow> nat \<Rightarrow> nat \<Rightarrow> uchar list" where
  "get_block d off n = map d [off..<off + n]"

definition put_block :: "nat \<Rightarrow> uchar list \<Rightarrow> bytes \<Rightarrow> bytes" where
  "put_block off bs d = (\<lambda>i. if off \<le> i \<and> i < off + length bs then bs ! (i - off) else d i)"

definition fill_block :: "nat \<Rightarrow> nat \<Rightarrow> uchar \<Rightarrow> bytes \<Rightarrow> bytes" where
  "fill_block off n c d = (\<lambda>i. if off \<le> i \<and> i < off + n then c else d i)"

section \<open>The super block\<close>

definition get_superblock :: "bytes \<Rightarrow> superblock" where
  "get_superblock d = \<lparr>sb_magic = get32 d 0, sb_size = get32 d 4, sb_nblocks = get32 d 8, sb_ninodes = get32 d 12,
     sb_nlog = get32 d 16, sb_logstart = get32 d 20, sb_inodestart = get32 d 24, sb_bmapstart = get32 d 28\<rparr>"

definition readsb :: "uint \<Rightarrow> 'a fss_scheme \<Rightarrow> 'a fss_scheme option" where
  "readsb dev s = do {
     (bp, s) \<leftarrow> bread dev 1 s;
     let s = s\<lparr>sb_st := get_superblock (b_data (bufs s bp))\<rparr>;
     brelse bp s
   }"

definition fsinit :: "uint \<Rightarrow> 'a fss_scheme \<Rightarrow> 'a fss_scheme option" where
  "fsinit dev s = do {
     s \<leftarrow> readsb dev s;
     panic_if (sb_magic (sb_st s) \<noteq> FSMAGIC) ''invalid file system'';
     initlog dev (sb_st s) s
   }"

section \<open>Blocks\<close>

definition bzero :: "uint \<Rightarrow> uint \<Rightarrow> 'a fss_scheme \<Rightarrow> 'a fss_scheme option" where
  "bzero dev bno s = do {
     (bp, s) \<leftarrow> bread dev bno s;
     let s = set_data bp (fill_block 0 BSIZE 0 (b_data (bufs s bp))) s;
     s \<leftarrow> log_write bp s;
     brelse bp s
   }"

text \<open>\<open>m = 1 << (bi % 8)\<close>, the test, the set and the clear of bit \<open>bi\<close> of a bitmap block.\<close>

definition bit_mask :: "nat \<Rightarrow> uchar" where
  "bit_mask bi = push_bit (bi mod 8) 1"

definition bit_used :: "bytes \<Rightarrow> nat \<Rightarrow> bool" where
  "bit_used d bi \<longleftrightarrow> d (bi div 8) AND bit_mask bi \<noteq> 0"

definition bit_set :: "nat \<Rightarrow> bytes \<Rightarrow> bytes" where
  "bit_set bi d = d(bi div 8 := d (bi div 8) OR bit_mask bi)"

definition bit_clear :: "nat \<Rightarrow> bytes \<Rightarrow> bytes" where
  "bit_clear bi d = d(bi div 8 := d (bi div 8) AND NOT (bit_mask bi))"

text \<open>
  The loops of \<open>balloc\<close>: over the bitmap blocks, \<open>b\<close> being the first block number the bitmap block
  describes, and over the bits of each.
\<close>

function balloc_loop :: "uint \<Rightarrow> nat \<Rightarrow> nat \<Rightarrow> 'a fss_scheme \<Rightarrow> (uint option \<times> 'a fss_scheme) option" where
  "balloc_loop dev sz b s =
     (if b < sz then do {
        (bp, s) \<leftarrow> bread dev (BBLOCK (of_nat b) (sb_st s)) s;
        case find (\<lambda>bi. \<not> bit_used (b_data (bufs s bp)) bi) [0..<min BPB (sz - b)] of
          Some bi \<Rightarrow> do {
            let s = set_data bp (bit_set bi (b_data (bufs s bp))) s;
            s \<leftarrow> log_write bp s;
            s \<leftarrow> brelse bp s;
            s \<leftarrow> bzero dev (of_nat (b + bi)) s;
            Some (Some (of_nat (b + bi)), s)
          }
        | None \<Rightarrow> do { s \<leftarrow> brelse bp s; balloc_loop dev sz (b + BPB) s }
      } else Some (None, s))"
  by pat_completeness auto
termination by (relation "measure (\<lambda>(dev, sz, b, s). sz - b)") (auto simp: BPB_def BSIZE_def)

definition balloc :: "uint \<Rightarrow> 'a fss_scheme \<Rightarrow> (uint \<times> 'a fss_scheme) option" where
  "balloc dev s = do {
     (r, s) \<leftarrow> balloc_loop dev (unat (sb_size (sb_st s))) 0 s;
     case r of
       Some b \<Rightarrow> Some (b, s)
     | None \<Rightarrow> do { s \<leftarrow> printf (Some (str ''balloc: out of blocks\<newline>'')) [] s; Some (0, s) }
   }"

definition bfree :: "uint \<Rightarrow> uint \<Rightarrow> 'a fss_scheme \<Rightarrow> 'a fss_scheme option" where
  "bfree dev b s = do {
     (bp, s) \<leftarrow> bread dev (BBLOCK b (sb_st s)) s;
     let bi = unat b mod BPB;
     panic_if (\<not> bit_used (b_data (bufs s bp)) bi) ''freeing free block'';
     let s = set_data bp (bit_clear bi (b_data (bufs s bp))) s;
     s \<leftarrow> log_write bp s;
     brelse bp s
   }"

section \<open>Inodes\<close>

fun iinit_loop :: "nat list \<Rightarrow> 'a fss_scheme \<Rightarrow> 'a fss_scheme" where
  "iinit_loop [] s = s"
| "iinit_loop (i # is) s = iinit_loop is (initsleeplock (InodeSleep i) ''inode'' s)"

definition iinit :: "'a fss_scheme \<Rightarrow> 'a fss_scheme" where
  "iinit s = iinit_loop [0..<NINODE] (initlock ItableLock ''itable'' s)"

text \<open>The scan of \<open>iget\<close>: the entry of the inode, or the first empty slot.\<close>

fun iget_scan :: "nat list \<Rightarrow> uint \<Rightarrow> uint \<Rightarrow> nat option \<Rightarrow> 'a fss_scheme \<Rightarrow> nat option \<times> nat option" where
  "iget_scan [] dev inum empty_i s = (None, empty_i)"
| "iget_scan (ip # ips) dev inum empty_i s =
     (if i_ref (inodes s ip) > 0 \<and> i_dev (inodes s ip) = dev \<and> i_inum (inodes s ip) = inum then (Some ip, empty_i)
      else iget_scan ips dev inum (if empty_i = None \<and> i_ref (inodes s ip) = 0 then Some ip else empty_i) s)"

definition iget :: "uint \<Rightarrow> uint \<Rightarrow> 'a fss_scheme \<Rightarrow> (nat \<times> 'a fss_scheme) option" where
  "iget dev inum s = do {
     s \<leftarrow> acquire ItableLock s;
     case iget_scan [0..<NINODE] dev inum None s of
       (Some ip, _) \<Rightarrow> do {
         s \<leftarrow> release ItableLock (upd_inode ip (i_ref_update (\<lambda>r. r + 1)) s);
         Some (ip, s)
       }
     | (None, empty_i) \<Rightarrow> do {
         panic_if (empty_i = None) ''iget: no inodes'';
         ip \<leftarrow> empty_i;
         s \<leftarrow> release ItableLock (upd_inode ip (\<lambda>i. i\<lparr>i_dev := dev, i_inum := inum, i_ref := 1, i_valid := False\<rparr>) s);
         Some (ip, s)
       }
   }"

fun ialloc_loop :: "nat list \<Rightarrow> uint \<Rightarrow> ushort \<Rightarrow> 'a fss_scheme \<Rightarrow> (nat option \<times> 'a fss_scheme) option" where
  "ialloc_loop [] dev ty s = do {
     s \<leftarrow> printf (Some (str ''ialloc: no inodes\<newline>'')) [] s;
     Some (None, s)
   }"
| "ialloc_loop (inum # inums) dev ty s = do {
     (bp, s) \<leftarrow> bread dev (IBLOCK (of_nat inum) (sb_st s)) s;
     let off = dinode_off (of_nat inum);
     if d_type (get_dinode (b_data (bufs s bp)) off) = 0 then do {
       let s = set_data bp (put16 off ty (fill_block off DINODE_SIZE 0 (b_data (bufs s bp)))) s;
       s \<leftarrow> log_write bp s;
       s \<leftarrow> brelse bp s;
       (ip, s) \<leftarrow> iget dev (of_nat inum) s;
       Some (Some ip, s)
     } else do {
       s \<leftarrow> brelse bp s;
       ialloc_loop inums dev ty s
     }
   }"

definition ialloc :: "uint \<Rightarrow> ushort \<Rightarrow> 'a fss_scheme \<Rightarrow> (nat option \<times> 'a fss_scheme) option" where
  "ialloc dev ty s = ialloc_loop [1..<unat (sb_ninodes (sb_st s))] dev ty s"

definition iupdate :: "nat \<Rightarrow> 'a fss_scheme \<Rightarrow> 'a fss_scheme option" where
  "iupdate ip s = do {
     (bp, s) \<leftarrow> bread (i_dev (inodes s ip)) (IBLOCK (i_inum (inodes s ip)) (sb_st s)) s;
     let i = inodes s ip;
     let s = set_data bp (put_dinode (dinode_off (i_inum i)) \<lparr>d_type = i_type i, d_major = i_major i, d_minor = i_minor i,
       d_nlink = i_nlink i, d_size = i_size i, d_addrs = i_addrs i\<rparr> (b_data (bufs s bp))) s;
     s \<leftarrow> log_write bp s;
     brelse bp s
   }"

definition idup :: "nat \<Rightarrow> 'a fss_scheme \<Rightarrow> (nat \<times> 'a fss_scheme) option" where
  "idup ip s = do {
     s \<leftarrow> acquire ItableLock s;
     s \<leftarrow> release ItableLock (upd_inode ip (i_ref_update (\<lambda>r. r + 1)) s);
     Some (ip, s)
   }"

definition load_inode :: "dinode \<Rightarrow> inode \<Rightarrow> inode" where
  "load_inode d i = i\<lparr>i_type := d_type d, i_major := d_major d, i_minor := d_minor d, i_nlink := d_nlink d,
     i_size := d_size d, i_addrs := (\<lambda>k. if k \<le> NDIRECT then d_addrs d k else i_addrs i k)\<rparr>"

definition ilock :: "nat \<Rightarrow> 'a fss_scheme \<Rightarrow> 'a fss_scheme option" where
  "ilock ip s = do {
     panic_if (i_ref (inodes s ip) < 1) ''ilock'';
     s \<leftarrow> acquiresleep (InodeSleep ip) s;
     if \<not> i_valid (inodes s ip) then do {
       (bp, s) \<leftarrow> bread (i_dev (inodes s ip)) (IBLOCK (i_inum (inodes s ip)) (sb_st s)) s;
       let s = upd_inode ip (load_inode (get_dinode (b_data (bufs s bp)) (dinode_off (i_inum (inodes s ip))))) s;
       s \<leftarrow> brelse bp s;
       let s = upd_inode ip (i_valid_update (\<lambda>_. True)) s;
       panic_if (i_type (inodes s ip) = 0) ''ilock: no type'';
       Some s
     } else Some s
   }"

definition iunlock :: "nat \<Rightarrow> 'a fss_scheme \<Rightarrow> 'a fss_scheme option" where
  "iunlock ip s = do {
     (h, s) \<leftarrow> holdingsleep (InodeSleep ip) s;
     panic_if (\<not> h \<or> i_ref (inodes s ip) < 1) ''iunlock'';
     releasesleep (InodeSleep ip) s
   }"

fun itrunc_direct :: "nat list \<Rightarrow> nat \<Rightarrow> 'a fss_scheme \<Rightarrow> 'a fss_scheme option" where
  "itrunc_direct [] ip s = Some s"
| "itrunc_direct (i # is) ip s =
     (if i_addrs (inodes s ip) i \<noteq> 0 then do {
        s \<leftarrow> bfree (i_dev (inodes s ip)) (i_addrs (inodes s ip) i) s;
        itrunc_direct is ip (upd_inode ip (i_addrs_update (\<lambda>a. a(i := 0))) s)
      } else itrunc_direct is ip s)"

fun itrunc_indirect :: "nat list \<Rightarrow> nat \<Rightarrow> nat \<Rightarrow> 'a fss_scheme \<Rightarrow> 'a fss_scheme option" where
  "itrunc_indirect [] bp ip s = Some s"
| "itrunc_indirect (j # js) bp ip s =
     (if get32 (b_data (bufs s bp)) (4 * j) \<noteq> 0 then do {
        s \<leftarrow> bfree (i_dev (inodes s ip)) (get32 (b_data (bufs s bp)) (4 * j)) s;
        itrunc_indirect js bp ip s
      } else itrunc_indirect js bp ip s)"

definition itrunc :: "nat \<Rightarrow> 'a fss_scheme \<Rightarrow> 'a fss_scheme option" where
  "itrunc ip s = do {
     s \<leftarrow> itrunc_direct [0..<NDIRECT] ip s;
     s \<leftarrow> (if i_addrs (inodes s ip) NDIRECT \<noteq> 0 then do {
         (bp, s) \<leftarrow> bread (i_dev (inodes s ip)) (i_addrs (inodes s ip) NDIRECT) s;
         s \<leftarrow> itrunc_indirect [0..<NINDIRECT] bp ip s;
         s \<leftarrow> brelse bp s;
         s \<leftarrow> bfree (i_dev (inodes s ip)) (i_addrs (inodes s ip) NDIRECT) s;
         Some (upd_inode ip (i_addrs_update (\<lambda>a. a(NDIRECT := 0))) s)
       } else Some s);
     iupdate ip (upd_inode ip (i_size_update (\<lambda>_. 0)) s)
   }"

definition iput :: "nat \<Rightarrow> 'a fss_scheme \<Rightarrow> 'a fss_scheme option" where
  "iput ip s = do {
     s \<leftarrow> acquire ItableLock s;
     s \<leftarrow> (if i_ref (inodes s ip) = 1 \<and> i_valid (inodes s ip) \<and> i_nlink (inodes s ip) = 0 then do {
         s \<leftarrow> acquiresleep (InodeSleep ip) s;
         s \<leftarrow> release ItableLock s;
         s \<leftarrow> itrunc ip s;
         s \<leftarrow> iupdate ip (upd_inode ip (i_type_update (\<lambda>_. 0)) s);
         let s = upd_inode ip (i_valid_update (\<lambda>_. False)) s;
         s \<leftarrow> releasesleep (InodeSleep ip) s;
         acquire ItableLock s
       } else Some s);
     release ItableLock (upd_inode ip (i_ref_update (\<lambda>r. r - 1)) s)
   }"

definition iunlockput :: "nat \<Rightarrow> 'a fss_scheme \<Rightarrow> 'a fss_scheme option" where
  "iunlockput ip s = do { s \<leftarrow> iunlock ip s; iput ip s }"

section \<open>Inode contents\<close>

definition bmap :: "nat \<Rightarrow> nat \<Rightarrow> 'a fss_scheme \<Rightarrow> (uint \<times> 'a fss_scheme) option" where
  "bmap ip bn s =
     (if bn < NDIRECT then
        if i_addrs (inodes s ip) bn = 0 then do {
          (addr, s) \<leftarrow> balloc (i_dev (inodes s ip)) s;
          if addr = 0 then Some (0, s)
          else Some (addr, upd_inode ip (i_addrs_update (\<lambda>a. a(bn := addr))) s)
        } else Some (i_addrs (inodes s ip) bn, s)
      else if bn - NDIRECT < NINDIRECT then do {
        (addr, s) \<leftarrow> (if i_addrs (inodes s ip) NDIRECT = 0 then do {
            (addr, s) \<leftarrow> balloc (i_dev (inodes s ip)) s;
            if addr = 0 then Some (0, s)
            else Some (addr, upd_inode ip (i_addrs_update (\<lambda>a. a(NDIRECT := addr))) s)
          } else Some (i_addrs (inodes s ip) NDIRECT, s));
        if addr = 0 then Some (0, s)
        else do {
          (bp, s) \<leftarrow> bread (i_dev (inodes s ip)) addr s;
          let k = 4 * (bn - NDIRECT);
          (addr, s) \<leftarrow> (if get32 (b_data (bufs s bp)) k = 0 then do {
              (addr, s) \<leftarrow> balloc (i_dev (inodes s ip)) s;
              if addr \<noteq> 0 then do {
                let s = set_data bp (put32 k addr (b_data (bufs s bp))) s;
                s \<leftarrow> log_write bp s;
                Some (addr, s)
              } else Some (addr, s)
            } else Some (get32 (b_data (bufs s bp)) k, s));
          s \<leftarrow> brelse bp s;
          Some (addr, s)
        }
      } else panic ''bmap: out of range'')"

definition stati :: "nat \<Rightarrow> 'a fss_scheme \<Rightarrow> stat" where
  "stati ip s = \<lparr>st_dev = i_dev (inodes s ip), st_ino = i_inum (inodes s ip), st_type = i_type (inodes s ip),
     st_nlink = i_nlink (inodes s ip), st_size = ucast (i_size (inodes s ip))\<rparr>"

text \<open>
  \<open>readi\<close> and \<open>writei\<close>: the loops count in unbounded numbers, since the tests before them exclude
  wrap-around. The list that \<open>readi\<close> returns is what has been copied.
\<close>

function readi_loop :: "nat \<Rightarrow> bool \<Rightarrow> uint64 \<Rightarrow> nat \<Rightarrow> nat \<Rightarrow> nat \<Rightarrow> uchar list \<Rightarrow> 'a fss_scheme \<Rightarrow>
    (int \<times> uchar list \<times> 'a fss_scheme) option" where
  "readi_loop ip user_dst dst off n tot acc s =
     (if tot < n then do {
        (addr, s) \<leftarrow> bmap ip (off div BSIZE) s;
        if addr = 0 then Some (int tot, acc, s)
        else do {
          (bp, s) \<leftarrow> bread (i_dev (inodes s ip)) addr s;
          let m = min (n - tot) (BSIZE - off mod BSIZE);
          let bs = get_block (b_data (bufs s bp)) (off mod BSIZE) m;
          (r, s) \<leftarrow> either_copyout user_dst dst bs s;
          if r = -1 then do { s \<leftarrow> brelse bp s; Some (-1, acc, s) }
          else do {
            s \<leftarrow> brelse bp s;
            readi_loop ip user_dst (dst + of_nat m) (off + m) n (tot + m) (acc @ bs) s
          }
        }
      } else Some (int tot, acc, s))"
  by pat_completeness auto
termination
  by (relation "measure (\<lambda>(ip, u, dst, off, n, tot, acc, s). n - tot)") (auto simp: BSIZE_def)

definition readi :: "nat \<Rightarrow> bool \<Rightarrow> uint64 \<Rightarrow> uint \<Rightarrow> uint \<Rightarrow> 'a fss_scheme \<Rightarrow> (int \<times> uchar list \<times> 'a fss_scheme) option" where
  "readi ip user_dst dst off n s =
     (if off > i_size (inodes s ip) \<or> off + n < off then Some (0, [], s)
      else let n = (if off + n > i_size (inodes s ip) then i_size (inodes s ip) - off else n)
        in readi_loop ip user_dst dst (unat off) (unat n) 0 [] s)"

function writei_loop :: "nat \<Rightarrow> usrc \<Rightarrow> nat \<Rightarrow> nat \<Rightarrow> nat \<Rightarrow> 'a fss_scheme \<Rightarrow> (nat \<times> nat \<times> 'a fss_scheme) option" where
  "writei_loop ip src off n tot s =
     (if tot < n then do {
        (addr, s) \<leftarrow> bmap ip (off div BSIZE) s;
        if addr = 0 then Some (tot, off, s)
        else do {
          (bp, s) \<leftarrow> bread (i_dev (inodes s ip)) addr s;
          let m = min (n - tot) (BSIZE - off mod BSIZE);
          (r, bs, s) \<leftarrow> either_copyin src tot m s;
          let s = set_data bp (put_block (off mod BSIZE) bs (b_data (bufs s bp))) s;
          if r = -1 then do { s \<leftarrow> brelse bp s; Some (tot, off, s) }
          else do {
            s \<leftarrow> log_write bp s;
            s \<leftarrow> brelse bp s;
            writei_loop ip src (off + m) n (tot + m) s
          }
        }
      } else Some (tot, off, s))"
  by pat_completeness auto
termination
  by (relation "measure (\<lambda>(ip, src, off, n, tot, s). n - tot)") (auto simp: BSIZE_def)

definition writei :: "nat \<Rightarrow> usrc \<Rightarrow> uint \<Rightarrow> uint \<Rightarrow> 'a fss_scheme \<Rightarrow> (int \<times> 'a fss_scheme) option" where
  "writei ip src off n s =
     (if off > i_size (inodes s ip) \<or> off + n < off then Some (-1, s)
      else if off + n > of_nat (MAXFILE * BSIZE) then Some (-1, s)
      else do {
        (tot, off, s) \<leftarrow> writei_loop ip src (unat off) (unat n) 0 s;
        let s = (if of_nat off > i_size (inodes s ip) then upd_inode ip (i_size_update (\<lambda>_. of_nat off)) s else s);
        s \<leftarrow> iupdate ip s;
        Some (int tot, s)
      })"

section \<open>Directories\<close>

text \<open>
  \<open>strncmp\<close> (string.c) on byte arrays that are at least \<open>n\<close> long or end in a NUL; the NUL of a list
  is its end.
\<close>

fun strncmp_list :: "nat \<Rightarrow> uchar list \<Rightarrow> uchar list \<Rightarrow> int" where
  "strncmp_list 0 p q = 0"
| "strncmp_list (Suc n) p q =
     (let a = (case p of [] \<Rightarrow> 0 | x # _ \<Rightarrow> x); b = (case q of [] \<Rightarrow> 0 | y # _ \<Rightarrow> y) in
      if a \<noteq> 0 \<and> a = b then strncmp_list n (tl p) (tl q) else uint a - uint b)"

definition namecmp :: "uchar list \<Rightarrow> uchar list \<Rightarrow> int" where
  "namecmp s t = strncmp_list DIRSIZ s t"

definition get_dirent :: "uchar list \<Rightarrow> dirent" where
  "get_dirent bs = \<lparr>de_inum = get16 (\<lambda>i. bs ! i) 0, de_name = drop 2 bs\<rparr>"

text \<open>\<open>strncpy(de.name, name, DIRSIZ)\<close>: the bytes before the NUL, then NULs.\<close>

definition dirent_name :: "uchar list \<Rightarrow> uchar list" where
  "dirent_name name = (let t = take DIRSIZ (takeWhile (\<lambda>c. c \<noteq> 0) name) in t @ replicate (DIRSIZ - length t) 0)"

definition dirent_bytes :: "dirent \<Rightarrow> uchar list" where
  "dirent_bytes de = [ucast (de_inum de), ucast (drop_bit 8 (de_inum de))] @ de_name de"

function dirlookup_loop :: "nat \<Rightarrow> uchar list \<Rightarrow> nat \<Rightarrow> nat \<Rightarrow> 'a fss_scheme \<Rightarrow> ((nat \<times> uint) option \<times> 'a fss_scheme) option" where
  "dirlookup_loop dp name off sz s =
     (if off < sz then do {
        (r, bs, s) \<leftarrow> readi dp False 0 (of_nat off) (of_nat DIRENT_SIZE) s;
        panic_if (r \<noteq> int DIRENT_SIZE) ''dirlookup read'';
        let de = get_dirent bs;
        if de_inum de = 0 then dirlookup_loop dp name (off + DIRENT_SIZE) sz s
        else if namecmp name (de_name de) = 0 then do {
          (ip, s) \<leftarrow> iget (i_dev (inodes s dp)) (ucast (de_inum de)) s;
          Some (Some (ip, of_nat off), s)
        } else dirlookup_loop dp name (off + DIRENT_SIZE) sz s
      } else Some (None, s))"
  by pat_completeness auto
termination
  by (relation "measure (\<lambda>(dp, name, off, sz, s). sz - off)") (auto simp: DIRENT_SIZE_def)

definition dirlookup :: "nat \<Rightarrow> uchar list \<Rightarrow> 'a fss_scheme \<Rightarrow> ((nat \<times> uint) option \<times> 'a fss_scheme) option" where
  "dirlookup dp name s = do {
     panic_if (i_type (inodes s dp) \<noteq> T_DIR) ''dirlookup not DIR'';
     dirlookup_loop dp name 0 (unat (i_size (inodes s dp))) s
   }"

function dirlink_loop :: "nat \<Rightarrow> nat \<Rightarrow> nat \<Rightarrow> 'a fss_scheme \<Rightarrow> (nat \<times> 'a fss_scheme) option" where
  "dirlink_loop dp off sz s =
     (if off < sz then do {
        (r, bs, s) \<leftarrow> readi dp False 0 (of_nat off) (of_nat DIRENT_SIZE) s;
        panic_if (r \<noteq> int DIRENT_SIZE) ''dirlink read'';
        if de_inum (get_dirent bs) = 0 then Some (off, s) else dirlink_loop dp (off + DIRENT_SIZE) sz s
      } else Some (off, s))"
  by pat_completeness auto
termination
  by (relation "measure (\<lambda>(dp, off, sz, s). sz - off)") (auto simp: DIRENT_SIZE_def)

definition dirlink :: "nat \<Rightarrow> uchar list \<Rightarrow> uint \<Rightarrow> 'a fss_scheme \<Rightarrow> (int \<times> 'a fss_scheme) option" where
  "dirlink dp name inum s = do {
     (ip, s) \<leftarrow> dirlookup dp name s;
     case ip of
       Some (ip, _) \<Rightarrow> do { s \<leftarrow> iput ip s; Some (-1, s) }
     | None \<Rightarrow> do {
         (off, s) \<leftarrow> dirlink_loop dp 0 (unat (i_size (inodes s dp))) s;
         let de = \<lparr>de_inum = ucast inum, de_name = dirent_name name\<rparr>;
         (r, s) \<leftarrow> writei dp (KernSrc (dirent_bytes de)) (of_nat off) (of_nat DIRENT_SIZE) s;
         Some (if r \<noteq> int DIRENT_SIZE then -1 else 0, s)
       }
   }"

section \<open>Paths\<close>

abbreviation slash :: uchar where "slash \<equiv> 47"

definition skipelem :: "uchar list \<Rightarrow> (uchar list \<times> uchar list) option" where
  "skipelem path =
     (let path = dropWhile (\<lambda>c. c = slash) path in
      if path = [] then None
      else let elem = takeWhile (\<lambda>c. c \<noteq> slash) path;
               path = dropWhile (\<lambda>c. c \<noteq> slash) path;
               name = (if length elem \<ge> DIRSIZ then take DIRSIZ elem else elem)
        in Some (dropWhile (\<lambda>c. c = slash) path, name))"

lemma skipelem_shorter: "skipelem path = Some (rest, name) \<Longrightarrow> length rest < length path"
proof -
  assume a: "skipelem path = Some (rest, name)"
  define p where "p = dropWhile (\<lambda>c. c = slash) path"
  have p: "p \<noteq> []" "hd p \<noteq> slash" "length p \<le> length path"
    using a hd_dropWhile [of "\<lambda>c. c = slash" path] by (auto simp: skipelem_def p_def Let_def length_dropWhile_le split: if_splits)
  then obtain c q where q: "p = c # q" by (cases p) auto
  have "rest = dropWhile (\<lambda>c. c = slash) (dropWhile (\<lambda>c. c \<noteq> slash) p)"
    using a by (simp add: skipelem_def p_def [symmetric] Let_def split: if_splits)
  then have "length rest \<le> length q"
    using p(2) q length_dropWhile_le [of "\<lambda>c. c \<noteq> slash" q] length_dropWhile_le [of "\<lambda>c. c = slash" "dropWhile (\<lambda>c. c \<noteq> slash) q"]
    by simp
  then show ?thesis using p(3) q by simp
qed

function namex_loop :: "uchar list \<Rightarrow> bool \<Rightarrow> nat \<Rightarrow> uchar list \<Rightarrow> 'a fss_scheme \<Rightarrow>
    (nat option \<times> uchar list \<times> 'a fss_scheme) option" where
  "namex_loop path nameiparent ip name s =
     (case skipelem path of
        None \<Rightarrow> if nameiparent then do { s \<leftarrow> iput ip s; Some (None, name, s) } else Some (Some ip, name, s)
      | Some (path, name) \<Rightarrow> do {
          s \<leftarrow> ilock ip s;
          if i_type (inodes s ip) \<noteq> T_DIR then do { s \<leftarrow> iunlockput ip s; Some (None, name, s) }
          else if nameiparent \<and> path = [] then do { s \<leftarrow> iunlock ip s; Some (Some ip, name, s) }
          else do {
            (next_i, s) \<leftarrow> dirlookup ip name s;
            case next_i of
              None \<Rightarrow> do { s \<leftarrow> iunlockput ip s; Some (None, name, s) }
            | Some (next_i, _) \<Rightarrow> do {
                s \<leftarrow> iunlockput ip s;
                namex_loop path nameiparent next_i name s
              }
          }
        })"
  by pat_completeness auto
termination
  by (relation "measure (\<lambda>(path, np, ip, name, s). length path)") (auto dest: skipelem_shorter)

definition namex :: "uchar list \<Rightarrow> bool \<Rightarrow> 'a fss_scheme \<Rightarrow> (nat option \<times> uchar list \<times> 'a fss_scheme) option" where
  "namex path nameiparent s = do {
     (ip, s) \<leftarrow> (if path \<noteq> [] \<and> hd path = slash then iget ROOTDEV ROOTINO s
       else do {
         (me, s) \<leftarrow> myproc s;
         p \<leftarrow> me;
         cwd \<leftarrow> p_cwd (proc s p);
         idup cwd s
       });
     namex_loop path nameiparent ip [] s
   }"

definition namei :: "uchar list \<Rightarrow> 'a fss_scheme \<Rightarrow> (nat option \<times> 'a fss_scheme) option" where
  "namei path s = do { (ip, _, s) \<leftarrow> namex path False s; Some (ip, s) }"

definition nameiparent :: "uchar list \<Rightarrow> 'a fss_scheme \<Rightarrow> (nat option \<times> uchar list \<times> 'a fss_scheme) option" where
  "nameiparent path s = namex path True s"

section \<open>Path names\<close>

text \<open>The components of a path: what is left between slashes, empty ones dropped.\<close>

fun split_slash :: "uchar list \<Rightarrow> uchar list list" where
  "split_slash [] = [[]]"
| "split_slash (c # cs) = (if c = slash then [] # split_slash cs
     else case split_slash cs of [] \<Rightarrow> [[c]] | x # xs \<Rightarrow> (c # x) # xs)"

definition components :: "uchar list \<Rightarrow> uchar list list" where
  "components path = filter (\<lambda>x. x \<noteq> []) (split_slash path)"

lemma split_slash_ne: "slash \<notin> set x \<Longrightarrow> split_slash x = [x]"
  by (induction x) auto

lemma split_slash_append: "slash \<notin> set x \<Longrightarrow> split_slash (x @ slash # r) = x # split_slash r"
  by (induction x) auto

lemma components_skip: "components (dropWhile (\<lambda>c. c = slash) path) = components path"
  by (induction path) (auto simp: components_def)

lemma components_elem:
  assumes "path \<noteq> []" "hd path \<noteq> slash"
  shows "components path = takeWhile (\<lambda>c. c \<noteq> slash) path # components (dropWhile (\<lambda>c. c \<noteq> slash) path)"
proof -
  let ?e = "takeWhile (\<lambda>c. c \<noteq> slash) path" and ?r = "dropWhile (\<lambda>c. c \<noteq> slash) path"
  have e: "slash \<notin> set ?e" "?e \<noteq> []" using assms by (auto dest: set_takeWhileD simp: takeWhile_eq_Nil_iff)
  show ?thesis
  proof (cases ?r)
    case Nil
    then have "path = ?e" by (metis append_Nil2 takeWhile_dropWhile_id)
    then have "split_slash path = [?e]" using split_slash_ne [OF e(1)] by metis
    then show ?thesis using e(2) unfolding Nil by (simp add: components_def)
  next
    case (Cons c q)
    then have c: "c = slash" by (metis (mono_tags) dropWhile_eq_Cons_conv)
    have "path = ?e @ slash # q" using Cons c takeWhile_dropWhile_id [of "\<lambda>c. c \<noteq> slash" path] by simp
    then have "split_slash path = ?e # split_slash q" using split_slash_append [OF e(1)] by metis
    then show ?thesis using e c unfolding Cons by (simp add: components_def)
  qed
qed

text \<open>
  C11. \<open>skipelem\<close> splits a path at its slashes: it answers that there is no element exactly when the path
  has no component; otherwise it returns the first component, cut to \<open>DIRSIZ\<close> characters, and a shorter
  path without leading slash that holds the remaining components. So the loop of \<open>namex\<close> looks up
  the components in order and ends.
\<close>

theorem skipelem_splits:
  "case skipelem path of
     None \<Rightarrow> components path = []
   | Some (rest, name) \<Rightarrow> (\<exists>c cs. components path = c # cs \<and> name = take DIRSIZ c \<and> components rest = cs \<and>
       length rest < length path \<and> dropWhile (\<lambda>c. c = slash) rest = rest)"
proof -
  let ?p = "dropWhile (\<lambda>c. c = slash) path"
  show ?thesis
  proof (cases "?p = []")
    case True
    then have "components path = []" using components_skip [of path, unfolded True] by (simp add: components_def)
    then show ?thesis using True by (simp add: skipelem_def Let_def)
  next
    case False
    let ?e = "takeWhile (\<lambda>c. c \<noteq> slash) ?p" and ?r = "dropWhile (\<lambda>c. c = slash) (dropWhile (\<lambda>c. c \<noteq> slash) ?p)"
    have "hd ?p \<noteq> slash" using False hd_dropWhile by blast
    then have "components path = ?e # components ?r"
      using components_elem [OF False] components_skip [of path] components_skip [of "dropWhile (\<lambda>c. c \<noteq> slash) ?p"] by simp
    moreover have s: "skipelem path = Some (?r, take DIRSIZ ?e)" using False by (simp add: skipelem_def Let_def)
    moreover have "length ?r < length path" using skipelem_shorter [OF s] .
    moreover have "dropWhile (\<lambda>c. c = slash) ?r = ?r" by simp
    ultimately show ?thesis by simp
  qed
qed

end
