(* ===== verification/File.thy ===== *)
theory File
  imports Fs Console
begin

text \<open>
  kernel/file.c, the file part of kernel/file.h and \<open>pipealloc\<close> (kernel/pipe.c): open files. Files are
  indices into \<open>ftable.file\<close>. A read or write that has to wait for another process (an empty or
  full pipe, no line at the console) is \<open>None\<close>.
\<close>

section \<open>The code\<close>

datatype filetype = FD_NONE | FD_PIPE | FD_INODE | FD_DEVICE

record struct_file =
  f_type :: filetype
  f_ref :: int
  f_readable :: bool
  f_writable :: bool
  f_pipe :: uint64
  f_ip :: "nat option"
  f_off :: uint
  f_major :: ushort

record files = fss +
  ftable :: "nat \<Rightarrow> struct_file"

definition upd_file :: "nat \<Rightarrow> (struct_file \<Rightarrow> struct_file) \<Rightarrow> 'a files_scheme \<Rightarrow> 'a files_scheme" where
  "upd_file f g s = s\<lparr>ftable := (ftable s)(f := g (ftable s f))\<rparr>"

text \<open>The device switch as \<open>consoleinit\<close> fills it in: \<open>consoleread\<close> and \<open>consolewrite\<close> at \<open>CONSOLE\<close>.\<close>

datatype devdrv = ConsoleDrv

definition CONSOLE :: nat where "CONSOLE = 1"

definition devsw :: "ushort \<Rightarrow> devdrv option" where
  "devsw major = (if unat major = CONSOLE then Some ConsoleDrv else None)"

fun await :: "'b blocking \<Rightarrow> 'b option" where
  "await (Returns x) = Some x"
| "await (Sleeps ch) = None"

definition fileinit :: "'a files_scheme \<Rightarrow> 'a files_scheme" where
  "fileinit s = initlock FtableLock ''ftable'' s"

definition filealloc :: "'a files_scheme \<Rightarrow> (nat option \<times> 'a files_scheme) option" where
  "filealloc s = do {
     s \<leftarrow> acquire FtableLock s;
     case find (\<lambda>f. f_ref (ftable s f) = 0) [0..<NFILE] of
       Some f \<Rightarrow> do {
         s \<leftarrow> release FtableLock (upd_file f (f_ref_update (\<lambda>_. 1)) s);
         Some (Some f, s)
       }
     | None \<Rightarrow> do { s \<leftarrow> release FtableLock s; Some (None, s) }
   }"

definition filedup :: "nat \<Rightarrow> 'a files_scheme \<Rightarrow> (nat \<times> 'a files_scheme) option" where
  "filedup f s = do {
     s \<leftarrow> acquire FtableLock s;
     panic_if (f_ref (ftable s f) < 1) ''filedup'';
     s \<leftarrow> release FtableLock (upd_file f (f_ref_update (\<lambda>r. r + 1)) s);
     Some (f, s)
   }"

definition fileclose :: "nat \<Rightarrow> 'a files_scheme \<Rightarrow> 'a files_scheme option" where
  "fileclose f s = do {
     s \<leftarrow> acquire FtableLock s;
     panic_if (f_ref (ftable s f) < 1) ''fileclose'';
     let s = upd_file f (f_ref_update (\<lambda>r. r - 1)) s;
     if f_ref (ftable s f) > 0 then release FtableLock s
     else do {
       let ff = ftable s f;
       let s = upd_file f (\<lambda>x. x\<lparr>f_ref := 0, f_type := FD_NONE\<rparr>) s;
       s \<leftarrow> release FtableLock s;
       if f_type ff = FD_PIPE then pipeclose (f_pipe ff) (f_writable ff) s
       else if f_type ff = FD_INODE \<or> f_type ff = FD_DEVICE then do {
         s \<leftarrow> begin_op s;
         ip \<leftarrow> f_ip ff;
         s \<leftarrow> iput ip s;
         end_op s
       } else Some s
     }
   }"

text \<open>
  \<open>struct stat\<close> as the bytes that are copied out: four bytes between \<open>nlink\<close> and \<open>size\<close> are padding
  and hold whatever the stack held.
\<close>

definition stat_bytes :: "stat \<Rightarrow> bytes \<Rightarrow> uchar list" where
  "stat_bytes st pad = map (le_byte (unat (st_dev st))) [0..<4] @ map (le_byte (unat (st_ino st))) [0..<4] @
     map (le_byte (unat (st_type st))) [0..<2] @ map (le_byte (unat (st_nlink st))) [0..<2] @
     map pad [12..<16] @ map (le_byte (unat (st_size st))) [0..<8]"

definition filestat :: "nat \<Rightarrow> uint64 \<Rightarrow> 'a files_scheme \<Rightarrow> (int \<times> 'a files_scheme) option" where
  "filestat f addr s = do {
     (me, s) \<leftarrow> myproc s;
     if f_type (ftable s f) = FD_INODE \<or> f_type (ftable s f) = FD_DEVICE then do {
       ip \<leftarrow> f_ip (ftable s f);
       s \<leftarrow> ilock ip s;
       let st = stati ip s;
       s \<leftarrow> iunlock ip s;
       p \<leftarrow> me;
       (r, s) \<leftarrow> copyout (p_pagetable (proc s p)) addr (stat_bytes st (junk s)) s;
       Some (if r < 0 then -1 else 0, s)
     } else Some (-1, s)
   }"

definition bad_major :: "ushort \<Rightarrow> bool" where
  "bad_major m \<longleftrightarrow> sint m < 0 \<or> sint m \<ge> int NDEV"

definition fileread :: "nat \<Rightarrow> uint64 \<Rightarrow> int \<Rightarrow> 'a files_scheme \<Rightarrow> (int \<times> 'a files_scheme) option" where
  "fileread f addr n s =
     (if \<not> f_readable (ftable s f) then Some (-1, s)
      else case f_type (ftable s f) of
        FD_PIPE \<Rightarrow> do {
          (r, s) \<leftarrow> piperead (f_pipe (ftable s f)) addr n s;
          r \<leftarrow> await r;
          Some (r, s)
        }
      | FD_DEVICE \<Rightarrow>
          if bad_major (f_major (ftable s f)) \<or> devsw (f_major (ftable s f)) = None then Some (-1, s)
          else do {
            (_, _, r, s) \<leftarrow> consoleread True addr n s;
            r \<leftarrow> await r;
            Some (r, s)
          }
      | FD_INODE \<Rightarrow> do {
          ip \<leftarrow> f_ip (ftable s f);
          s \<leftarrow> ilock ip s;
          (r, _, s) \<leftarrow> readi ip True addr (f_off (ftable s f)) (of_int n) s;
          let s = (if r > 0 then upd_file f (f_off_update (\<lambda>x. x + of_int r)) s else s);
          s \<leftarrow> iunlock ip s;
          Some (r, s)
        }
      | FD_NONE \<Rightarrow> panic ''fileread'')"

definition write_max :: int where
  "write_max = int ((MAXOPBLOCKS - 1 - 1 - 2) div 2 * BSIZE)"

text \<open>
  The loop of \<open>filewrite\<close> for an inode: one transaction per round. \<open>src i\<close> is the source of the bytes
  from \<open>i\<close> on.
\<close>

function filewrite_loop :: "nat \<Rightarrow> nat \<Rightarrow> (int \<Rightarrow> usrc) \<Rightarrow> int \<Rightarrow> int \<Rightarrow> 'a files_scheme \<Rightarrow> (int \<times> 'a files_scheme) option" where
  "filewrite_loop f ip src n i s =
     (if i < n then do {
        let n1 = (if n - i > write_max then write_max else n - i);
        s \<leftarrow> begin_op s;
        s \<leftarrow> ilock ip s;
        (r, s) \<leftarrow> writei ip (src i) (f_off (ftable s f)) (of_int n1) s;
        let s = (if r > 0 then upd_file f (f_off_update (\<lambda>x. x + of_int r)) s else s);
        s \<leftarrow> iunlock ip s;
        s \<leftarrow> end_op s;
        if r \<noteq> n1 then Some (i, s) else filewrite_loop f ip src n (i + r) s
      } else Some (i, s))"
  by pat_completeness auto
termination
  by (relation "measure (\<lambda>(f, ip, src, n, i, s). nat (n - i))")
    (auto simp: write_max_def MAXOPBLOCKS_def BSIZE_def split: if_splits)

definition filewrite :: "nat \<Rightarrow> uint64 \<Rightarrow> int \<Rightarrow> 'a files_scheme \<Rightarrow> (int \<times> 'a files_scheme) option" where
  "filewrite f addr n s =
     (if \<not> f_writable (ftable s f) then Some (-1, s)
      else case f_type (ftable s f) of
        FD_PIPE \<Rightarrow> do {
          (_, r, s) \<leftarrow> pipewrite (f_pipe (ftable s f)) addr n s;
          r \<leftarrow> await r;
          Some (r, s)
        }
      | FD_DEVICE \<Rightarrow>
          if bad_major (f_major (ftable s f)) \<or> devsw (f_major (ftable s f)) = None then Some (-1, s)
          else do {
            (_, r, s) \<leftarrow> consolewrite (UserSrc addr) n s;
            r \<leftarrow> await r;
            Some (r, s)
          }
      | FD_INODE \<Rightarrow> do {
          ip \<leftarrow> f_ip (ftable s f);
          (i, s) \<leftarrow> filewrite_loop f ip (\<lambda>i. UserSrc (addr + of_int i)) n 0 s;
          Some (if i = n then n else -1, s)
        }
      | FD_NONE \<Rightarrow> panic ''filewrite'')"

section \<open>Allocating a pipe (pipe.c)\<close>

definition close_opt :: "nat option \<Rightarrow> 'a files_scheme \<Rightarrow> 'a files_scheme option" where
  "close_opt f s = (case f of Some f \<Rightarrow> fileclose f s | None \<Rightarrow> Some s)"

definition pipealloc :: "'a files_scheme \<Rightarrow> ((nat \<times> nat) option \<times> 'a files_scheme) option" where
  "pipealloc s = do {
     let bad = (\<lambda>f0 f1 s. do { s \<leftarrow> close_opt f0 s; s \<leftarrow> close_opt f1 s; Some (None, s) });
     (f0, s) \<leftarrow> filealloc s;
     (f1, s) \<leftarrow> (if f0 = None then Some (None, s) else filealloc s);
     case (f0, f1) of
       (Some a, Some b) \<Rightarrow> do {
         (pi, s) \<leftarrow> kalloc s;
         if pi = 0 then bad f0 f1 s
         else do {
           let s = upd_pipe pi (\<lambda>p. p\<lparr>readopen := True, writeopen := True, nwrite := 0, nread := 0\<rparr>) s;
           let s = initlock (PipeLock pi) ''pipe'' s;
           let s = upd_file a (\<lambda>x. x\<lparr>f_type := FD_PIPE, f_readable := True, f_writable := False, f_pipe := pi\<rparr>) s;
           let s = upd_file b (\<lambda>x. x\<lparr>f_type := FD_PIPE, f_readable := False, f_writable := True, f_pipe := pi\<rparr>) s;
           Some (Some (a, b), s)
         }
       }
     | _ \<Rightarrow> bad f0 f1 s
   }"

end
