(* ===== verification/Args.thy ===== *)
theory Args
  imports File
begin

text \<open>
  The trapframe (kernel/proc.h), in the page that holds a process's user registers, and the functions
  of kernel/syscall.c that fetch system call arguments from it and from user memory.
\<close>

section \<open>The trapframe\<close>

datatype tfreg =
    KernelSatp | KernelSp | KernelTrap | Epc | KernelHartid | Ra | Sp | Gp | Tp | T0 | T1 | T2 | S0 | S1
  | A0 | A1 | A2 | A3 | A4 | A5 | A6 | A7 | S2 | S3 | S4 | S5 | S6 | S7 | S8 | S9 | S10 | S11 | T3 | T4 | T5 | T6

definition trapframe :: "tfreg list" where
  "trapframe = [KernelSatp, KernelSp, KernelTrap, Epc, KernelHartid, Ra, Sp, Gp, Tp, T0, T1, T2, S0, S1,
     A0, A1, A2, A3, A4, A5, A6, A7, S2, S3, S4, S5, S6, S7, S8, S9, S10, S11, T3, T4, T5, T6]"

text \<open>The byte offset of a field: eight times its position.\<close>

definition tf_off :: "tfreg \<Rightarrow> uint64" where
  "tf_off r = of_nat (8 * length (takeWhile (\<lambda>x. x \<noteq> r) trapframe))"

definition tf_get :: "nat \<Rightarrow> tfreg \<Rightarrow> 'a procs_scheme \<Rightarrow> uint64" where
  "tf_get p r s = load64 (phys s) (p_trapframe (proc s p) + tf_off r)"

definition tf_set :: "nat \<Rightarrow> tfreg \<Rightarrow> uint64 \<Rightarrow> 'a procs_scheme \<Rightarrow> 'a procs_scheme" where
  "tf_set p r v s = s\<lparr>phys := store64 (p_trapframe (proc s p) + tf_off r) v (phys s)\<rparr>"

section \<open>Arguments (syscall.c)\<close>

definition fetchaddr :: "uint64 \<Rightarrow> 'a procs_scheme \<Rightarrow> (int \<times> uint64 \<times> 'a procs_scheme) option" where
  "fetchaddr addr s = do {
     (me, s) \<leftarrow> myproc s;
     p \<leftarrow> me;
     if addr \<ge> p_sz (proc s p) \<or> addr + 8 > p_sz (proc s p) then Some (-1, 0, s)
     else do {
       (r, bs) \<leftarrow> copyin (p_pagetable (proc s p)) addr 8 s;
       if r \<noteq> 0 then Some (-1, 0, s) else Some (0, of_nat (le_get 8 (\<lambda>i. bs ! i)), s)
     }
   }"

text \<open>\<open>fetchstr\<close> returns the length and the bytes before the NUL.\<close>

definition fetchstr :: "uint64 \<Rightarrow> nat \<Rightarrow> 'a procs_scheme \<Rightarrow> (int \<times> uchar list \<times> 'a procs_scheme) option" where
  "fetchstr addr mx s = do {
     (me, s) \<leftarrow> myproc s;
     p \<leftarrow> me;
     (r, bs) \<leftarrow> copyinstr (p_pagetable (proc s p)) addr mx s;
     if r < 0 then Some (-1, bs, s)
     else let t = takeWhile (\<lambda>c. c \<noteq> 0) bs in Some (int (length t), t, s)
   }"

definition argraw :: "nat \<Rightarrow> 'a procs_scheme \<Rightarrow> (uint64 \<times> 'a procs_scheme) option" where
  "argraw n s = do {
     (me, s) \<leftarrow> myproc s;
     p \<leftarrow> me;
     if n < 6 then Some (tf_get p ([A0, A1, A2, A3, A4, A5] ! n) s, s) else panic ''argraw''
   }"

definition argint :: "nat \<Rightarrow> 'a procs_scheme \<Rightarrow> (int \<times> 'a procs_scheme) option" where
  "argint n s = do { (v, s) \<leftarrow> argraw n s; Some (sint (ucast v :: uint), s) }"

definition argaddr :: "nat \<Rightarrow> 'a procs_scheme \<Rightarrow> (uint64 \<times> 'a procs_scheme) option" where
  "argaddr n s = argraw n s"

definition argstr :: "nat \<Rightarrow> nat \<Rightarrow> 'a procs_scheme \<Rightarrow> (int \<times> uchar list \<times> 'a procs_scheme) option" where
  "argstr n mx s = do { (addr, s) \<leftarrow> argaddr n s; fetchstr addr mx s }"

text \<open>\<open>argfd\<close> (sysfile.c): the descriptor and the file.\<close>

definition argfd :: "nat \<Rightarrow> 'a procs_scheme \<Rightarrow> ((nat \<times> nat) option \<times> 'a procs_scheme) option" where
  "argfd n s = do {
     (fd, s) \<leftarrow> argint n s;
     if fd < 0 \<or> fd \<ge> int NOFILE then Some (None, s)
     else do {
       (me, s) \<leftarrow> myproc s;
       p \<leftarrow> me;
       case p_ofile (proc s p) (nat fd) of
         None \<Rightarrow> Some (None, s)
       | Some f \<Rightarrow> Some (Some (nat fd, f), s)
     }
   }"

end
