(* ===== verification/Sysfile.thy ===== *)
theory Sysfile
  imports Args
begin

text \<open>
  kernel/sysfile.c: the file system calls, except \<open>sys_exec\<close> (see Exec). Every call returns the value
  that goes to the user and the new state. A \<open>goto bad\<close> is a local function.
\<close>

definition O_RDONLY :: int where "O_RDONLY = 0"
definition O_WRONLY :: int where "O_WRONLY = 0x001"
definition O_RDWR :: int where "O_RDWR = 0x002"
definition O_CREATE :: int where "O_CREATE = 0x200"
definition O_TRUNC :: int where "O_TRUNC = 0x400"

definition fdalloc :: "nat \<Rightarrow> 'a procs_scheme \<Rightarrow> (int \<times> 'a procs_scheme) option" where
  "fdalloc f s = do {
     (me, s) \<leftarrow> myproc s;
     p \<leftarrow> me;
     case find (\<lambda>fd. p_ofile (proc s p) fd = None) [0..<NOFILE] of
       Some fd \<Rightarrow> Some (int fd, upd_proc p (p_ofile_update (\<lambda>t. t(fd := Some f))) s)
     | None \<Rightarrow> Some (-1, s)
   }"

definition sys_dup :: "'a files_scheme \<Rightarrow> (int \<times> 'a files_scheme) option" where
  "sys_dup s = do {
     (r, s) \<leftarrow> argfd 0 s;
     case r of None \<Rightarrow> Some (-1, s)
     | Some (_, f) \<Rightarrow> do {
         (fd, s) \<leftarrow> fdalloc f s;
         if fd < 0 then Some (-1, s)
         else do { (_, s) \<leftarrow> filedup f s; Some (fd, s) }
       }
   }"

definition sys_read :: "'a files_scheme \<Rightarrow> (int \<times> 'a files_scheme) option" where
  "sys_read s = do {
     (p, s) \<leftarrow> argaddr 1 s;
     (n, s) \<leftarrow> argint 2 s;
     (r, s) \<leftarrow> argfd 0 s;
     case r of None \<Rightarrow> Some (-1, s) | Some (_, f) \<Rightarrow> fileread f p n s
   }"

definition sys_write :: "'a files_scheme \<Rightarrow> (int \<times> 'a files_scheme) option" where
  "sys_write s = do {
     (p, s) \<leftarrow> argaddr 1 s;
     (n, s) \<leftarrow> argint 2 s;
     (r, s) \<leftarrow> argfd 0 s;
     case r of None \<Rightarrow> Some (-1, s) | Some (_, f) \<Rightarrow> filewrite f p n s
   }"

definition sys_close :: "'a files_scheme \<Rightarrow> (int \<times> 'a files_scheme) option" where
  "sys_close s = do {
     (r, s) \<leftarrow> argfd 0 s;
     case r of None \<Rightarrow> Some (-1, s)
     | Some (fd, f) \<Rightarrow> do {
         (me, s) \<leftarrow> myproc s;
         p \<leftarrow> me;
         let s = upd_proc p (p_ofile_update (\<lambda>t. t(fd := None))) s;
         s \<leftarrow> fileclose f s;
         Some (0, s)
       }
   }"

definition sys_fstat :: "'a files_scheme \<Rightarrow> (int \<times> 'a files_scheme) option" where
  "sys_fstat s = do {
     (st, s) \<leftarrow> argaddr 1 s;
     (r, s) \<leftarrow> argfd 0 s;
     case r of None \<Rightarrow> Some (-1, s) | Some (_, f) \<Rightarrow> filestat f st s
   }"

definition sys_link :: "'a files_scheme \<Rightarrow> (int \<times> 'a files_scheme) option" where
  "sys_link s = do {
     (r, old, s) \<leftarrow> argstr 0 MAXPATH s;
     (r', new, s) \<leftarrow> (if r < 0 then Some (-1, [], s) else argstr 1 MAXPATH s);
     if r < 0 \<or> r' < 0 then Some (-1, s)
     else do {
       s \<leftarrow> begin_op s;
       (ip, s) \<leftarrow> namei old s;
       case ip of None \<Rightarrow> do { s \<leftarrow> end_op s; Some (-1, s) }
       | Some ip \<Rightarrow> do {
           s \<leftarrow> ilock ip s;
           if i_type (inodes s ip) = T_DIR then do {
             s \<leftarrow> iunlockput ip s;
             s \<leftarrow> end_op s;
             Some (-1, s)
           } else do {
             s \<leftarrow> iupdate ip (upd_inode ip (i_nlink_update (\<lambda>n. n + 1)) s);
             s \<leftarrow> iunlock ip s;
             let bad = (\<lambda>s. do {
               s \<leftarrow> ilock ip s;
               s \<leftarrow> iupdate ip (upd_inode ip (i_nlink_update (\<lambda>n. n - 1)) s);
               s \<leftarrow> iunlockput ip s;
               s \<leftarrow> end_op s;
               Some (-1, s)
             });
             (dp, name, s) \<leftarrow> nameiparent new s;
             case dp of None \<Rightarrow> bad s
             | Some dp \<Rightarrow> do {
                 s \<leftarrow> ilock dp s;
                 (r, s) \<leftarrow> (if i_dev (inodes s dp) \<noteq> i_dev (inodes s ip) then Some (-1, s)
                   else dirlink dp name (i_inum (inodes s ip)) s);
                 s \<leftarrow> iunlockput dp s;
                 if r < 0 then bad s
                 else do {
                   s \<leftarrow> iput ip s;
                   s \<leftarrow> end_op s;
                   Some (0, s)
                 }
               }
           }
         }
     }
   }"

function isdirempty_loop :: "nat \<Rightarrow> nat \<Rightarrow> nat \<Rightarrow> 'a fss_scheme \<Rightarrow> (bool \<times> 'a fss_scheme) option" where
  "isdirempty_loop dp off sz s =
     (if off < sz then do {
        (r, bs, s) \<leftarrow> readi dp False 0 (of_nat off) (of_nat DIRENT_SIZE) s;
        panic_if (r \<noteq> int DIRENT_SIZE) ''isdirempty: readi'';
        if de_inum (get_dirent bs) \<noteq> 0 then Some (False, s) else isdirempty_loop dp (off + DIRENT_SIZE) sz s
      } else Some (True, s))"
  by pat_completeness auto
termination
  by (relation "measure (\<lambda>(dp, off, sz, s). sz - off)") (auto simp: DIRENT_SIZE_def)

definition isdirempty :: "nat \<Rightarrow> 'a fss_scheme \<Rightarrow> (bool \<times> 'a fss_scheme) option" where
  "isdirempty dp s = isdirempty_loop dp (2 * DIRENT_SIZE) (unat (i_size (inodes s dp))) s"

definition sys_unlink :: "'a files_scheme \<Rightarrow> (int \<times> 'a files_scheme) option" where
  "sys_unlink s = do {
     (r, path, s) \<leftarrow> argstr 0 MAXPATH s;
     if r < 0 then Some (-1, s)
     else do {
       s \<leftarrow> begin_op s;
       (dp, name, s) \<leftarrow> nameiparent path s;
       case dp of None \<Rightarrow> do { s \<leftarrow> end_op s; Some (-1, s) }
       | Some dp \<Rightarrow> do {
           s \<leftarrow> ilock dp s;
           let bad = (\<lambda>s. do { s \<leftarrow> iunlockput dp s; s \<leftarrow> end_op s; Some (-1, s) });
           if namecmp name (str ''.'') = 0 \<or> namecmp name (str ''..'') = 0 then bad s
           else do {
             (ip, s) \<leftarrow> dirlookup dp name s;
             case ip of None \<Rightarrow> bad s
             | Some (ip, off) \<Rightarrow> do {
                 s \<leftarrow> ilock ip s;
                 panic_if (sint (i_nlink (inodes s ip)) < 1) ''unlink: nlink < 1'';
                 (e, s) \<leftarrow> (if i_type (inodes s ip) = T_DIR then isdirempty ip s else Some (True, s));
                 if \<not> e then do { s \<leftarrow> iunlockput ip s; bad s }
                 else do {
                   (r, s) \<leftarrow> writei dp (KernSrc (replicate DIRENT_SIZE 0)) off (of_nat DIRENT_SIZE) s;
                   panic_if (r \<noteq> int DIRENT_SIZE) ''unlink: writei'';
                   s \<leftarrow> (if i_type (inodes s ip) = T_DIR
                     then iupdate dp (upd_inode dp (i_nlink_update (\<lambda>n. n - 1)) s) else Some s);
                   s \<leftarrow> iunlockput dp s;
                   s \<leftarrow> iupdate ip (upd_inode ip (i_nlink_update (\<lambda>n. n - 1)) s);
                   s \<leftarrow> iunlockput ip s;
                   s \<leftarrow> end_op s;
                   Some (0, s)
                 }
               }
           }
         }
     }
   }"

definition create :: "uchar list \<Rightarrow> ushort \<Rightarrow> ushort \<Rightarrow> ushort \<Rightarrow> 'a fss_scheme \<Rightarrow> (nat option \<times> 'a fss_scheme) option" where
  "create path ty major minor s = do {
     (dp, name, s) \<leftarrow> nameiparent path s;
     case dp of None \<Rightarrow> Some (None, s)
     | Some dp \<Rightarrow> do {
         s \<leftarrow> ilock dp s;
         (ip, s) \<leftarrow> dirlookup dp name s;
         case ip of
           Some (ip, _) \<Rightarrow> do {
             s \<leftarrow> iunlockput dp s;
             s \<leftarrow> ilock ip s;
             if ty = T_FILE \<and> (i_type (inodes s ip) = T_FILE \<or> i_type (inodes s ip) = T_DEVICE) then Some (Some ip, s)
             else do { s \<leftarrow> iunlockput ip s; Some (None, s) }
           }
         | None \<Rightarrow> do {
             (ip, s) \<leftarrow> ialloc (i_dev (inodes s dp)) ty s;
             case ip of None \<Rightarrow> do { s \<leftarrow> iunlockput dp s; Some (None, s) }
             | Some ip \<Rightarrow> do {
                 s \<leftarrow> ilock ip s;
                 s \<leftarrow> iupdate ip (upd_inode ip (\<lambda>i. i\<lparr>i_major := major, i_minor := minor, i_nlink := 1\<rparr>) s);
                 let fail = (\<lambda>s. do {
                   s \<leftarrow> iupdate ip (upd_inode ip (i_nlink_update (\<lambda>_. 0)) s);
                   s \<leftarrow> iunlockput ip s;
                   s \<leftarrow> iunlockput dp s;
                   Some (None, s)
                 });
                 (r, s) \<leftarrow> (if ty = T_DIR then do {
                     (r, s) \<leftarrow> dirlink ip (str ''.'') (i_inum (inodes s ip)) s;
                     if r < 0 then Some (r, s) else dirlink ip (str ''..'') (i_inum (inodes s dp)) s
                   } else Some (0, s));
                 if r < 0 then fail s
                 else do {
                   (r, s) \<leftarrow> dirlink dp name (i_inum (inodes s ip)) s;
                   if r < 0 then fail s
                   else do {
                     s \<leftarrow> (if ty = T_DIR then iupdate dp (upd_inode dp (i_nlink_update (\<lambda>n. n + 1)) s) else Some s);
                     s \<leftarrow> iunlockput dp s;
                     Some (Some ip, s)
                   }
                 }
               }
           }
       }
   }"

text \<open>The part of \<open>sys_open\<close> that finds the inode: locked, or -1 after the transaction has ended.\<close>

definition open_inode :: "uchar list \<Rightarrow> int \<Rightarrow> 'a fss_scheme \<Rightarrow> (nat option \<times> 'a fss_scheme) option" where
  "open_inode path omode s =
     (if omode AND O_CREATE \<noteq> 0 then do {
        (ip, s) \<leftarrow> create path T_FILE 0 0 s;
        case ip of None \<Rightarrow> do { s \<leftarrow> end_op s; Some (None, s) } | Some ip \<Rightarrow> Some (Some ip, s)
      } else do {
        (ip, s) \<leftarrow> namei path s;
        case ip of None \<Rightarrow> do { s \<leftarrow> end_op s; Some (None, s) }
        | Some ip \<Rightarrow> do {
            s \<leftarrow> ilock ip s;
            if i_type (inodes s ip) = T_DIR \<and> omode \<noteq> O_RDONLY then do {
              s \<leftarrow> iunlockput ip s;
              s \<leftarrow> end_op s;
              Some (None, s)
            } else Some (Some ip, s)
          }
      })"

definition sys_open :: "'a files_scheme \<Rightarrow> (int \<times> 'a files_scheme) option" where
  "sys_open s = do {
     (omode, s) \<leftarrow> argint 1 s;
     (n, path, s) \<leftarrow> argstr 0 MAXPATH s;
     if n < 0 then Some (-1, s)
     else do {
       s \<leftarrow> begin_op s;
       (ip, s) \<leftarrow> open_inode path omode s;
       case ip of None \<Rightarrow> Some (-1, s)
       | Some ip \<Rightarrow> do {
           let fail = (\<lambda>s. do { s \<leftarrow> iunlockput ip s; s \<leftarrow> end_op s; Some (-1, s) });
           if i_type (inodes s ip) = T_DEVICE \<and> bad_major (i_major (inodes s ip)) then fail s
           else do {
             (f, s) \<leftarrow> filealloc s;
             case f of None \<Rightarrow> fail s
             | Some f \<Rightarrow> do {
                 (fd, s) \<leftarrow> fdalloc f s;
                 if fd < 0 then do { s \<leftarrow> fileclose f s; fail s }
                 else do {
                   let s = upd_file f (\<lambda>x. if i_type (inodes s ip) = T_DEVICE
                     then x\<lparr>f_type := FD_DEVICE, f_major := i_major (inodes s ip)\<rparr>
                     else x\<lparr>f_type := FD_INODE, f_off := 0\<rparr>) s;
                   let s = upd_file f (\<lambda>x. x\<lparr>f_ip := Some ip, f_readable := (omode AND O_WRONLY = 0),
                     f_writable := (omode AND O_WRONLY \<noteq> 0 \<or> omode AND O_RDWR \<noteq> 0)\<rparr>) s;
                   s \<leftarrow> (if omode AND O_TRUNC \<noteq> 0 \<and> i_type (inodes s ip) = T_FILE then itrunc ip s else Some s);
                   s \<leftarrow> iunlock ip s;
                   s \<leftarrow> end_op s;
                   Some (fd, s)
                 }
               }
           }
         }
     }
   }"

definition sys_mkdir :: "'a files_scheme \<Rightarrow> (int \<times> 'a files_scheme) option" where
  "sys_mkdir s = do {
     s \<leftarrow> begin_op s;
     (r, path, s) \<leftarrow> argstr 0 MAXPATH s;
     (ip, s) \<leftarrow> (if r < 0 then Some (None, s) else create path T_DIR 0 0 s);
     case ip of None \<Rightarrow> do { s \<leftarrow> end_op s; Some (-1, s) }
     | Some ip \<Rightarrow> do { s \<leftarrow> iunlockput ip s; s \<leftarrow> end_op s; Some (0, s) }
   }"

definition sys_mknod :: "'a files_scheme \<Rightarrow> (int \<times> 'a files_scheme) option" where
  "sys_mknod s = do {
     s \<leftarrow> begin_op s;
     (major, s) \<leftarrow> argint 1 s;
     (minor, s) \<leftarrow> argint 2 s;
     (r, path, s) \<leftarrow> argstr 0 MAXPATH s;
     (ip, s) \<leftarrow> (if r < 0 then Some (None, s) else create path T_DEVICE (of_int major) (of_int minor) s);
     case ip of None \<Rightarrow> do { s \<leftarrow> end_op s; Some (-1, s) }
     | Some ip \<Rightarrow> do { s \<leftarrow> iunlockput ip s; s \<leftarrow> end_op s; Some (0, s) }
   }"

definition sys_chdir :: "'a files_scheme \<Rightarrow> (int \<times> 'a files_scheme) option" where
  "sys_chdir s = do {
     (me, s) \<leftarrow> myproc s;
     p \<leftarrow> me;
     s \<leftarrow> begin_op s;
     (r, path, s) \<leftarrow> argstr 0 MAXPATH s;
     (ip, s) \<leftarrow> (if r < 0 then Some (None, s) else namei path s);
     case ip of None \<Rightarrow> do { s \<leftarrow> end_op s; Some (-1, s) }
     | Some ip \<Rightarrow> do {
         s \<leftarrow> ilock ip s;
         if i_type (inodes s ip) \<noteq> T_DIR then do { s \<leftarrow> iunlockput ip s; s \<leftarrow> end_op s; Some (-1, s) }
         else do {
           s \<leftarrow> iunlock ip s;
           cwd \<leftarrow> p_cwd (proc s p);
           s \<leftarrow> iput cwd s;
           s \<leftarrow> end_op s;
           Some (0, upd_proc p (p_cwd_update (\<lambda>_. Some ip)) s)
         }
       }
   }"

text \<open>A 32-bit int as the four bytes in memory.\<close>

definition int_bytes :: "int \<Rightarrow> uchar list" where
  "int_bytes n = map (le_byte (unat (of_int n :: uint))) [0..<4]"

definition sys_pipe :: "'a files_scheme \<Rightarrow> (int \<times> 'a files_scheme) option" where
  "sys_pipe s = do {
     (me, s) \<leftarrow> myproc s;
     p \<leftarrow> me;
     (fdarray, s) \<leftarrow> argaddr 0 s;
     (r, s) \<leftarrow> pipealloc s;
     case r of None \<Rightarrow> Some (-1, s)
     | Some (rd, wr) \<Rightarrow> do {
         let clear = (\<lambda>fd s. upd_proc p (p_ofile_update (\<lambda>t. t(nat fd := None))) s);
         let close = (\<lambda>s. do { s \<leftarrow> fileclose rd s; s \<leftarrow> fileclose wr s; Some (-1, s) });
         (fd0, s) \<leftarrow> fdalloc rd s;
         (fd1, s) \<leftarrow> (if fd0 < 0 then Some (-1, s) else fdalloc wr s);
         if fd0 < 0 \<or> fd1 < 0 then close (if fd0 \<ge> 0 then clear fd0 s else s)
         else do {
           (r, s) \<leftarrow> copyout (p_pagetable (proc s p)) fdarray (int_bytes fd0) s;
           (r, s) \<leftarrow> (if r < 0 then Some (r, s) else copyout (p_pagetable (proc s p)) (fdarray + 4) (int_bytes fd1) s);
           if r < 0 then close (clear fd1 (clear fd0 s)) else Some (0, s)
         }
       }
   }"

end
