(* ===== verification/AuditLog.thy ===== *)
theory AuditLog
  imports Sysfile
begin

text \<open>
  kernel/file_helper.c and kernel/audit_source.c: how the kernel writes the audit log file
  /AuditLogs.txt. \<open>f\<close> of audit_source.c is the field \<open>audit_f\<close>; the error
  value \<open>(struct file *)-1\<close> is \<open>BadFile\<close>. The bytes to write are a kernel object, handed over as a list
  up to the NUL that \<open>strlen\<close> finds.
\<close>

datatype file_ptr = NullFile | BadFile | FilePtr nat

text \<open>
  The globals of audit_source.c, syscall.c and proc.c that belong to auditing. \<open>buff\<close> and
  \<open>whitelisted\<close> are written without bounds checks; indices past the end of the C arrays (2048 and
  21) stand for the memory that follows them. \<open>buff_addr\<close> and \<open>local_addr\<close> are the addresses of
  \<open>buff\<close> and of the local array of \<open>check\<close>.
\<close>

record auditing =
  opened :: bool
  audit_f :: file_ptr
  prev_tick :: uint
  prev_tickss :: uint
  buff :: bytes
  offset :: nat
  whitelisted :: "nat \<Rightarrow> uchar"
  buff_addr :: uint64
  local_addr :: uint64

record audits = files +
  aud :: auditing

definition upd_aud :: "(auditing \<Rightarrow> auditing) \<Rightarrow> 'a audits_scheme \<Rightarrow> 'a audits_scheme" where
  "upd_aud f s = s\<lparr>aud := f (aud s)\<rparr>"

definition say :: "string \<Rightarrow> 'a devs_scheme \<Rightarrow> 'a devs_scheme option" where
  "say m s = printf (Some (str m)) [] s"

section \<open>file_helper.c\<close>

text \<open>
  \<open>kfilewrite\<close> is \<open>filewrite\<close> with a kernel source for inodes; a pipe or a device would still take the
  address as a user address, so \<open>addr\<close> is there for them.
\<close>

definition kfilewrite :: "nat \<Rightarrow> uint64 \<Rightarrow> uchar list \<Rightarrow> int \<Rightarrow> 'a files_scheme \<Rightarrow> (int \<times> 'a files_scheme) option" where
  "kfilewrite f addr bs n s =
     (if \<not> f_writable (ftable s f) then do { s \<leftarrow> say ''First\<newline>'' s; Some (-1, s) }
      else case f_type (ftable s f) of
        FD_PIPE \<Rightarrow> do {
          (_, r, s) \<leftarrow> pipewrite (f_pipe (ftable s f)) addr n s;
          r \<leftarrow> await r;
          Some (r, s)
        }
      | FD_DEVICE \<Rightarrow>
          if bad_major (f_major (ftable s f)) \<or> devsw (f_major (ftable s f)) = None then Some (-1, s)
          else do {
            (_, r, s) \<leftarrow> consolewrite (UserSrc addr) n s;
            r \<leftarrow> await r;
            Some (r, s)
          }
      | FD_INODE \<Rightarrow> do {
          ip \<leftarrow> f_ip (ftable s f);
          (i, s) \<leftarrow> filewrite_loop f ip (\<lambda>i. KernSrc (drop (nat i) bs)) n 0 s;
          Some (if i = n then n else -1, s)
        }
      | FD_NONE \<Rightarrow> panic ''filewrite'')"

definition fdalloc_h :: "nat \<Rightarrow> 'a procs_scheme \<Rightarrow> (int \<times> 'a procs_scheme) option" where
  "fdalloc_h f s = do {
     (me, s) \<leftarrow> myproc s;
     p \<leftarrow> me;
     case find (\<lambda>fd. p_ofile (proc s p) fd = None) [0..<NOFILE] of
       Some fd \<Rightarrow> Some (int fd, upd_proc p (p_ofile_update (\<lambda>t. t(fd := Some f))) s)
     | None \<Rightarrow> Some (-1, s)
   }"

definition create_h :: "uchar list \<Rightarrow> ushort \<Rightarrow> ushort \<Rightarrow> ushort \<Rightarrow> 'a fss_scheme \<Rightarrow> (nat option \<times> 'a fss_scheme) option" where
  "create_h path ty major minor s = do {
     (dp, name, s) \<leftarrow> nameiparent path s;
     case dp of None \<Rightarrow> Some (None, s)
     | Some dp \<Rightarrow> do {
         s \<leftarrow> ilock dp s;
         (ip, s) \<leftarrow> dirlookup dp name s;
         case ip of
           Some (ip, _) \<Rightarrow> do {
             s \<leftarrow> iunlockput dp s;
             s \<leftarrow> ilock ip s;
             if ty = T_FILE \<and> (i_type (inodes s ip) = T_FILE \<or> i_type (inodes s ip) = T_DEVICE) then Some (Some ip, s)
             else do { s \<leftarrow> iunlockput ip s; Some (None, s) }
           }
         | None \<Rightarrow> do {
             (ip, s) \<leftarrow> ialloc (i_dev (inodes s dp)) ty s;
             case ip of None \<Rightarrow> do { s \<leftarrow> iunlockput dp s; Some (None, s) }
             | Some ip \<Rightarrow> do {
                 s \<leftarrow> ilock ip s;
                 s \<leftarrow> iupdate ip (upd_inode ip (\<lambda>i. i\<lparr>i_major := major, i_minor := minor, i_nlink := 1\<rparr>) s);
                 let fail = (\<lambda>s. do {
                   s \<leftarrow> say ''actually fails\<newline>'' s;
                   s \<leftarrow> iupdate ip (upd_inode ip (i_nlink_update (\<lambda>_. 0)) s);
                   s \<leftarrow> iunlockput ip s;
                   s \<leftarrow> iunlockput dp s;
                   Some (None, s)
                 });
                 (r, s) \<leftarrow> (if ty = T_DIR then do {
                     (r, s) \<leftarrow> dirlink ip (str ''.'') (i_inum (inodes s ip)) s;
                     if r < 0 then Some (r, s) else dirlink ip (str ''..'') (i_inum (inodes s dp)) s
                   } else Some (0, s));
                 if r < 0 then fail s
                 else do {
                   (r, s) \<leftarrow> dirlink dp name (i_inum (inodes s ip)) s;
                   if r < 0 then fail s
                   else do {
                     s \<leftarrow> (if ty = T_DIR then iupdate dp (upd_inode dp (i_nlink_update (\<lambda>n. n + 1)) s) else Some s);
                     s \<leftarrow> iunlockput dp s;
                     s \<leftarrow> say ''Successfully Created\<newline>'' s;
                     Some (Some ip, s)
                   }
                 }
               }
           }
       }
   }"

text \<open>\<open>open\<close> up to the message \<open>1\<close>: the inode, locked, or the error value.\<close>

definition kopen_inode :: "uchar list \<Rightarrow> int \<Rightarrow> 'a fss_scheme \<Rightarrow> (nat option \<times> 'a fss_scheme) option" where
  "kopen_inode path omode s =
     (if omode AND O_CREATE \<noteq> 0 then do {
        s \<leftarrow> say ''CREATING\<newline>'' s;
        (ip, s) \<leftarrow> create_h path T_FILE 0 0 s;
        case ip of None \<Rightarrow> do { s \<leftarrow> say ''Create Broke\<newline>'' s; s \<leftarrow> end_op s; Some (None, s) } | Some ip \<Rightarrow> Some (Some ip, s)
      } else do {
        s \<leftarrow> say ''EXSITS ALREADY\<newline>'' s;
        (ip, s) \<leftarrow> namei path s;
        case ip of None \<Rightarrow> do { s \<leftarrow> end_op s; s \<leftarrow> say ''OOPs'' s; Some (None, s) }
        | Some ip \<Rightarrow> do {
            s \<leftarrow> ilock ip s;
            if i_type (inodes s ip) = T_DIR \<and> omode \<noteq> O_RDONLY then do {
              s \<leftarrow> iunlockput ip s;
              s \<leftarrow> end_op s;
              Some (None, s)
            } else Some (Some ip, s)
          }
      })"

text \<open>
  In \<open>(fd = fdalloc(f) < 0)\<close> the comparison binds tighter: \<open>fd\<close> is 0 or 1 and the condition is that
  \<open>fdalloc\<close> failed.
\<close>

definition kopen :: "uchar list \<Rightarrow> int \<Rightarrow> 'a files_scheme \<Rightarrow> (file_ptr \<times> 'a files_scheme) option" where
  "kopen filename omode s = do {
     s \<leftarrow> begin_op s;
     (ip, s) \<leftarrow> kopen_inode filename omode s;
     case ip of None \<Rightarrow> Some (BadFile, s)
     | Some ip \<Rightarrow> do {
         s \<leftarrow> say ''1\<newline>'' s;
         let fail = (\<lambda>s. do { s \<leftarrow> iunlockput ip s; s \<leftarrow> end_op s; Some (BadFile, s) });
         if i_type (inodes s ip) = T_DEVICE \<and> bad_major (i_major (inodes s ip)) then fail s
         else do {
           s \<leftarrow> say ''2\<newline>'' s;
           (f, s) \<leftarrow> filealloc s;
           case f of None \<Rightarrow> fail s
           | Some f \<Rightarrow> do {
               (fd, s) \<leftarrow> fdalloc_h f s;
               if fd < 0 then do { s \<leftarrow> fileclose f s; fail s }
               else do {
                 s \<leftarrow> say ''3\<newline>'' s;
                 let s = upd_file f (\<lambda>x. x\<lparr>f_type := FD_INODE, f_off := 0, f_ip := Some ip,
                   f_readable := (omode AND O_WRONLY = 0), f_writable := True\<rparr>) s;
                 s \<leftarrow> (if omode AND O_TRUNC \<noteq> 0 \<and> i_type (inodes s ip) = T_FILE then itrunc ip s else Some s);
                 s \<leftarrow> say ''4\<newline>'' s;
                 s \<leftarrow> iunlock ip s;
                 s \<leftarrow> end_op s;
                 s \<leftarrow> say ''5\<newline>'' s;
                 Some (FilePtr f, s)
               }
             }
         }
       }
   }"

section \<open>audit_source.c\<close>

text \<open>
  \<open>int_to_char\<close>: the loop that counts the digits, then the loop that writes them. C division
  truncates: a negative number has one round, and its remainder is negative.
\<close>

definition c_div10 :: "int \<Rightarrow> int" where
  "c_div10 n = (if n \<ge> 0 then n div 10 else - ((- n) div 10))"

definition c_mod10 :: "int \<Rightarrow> int" where
  "c_mod10 n = n - 10 * c_div10 n"

function count_loop :: "int \<Rightarrow> nat \<Rightarrow> nat" where
  "count_loop temp len =
     (let temp = c_div10 temp; len = len + 1 in if temp > 0 then count_loop temp len else len)"
  by auto
termination by (relation "measure (\<lambda>(t, n). nat t)") (auto simp: c_div10_def split: if_splits)

fun fill_loop :: "nat list \<Rightarrow> int \<Rightarrow> bytes \<Rightarrow> bytes" where
  "fill_loop [] num b = b"
| "fill_loop (i # is) num b = fill_loop is num (b(i := of_int (c_mod10 num + 48)))"

definition int_to_char :: "int \<Rightarrow> bytes \<Rightarrow> nat \<times> bytes" where
  "int_to_char num b = (let len = count_loop num 0 in (len, fill_loop [0..<len] num b))"

definition write_to_logs :: "uint64 \<Rightarrow> uchar list \<Rightarrow> 'a audits_scheme \<Rightarrow> 'a audits_scheme option" where
  "write_to_logs addr bs s = do {
     s \<leftarrow> (if \<not> opened (aud s) then do {
         (f, s) \<leftarrow> kopen (str ''/AuditLogs.txt'') O_CREATE s;
         Some (upd_aud (\<lambda>a. a\<lparr>audit_f := f, opened := True\<rparr>) s)
       } else Some s);
     panic_if (audit_f (aud s) = BadFile) ''ERROR FILE'';
     panic_if (audit_f (aud s) = NullFile) ''No File'';
     case audit_f (aud s) of
       FilePtr f \<Rightarrow> do {
         s \<leftarrow> say ''6\<newline>'' s;
         (_, s) \<leftarrow> kfilewrite f addr bs (int (length bs)) s;
         Some s
       }
     | _ \<Rightarrow> None
   }"

section \<open>What int_to_char writes\<close>

lemma fill_loop_eq: "fill_loop is num b = (\<lambda>i. if i \<in> set is then of_int (c_mod10 num + 48) else b i)"
  by (induction "is" arbitrary: b) (auto simp: fun_eq_iff)

declare count_loop.simps [simp del]

lemma count_loop_digits:
  "0 \<le> t \<Longrightarrow> \<exists>k. count_loop t n = n + Suc k \<and> t < 10 ^ Suc k \<and> (0 < k \<longrightarrow> 10 ^ k \<le> t)"
proof (induction t n rule: count_loop.induct)
  case (1 t n)
  show ?case
  proof (cases "t div 10 > 0")
    case True
    then obtain k where k: "count_loop (t div 10) (n + 1) = n + 1 + Suc k" "t div 10 < 10 ^ Suc k" "0 < k \<longrightarrow> 10 ^ k \<le> t div 10"
      using 1 by (auto simp: c_div10_def Let_def)
    have "t < 10 ^ Suc (Suc k)" using k(2) by simp
    moreover have "10 ^ Suc k \<le> t" using k(3) True by (cases k) auto
    moreover have "count_loop t n = n + Suc (Suc k)" using k(1) True 1(2) by (subst count_loop.simps) (simp add: c_div10_def)
    ultimately show ?thesis by blast
  next
    case False
    then have "count_loop t n = n + Suc 0" using 1(2) by (subst count_loop.simps) (simp add: c_div10_def)
    then show ?thesis using False 1(2) by (intro exI [of _ 0]) auto
  qed
qed



end
