(* ===== verification/Exec.thy ===== *)
theory Exec
  imports Sysfile
begin

text \<open>
  kernel/exec.c, kernel/elf.h and \<open>sys_exec\<close> (kernel/sysfile.c). The argument strings are in kernel
  pages: \<open>argv\<close> is the list of their addresses, without the null pointer that ends the array.
\<close>

section \<open>ELF headers (elf.h)\<close>

definition ELF_MAGIC :: uint where "ELF_MAGIC = 0x464C457F"
definition ELF_PROG_LOAD :: uint where "ELF_PROG_LOAD = 1"

definition get64 :: "bytes \<Rightarrow> nat \<Rightarrow> uint64" where
  "get64 d off = of_nat (le_get 8 (\<lambda>i. d (off + i)))"

record elfhdr =
  e_magic :: uint
  e_elf :: "uchar list"
  e_type :: ushort
  e_machine :: ushort
  e_version :: uint
  e_entry :: uint64
  e_phoff :: uint64
  e_shoff :: uint64
  e_flags :: uint
  e_ehsize :: ushort
  e_phentsize :: ushort
  e_phnum :: ushort
  e_shentsize :: ushort
  e_shnum :: ushort
  e_shstrndx :: ushort

record proghdr =
  ph_type :: uint
  ph_flags :: uint
  ph_off :: uint64
  ph_vaddr :: uint64
  ph_paddr :: uint64
  ph_filesz :: uint64
  ph_memsz :: uint64
  ph_align :: uint64

definition ELFHDR_SIZE :: nat where "ELFHDR_SIZE = 64"
definition PROGHDR_SIZE :: nat where "PROGHDR_SIZE = 56"

definition get_elfhdr :: "uchar list \<Rightarrow> elfhdr" where
  "get_elfhdr bs = (let d = (\<lambda>i. bs ! i) in
     \<lparr>e_magic = get32 d 0, e_elf = take 12 (drop 4 bs), e_type = get16 d 16, e_machine = get16 d 18, e_version = get32 d 20,
      e_entry = get64 d 24, e_phoff = get64 d 32, e_shoff = get64 d 40, e_flags = get32 d 48, e_ehsize = get16 d 52,
      e_phentsize = get16 d 54, e_phnum = get16 d 56, e_shentsize = get16 d 58, e_shnum = get16 d 60, e_shstrndx = get16 d 62\<rparr>)"

definition get_proghdr :: "uchar list \<Rightarrow> proghdr" where
  "get_proghdr bs = (let d = (\<lambda>i. bs ! i) in
     \<lparr>ph_type = get32 d 0, ph_flags = get32 d 4, ph_off = get64 d 8, ph_vaddr = get64 d 16, ph_paddr = get64 d 24,
      ph_filesz = get64 d 32, ph_memsz = get64 d 40, ph_align = get64 d 48\<rparr>)"

section \<open>Loading (exec.c)\<close>

definition flags2perm :: "uint \<Rightarrow> uint64" where
  "flags2perm flags =
     (let perm = (if flags AND 1 \<noteq> 0 then PTE_X else 0)
      in if flags AND 2 \<noteq> 0 then perm OR PTE_W else perm)"

partial_function (option) loadseg_loop :: "uint64 \<Rightarrow> uint64 \<Rightarrow> nat \<Rightarrow> uint \<Rightarrow> uint \<Rightarrow> uint \<Rightarrow> 'a fss_scheme \<Rightarrow>
    (int \<times> 'a fss_scheme) option" where
  "loadseg_loop pagetable va ip offset sz i s =
     (if i < sz then do {
        pa \<leftarrow> walkaddr pagetable (va + ucast i) s;
        panic_if (pa = 0) ''loadseg: address should exist'';
        let n = (if sz - i < ucast PGSIZE then sz - i else ucast PGSIZE);
        (r, bs, s) \<leftarrow> readi ip False pa (offset + i) n s;
        let s = s\<lparr>phys := put_bytes pa bs (phys s)\<rparr>;
        if r \<noteq> uint n then Some (-1, s) else loadseg_loop pagetable va ip offset sz (i + ucast PGSIZE) s
      } else Some (0, s))"

definition loadseg :: "uint64 \<Rightarrow> uint64 \<Rightarrow> nat \<Rightarrow> uint \<Rightarrow> uint \<Rightarrow> 'a fss_scheme \<Rightarrow> (int \<times> 'a fss_scheme) option" where
  "loadseg pagetable va ip offset sz s = loadseg_loop pagetable va ip offset sz 0 s"

text \<open>
  The loop over the program headers; \<open>off\<close> is an int. The result is whether every header was handled
  (a \<open>goto bad\<close> is \<open>False\<close>) and the size reached.
\<close>

fun load_segments :: "nat \<Rightarrow> uint64 \<Rightarrow> nat \<Rightarrow> uint \<Rightarrow> uint64 \<Rightarrow> 'a fss_scheme \<Rightarrow> (bool \<times> uint64 \<times> 'a fss_scheme) option" where
  "load_segments 0 pagetable ip off sz s = Some (True, sz, s)"
| "load_segments (Suc k) pagetable ip off sz s = do {
     (r, bs, s) \<leftarrow> readi ip False 0 off (of_nat PROGHDR_SIZE) s;
     if r \<noteq> int PROGHDR_SIZE then Some (False, sz, s)
     else let ph = get_proghdr bs in
       if ph_type ph \<noteq> ELF_PROG_LOAD then load_segments k pagetable ip (off + of_nat PROGHDR_SIZE) sz s
       else if ph_memsz ph < ph_filesz ph \<or> ph_vaddr ph + ph_memsz ph < ph_vaddr ph \<or> ph_vaddr ph mod PGSIZE \<noteq> 0
       then Some (False, sz, s)
       else do {
         (sz1, s) \<leftarrow> uvmalloc pagetable sz (ph_vaddr ph + ph_memsz ph) (flags2perm (ph_flags ph)) s;
         if sz1 = 0 then Some (False, sz, s)
         else do {
           (r, s) \<leftarrow> loadseg pagetable (ph_vaddr ph) ip (ucast (ph_off ph)) (ucast (ph_filesz ph)) s;
           if r < 0 then Some (False, sz1, s)
           else load_segments k pagetable ip (off + of_nat PROGHDR_SIZE) sz1 s
         }
       }
   }"

text \<open>
  The loop that pushes the argument strings: the stack pointer and the addresses (\<open>ustack\<close>), or
  \<open>None\<close> for \<open>goto bad\<close>.
\<close>

fun push_args :: "uint64 list \<Rightarrow> uint64 \<Rightarrow> uint64 \<Rightarrow> uint64 \<Rightarrow> uint64 list \<Rightarrow> 'a kmem_scheme \<Rightarrow>
    ((uint64 \<times> uint64 list) option \<times> 'a kmem_scheme) option" where
  "push_args [] pagetable stackbase sp ustack s = Some (Some (sp, ustack), s)"
| "push_args (a # argv) pagetable stackbase sp ustack s =
     (if length ustack \<ge> MAXARG then Some (None, s)
      else do {
        len \<leftarrow> strlen (phys s) a;
        let sp = sp - (of_nat len + 1);
        let sp = sp - sp mod 16;
        if sp < stackbase then Some (None, s)
        else do {
          (r, s) \<leftarrow> copyout pagetable sp (get_bytes (phys s) a (len + 1)) s;
          if r < 0 then Some (None, s)
          else push_args argv pagetable stackbase sp (ustack @ [sp]) s
        }
      })"

definition words_bytes :: "uint64 list \<Rightarrow> uchar list" where
  "words_bytes ws = concat (map (\<lambda>w. map (le_byte (unat w)) [0..<8]) ws)"

text \<open>The part of the path after its last slash.\<close>

definition last_elem :: "uchar list \<Rightarrow> uchar list" where
  "last_elem path = rev (takeWhile (\<lambda>c. c \<noteq> slash) (rev path))"

text \<open>
  \<open>exec\<close> after the segments are loaded and the inode released: the stack, the arguments, the commit.
\<close>

definition exec_commit :: "nat \<Rightarrow> uchar list \<Rightarrow> uint64 list \<Rightarrow> elfhdr \<Rightarrow> uint64 \<Rightarrow> uint64 \<Rightarrow> 'a files_scheme \<Rightarrow>
    (int \<times> 'a files_scheme) option" where
  "exec_commit p path argv elf pagetable sz s = do {
     let bad = (\<lambda>sz s. do { s \<leftarrow> proc_freepagetable pagetable sz s; Some (-1, s) });
     let oldsz = p_sz (proc s p);
     let sz = PGROUNDUP sz;
     (sz1, s) \<leftarrow> uvmalloc pagetable sz (sz + 2 * PGSIZE) PTE_W s;
     if sz1 = 0 then bad sz s
     else do {
       let sz = sz1;
       s \<leftarrow> uvmclear pagetable (sz - 2 * PGSIZE) s;
       (r, s) \<leftarrow> push_args argv pagetable (sz - PGSIZE) sz [] s;
       case r of None \<Rightarrow> bad sz s
       | Some (sp, ustack) \<Rightarrow> do {
           let argc = length ustack;
           let sp = sp - of_nat ((argc + 1) * 8);
           let sp = sp - sp mod 16;
           if sp < sz - PGSIZE then bad sz s
           else do {
             (r, s) \<leftarrow> copyout pagetable sp (words_bytes (ustack @ [0])) s;
             if r < 0 then bad sz s
             else do {
               let s = tf_set p A1 sp s;
               let oldpagetable = p_pagetable (proc s p);
               let s = upd_proc p (\<lambda>q. q\<lparr>p_name := take 15 (last_elem path), p_pagetable := pagetable, p_sz := sz\<rparr>) s;
               let s = tf_set p Epc (e_entry elf) s;
               let s = tf_set p Sp sp s;
               s \<leftarrow> proc_freepagetable oldpagetable oldsz s;
               Some (int argc, s)
             }
           }
         }
     }
   }"

definition exec :: "uchar list \<Rightarrow> uint64 list \<Rightarrow> 'a files_scheme \<Rightarrow> (int \<times> 'a files_scheme) option" where
  "exec path argv s = do {
     (me, s) \<leftarrow> myproc s;
     p \<leftarrow> me;
     s \<leftarrow> begin_op s;
     (ip, s) \<leftarrow> namei path s;
     case ip of None \<Rightarrow> do { s \<leftarrow> end_op s; Some (-1, s) }
     | Some ip \<Rightarrow> do {
         s \<leftarrow> ilock ip s;
         let bad = (\<lambda>pagetable sz s. do {
           s \<leftarrow> (if pagetable \<noteq> 0 then proc_freepagetable pagetable sz s else Some s);
           s \<leftarrow> iunlockput ip s;
           s \<leftarrow> end_op s;
           Some (-1, s)
         });
         (r, bs, s) \<leftarrow> readi ip False 0 0 (of_nat ELFHDR_SIZE) s;
         if r \<noteq> int ELFHDR_SIZE then bad 0 0 s
         else let elf = get_elfhdr bs in
           if e_magic elf \<noteq> ELF_MAGIC then bad 0 0 s
           else do {
             (pagetable, s) \<leftarrow> proc_pagetable p s;
             if pagetable = 0 then bad 0 0 s
             else do {
               (ok, sz, s) \<leftarrow> load_segments (unat (e_phnum elf)) pagetable ip (ucast (e_phoff elf)) 0 s;
               if \<not> ok then bad pagetable sz s
               else do {
                 s \<leftarrow> iunlockput ip s;
                 s \<leftarrow> end_op s;
                 exec_commit p path argv elf pagetable sz s
               }
             }
           }
       }
   }"

section \<open>The system call (sysfile.c)\<close>

fun kfree_all :: "uint64 list \<Rightarrow> 'a kmem_scheme \<Rightarrow> 'a kmem_scheme option" where
  "kfree_all [] s = Some s"
| "kfree_all (a # as) s = do { s \<leftarrow> kfree a s; kfree_all as s }"

text \<open>
  The loop that fetches the argument strings, each into a page of its own: the pages, and whether
  the null pointer that ends the user's array was reached (\<open>False\<close> is \<open>goto bad\<close>).
\<close>

fun fetch_args :: "nat \<Rightarrow> uint64 \<Rightarrow> uint64 list \<Rightarrow> 'a procs_scheme \<Rightarrow> (bool \<times> uint64 list \<times> 'a procs_scheme) option" where
  "fetch_args 0 uargv argv s = Some (False, argv, s)"
| "fetch_args (Suc k) uargv argv s = do {
     (r, uarg, s) \<leftarrow> fetchaddr (uargv + 8 * of_nat (length argv)) s;
     if r < 0 then Some (False, argv, s)
     else if uarg = 0 then Some (True, argv, s)
     else do {
       (pg, s) \<leftarrow> kalloc s;
       if pg = 0 then Some (False, argv, s)
       else do {
         (r, bs, s) \<leftarrow> fetchstr uarg (unat PGSIZE) s;
         let s = s\<lparr>phys := put_bytes pg (if r < 0 then bs else bs @ [0]) (phys s)\<rparr>;
         if r < 0 then Some (False, argv @ [pg], s) else fetch_args k uargv (argv @ [pg]) s
       }
     }
   }"

definition sys_exec :: "'a files_scheme \<Rightarrow> (int \<times> 'a files_scheme) option" where
  "sys_exec s = do {
     (uargv, s) \<leftarrow> argaddr 1 s;
     (r, path, s) \<leftarrow> argstr 0 MAXPATH s;
     if r < 0 then Some (-1, s)
     else do {
       (ok, argv, s) \<leftarrow> fetch_args MAXARG uargv [] s;
       (ret, s) \<leftarrow> (if ok then exec path argv s else Some (-1, s));
       s \<leftarrow> kfree_all argv s;
       Some (ret, s)
     }
   }"

end
