(* ===== verification/Fork.thy ===== *)
theory Fork
  imports AuditLog Exec
begin

text \<open>
  The rest of kernel/proc.c: \<open>userinit\<close>, \<open>fork\<close>, \<open>exit\<close>, \<open>wait\<close>, \<open>audit\<close> and \<open>check\<close>. \<open>exit\<close> runs up to
  the switch to the scheduler; \<open>wait\<close> returns or sleeps on the caller's own channel, and \<open>wait_from\<close>
  goes on from there.
\<close>

definition initcode :: "uchar list" where
  "initcode = [
     0x17, 0x05, 0x00, 0x00, 0x13, 0x05, 0x45, 0x02,
     0x97, 0x05, 0x00, 0x00, 0x93, 0x85, 0x35, 0x02,
     0x93, 0x08, 0x70, 0x00, 0x73, 0x00, 0x00, 0x00,
     0x93, 0x08, 0x20, 0x00, 0x73, 0x00, 0x00, 0x00,
     0xef, 0xf0, 0x9f, 0xff, 0x2f, 0x69, 0x6e, 0x69,
     0x74, 0x00, 0x00, 0x24, 0x00, 0x00, 0x00, 0x00,
     0x00, 0x00, 0x00, 0x00]"

text \<open>\<open>ic\<close> is the address at which the kernel image holds \<open>initcode\<close>.\<close>

definition userinit :: "uint64 \<Rightarrow> 'a files_scheme \<Rightarrow> 'a files_scheme option" where
  "userinit ic s = do {
     (np, s) \<leftarrow> allocproc s;
     let s = s\<lparr>initproc := np\<rparr>;
     p \<leftarrow> np;
     s \<leftarrow> uvmfirst (p_pagetable (proc s p)) ic (of_nat (length initcode)) s;
     let s = upd_proc p (p_sz_update (\<lambda>_. PGSIZE)) s;
     let s = tf_set p Epc 0 s;
     let s = tf_set p Sp PGSIZE s;
     let s = upd_proc p (p_name_update (\<lambda>_. str ''initcode'')) s;
     (cwd, s) \<leftarrow> namei (str ''/'') s;
     let s = upd_proc p (\<lambda>q. q\<lparr>p_cwd := cwd, p_state := RUNNABLE\<rparr>) s;
     release (ProcLock p) s
   }"

text \<open>The size of \<open>struct trapframe\<close>, which \<open>fork\<close> copies by assignment.\<close>

definition TRAPFRAME_SIZE :: uint where "TRAPFRAME_SIZE = of_nat (8 * length trapframe)"

fun dup_files :: "nat list \<Rightarrow> nat \<Rightarrow> nat \<Rightarrow> 'a files_scheme \<Rightarrow> 'a files_scheme option" where
  "dup_files [] p np s = Some s"
| "dup_files (i # is) p np s =
     (case p_ofile (proc s p) i of
        None \<Rightarrow> dup_files is p np s
      | Some f \<Rightarrow> do {
          (f, s) \<leftarrow> filedup f s;
          dup_files is p np (upd_proc np (p_ofile_update (\<lambda>t. t(i := Some f))) s)
        })"

definition fork :: "'a files_scheme \<Rightarrow> (int \<times> 'a files_scheme) option" where
  "fork s = do {
     (me, s) \<leftarrow> myproc s;
     p \<leftarrow> me;
     (found, s) \<leftarrow> allocproc s;
     case found of None \<Rightarrow> Some (-1, s)
     | Some np \<Rightarrow> do {
         (r, s) \<leftarrow> uvmcopy (p_pagetable (proc s p)) (p_pagetable (proc s np)) (p_sz (proc s p)) s;
         if r < 0 then do {
           s \<leftarrow> freeproc np s;
           s \<leftarrow> release (ProcLock np) s;
           Some (-1, s)
         } else do {
           let s = upd_proc np (p_sz_update (\<lambda>_. p_sz (proc s p))) s;
           let s = s\<lparr>phys := memmove (p_trapframe (proc s np)) (p_trapframe (proc s p)) TRAPFRAME_SIZE (phys s)\<rparr>;
           let s = tf_set np A0 0 s;
           s \<leftarrow> dup_files [0..<NOFILE] p np s;
           cwd \<leftarrow> p_cwd (proc s p);
           (cwd, s) \<leftarrow> idup cwd s;
           let s = upd_proc np (\<lambda>q. q\<lparr>p_cwd := Some cwd, p_name := take 15 (p_name (proc s p))\<rparr>) s;
           let pid = p_pid (proc s np);
           s \<leftarrow> release (ProcLock np) s;
           s \<leftarrow> acquire WaitLock s;
           let s = upd_proc np (p_parent_update (\<lambda>_. Some p)) s;
           s \<leftarrow> release WaitLock s;
           s \<leftarrow> acquire (ProcLock np) s;
           let s = upd_proc np (p_state_update (\<lambda>_. RUNNABLE)) s;
           s \<leftarrow> release (ProcLock np) s;
           Some (pid, s)
         }
       }
   }"

definition audit :: "uint \<Rightarrow> uint64" where
  "audit num = ucast (drop_bit 10 num)"

text \<open>The C string that starts at index \<open>i\<close> of an array, as \<open>strlen\<close> delimits it.\<close>

partial_function (option) cstr_at :: "bytes \<Rightarrow> nat \<Rightarrow> uchar list option" where
  "cstr_at d i = (if d i = 0 then Some [] else do { cs \<leftarrow> cstr_at d (Suc i); Some (d i # cs) })"

definition check :: "'a audits_scheme \<Rightarrow> (int \<times> 'a audits_scheme) option" where
  "check s =
     (if ticks s - prev_tick (aud s) > 50 then do {
        let a = (junk s)(0 := of_char (CHR ''H''), 1 := of_char (CHR ''A''), 2 := of_char (CHR ''P''));
        bs \<leftarrow> cstr_at a 0;
        s \<leftarrow> write_to_logs (local_addr (aud s)) bs s;
        Some (1, upd_aud (\<lambda>x. x\<lparr>prev_tick := ticks s\<rparr>) s)
      } else Some (0, s))"

fun close_files :: "nat list \<Rightarrow> nat \<Rightarrow> 'a files_scheme \<Rightarrow> 'a files_scheme option" where
  "close_files [] p s = Some s"
| "close_files (fd # fds) p s =
     (case p_ofile (proc s p) fd of
        None \<Rightarrow> close_files fds p s
      | Some f \<Rightarrow> do {
          s \<leftarrow> fileclose f s;
          close_files fds p (upd_proc p (p_ofile_update (\<lambda>t. t(fd := None))) s)
        })"

text \<open>\<open>exit\<close> up to the switch: the state the scheduler finds, with the process a zombie.\<close>

definition exit_out :: "int \<Rightarrow> 'a files_scheme \<Rightarrow> 'a files_scheme option" where
  "exit_out status s = do {
     (me, s) \<leftarrow> myproc s;
     panic_if (me = initproc s) ''init exiting'';
     p \<leftarrow> me;
     s \<leftarrow> close_files [0..<NOFILE] p s;
     s \<leftarrow> begin_op s;
     cwd \<leftarrow> p_cwd (proc s p);
     s \<leftarrow> iput cwd s;
     s \<leftarrow> end_op s;
     let s = upd_proc p (p_cwd_update (\<lambda>_. None)) s;
     s \<leftarrow> acquire WaitLock s;
     s \<leftarrow> reparent p s;
     s \<leftarrow> wakeup (proc_chan (p_parent (proc s p))) s;
     s \<leftarrow> acquire (ProcLock p) s;
     let s = upd_proc p (\<lambda>q. q\<lparr>p_xstate := status, p_state := ZOMBIE\<rparr>) s;
     s \<leftarrow> release WaitLock s;
     (_, s) \<leftarrow> sched_out s;
     Some s
   }"

text \<open>
  The scan of \<open>wait\<close>: \<open>Some r\<close> when the function has returned \<open>r\<close> (the locks are released then),
  otherwise whether the caller has children.
\<close>

fun wait_scan :: "nat list \<Rightarrow> nat \<Rightarrow> uint64 \<Rightarrow> bool \<Rightarrow> 'a procs_scheme \<Rightarrow> (int option \<times> bool \<times> 'a procs_scheme) option" where
  "wait_scan [] p addr havekids s = Some (None, havekids, s)"
| "wait_scan (pp # pps) p addr havekids s =
     (if p_parent (proc s pp) = Some p then do {
        s \<leftarrow> acquire (ProcLock pp) s;
        if p_state (proc s pp) = ZOMBIE then do {
          let pid = p_pid (proc s pp);
          (r, s) \<leftarrow> (if addr \<noteq> 0 then copyout (p_pagetable (proc s p)) addr (int_bytes (p_xstate (proc s pp))) s
            else Some (0, s));
          if r < 0 then do {
            s \<leftarrow> release (ProcLock pp) s;
            s \<leftarrow> release WaitLock s;
            Some (Some (-1), True, s)
          } else do {
            s \<leftarrow> freeproc pp s;
            s \<leftarrow> release (ProcLock pp) s;
            s \<leftarrow> release WaitLock s;
            Some (Some pid, True, s)
          }
        } else do {
          s \<leftarrow> release (ProcLock pp) s;
          wait_scan pps p addr True s
        }
      } else wait_scan pps p addr havekids s)"

definition wait_from :: "nat \<Rightarrow> uint64 \<Rightarrow> 'a procs_scheme \<Rightarrow> (int blocking \<times> 'a procs_scheme) option" where
  "wait_from p addr s = do {
     (r, havekids, s) \<leftarrow> wait_scan [0..<NPROC] p addr False s;
     case r of Some r \<Rightarrow> Some (Returns r, s)
     | None \<Rightarrow> do {
         (k, s) \<leftarrow> (if \<not> havekids then Some (1, s) else killed p s);
         if k \<noteq> 0 then do { s \<leftarrow> release WaitLock s; Some (Returns (-1), s) }
         else Some (Sleeps (ProcChan p), s)
       }
   }"

definition wait :: "uint64 \<Rightarrow> 'a procs_scheme \<Rightarrow> (int blocking \<times> 'a procs_scheme) option" where
  "wait addr s = do {
     (me, s) \<leftarrow> myproc s;
     p \<leftarrow> me;
     s \<leftarrow> acquire WaitLock s;
     wait_from p addr s
   }"

end
