(* ===== verification/Syscall.thy ===== *)
theory Syscall
  imports Fork
begin

text \<open>
  kernel/sysproc.c, kernel/syscall.h and the dispatcher and audit trail of kernel/syscall.c. A system
  call that does not return to its caller (\<open>sys_exit\<close>, and one that has to wait for another process)
  is \<open>None\<close>.
\<close>

section \<open>sysproc.c\<close>

definition sys_exit :: "'a files_scheme \<Rightarrow> (int \<times> 'a files_scheme) option" where
  "sys_exit s = do {
     (n, s) \<leftarrow> argint 0 s;
     s \<leftarrow> exit_out n s;
     None
   }"

definition sys_getpid :: "'a files_scheme \<Rightarrow> (int \<times> 'a files_scheme) option" where
  "sys_getpid s = do {
     (me, s) \<leftarrow> myproc s;
     p \<leftarrow> me;
     Some (p_pid (proc s p), s)
   }"

definition sys_fork :: "'a files_scheme \<Rightarrow> (int \<times> 'a files_scheme) option" where
  "sys_fork s = fork s"

definition sys_wait :: "'a files_scheme \<Rightarrow> (int \<times> 'a files_scheme) option" where
  "sys_wait s = do {
     (p, s) \<leftarrow> argaddr 0 s;
     (r, s) \<leftarrow> wait p s;
     r \<leftarrow> await r;
     Some (r, s)
   }"

definition sys_sbrk :: "'a files_scheme \<Rightarrow> (int \<times> 'a files_scheme) option" where
  "sys_sbrk s = do {
     (n, s) \<leftarrow> argint 0 s;
     (me, s) \<leftarrow> myproc s;
     p \<leftarrow> me;
     let addr = p_sz (proc s p);
     (r, s) \<leftarrow> growproc n s;
     Some (if r < 0 then -1 else uint addr, s)
   }"

text \<open>
  \<open>sys_sleep\<close> from the test of its loop on, with \<open>tickslock\<close> held; \<open>n\<close> is compared as an unsigned
  number.
\<close>

definition sleep_from :: "uint \<Rightarrow> int \<Rightarrow> 'a procs_scheme \<Rightarrow> (int blocking \<times> 'a procs_scheme) option" where
  "sleep_from ticks0 n s =
     (if ticks s - ticks0 < of_int n then do {
        (me, s) \<leftarrow> myproc s;
        p \<leftarrow> me;
        (k, s) \<leftarrow> killed p s;
        if k \<noteq> 0 then do { s \<leftarrow> release TicksLock s; Some (Returns (-1), s) }
        else Some (Sleeps TicksChan, s)
      } else do { s \<leftarrow> release TicksLock s; Some (Returns 0, s) })"

definition sys_sleep :: "'a files_scheme \<Rightarrow> (int \<times> 'a files_scheme) option" where
  "sys_sleep s = do {
     (n, s) \<leftarrow> argint 0 s;
     s \<leftarrow> acquire TicksLock s;
     (r, s) \<leftarrow> sleep_from (ticks s) n s;
     r \<leftarrow> await r;
     Some (r, s)
   }"

definition sys_kill :: "'a files_scheme \<Rightarrow> (int \<times> 'a files_scheme) option" where
  "sys_kill s = do { (pid, s) \<leftarrow> argint 0 s; kill pid s }"

definition sys_uptime :: "'a files_scheme \<Rightarrow> (int \<times> 'a files_scheme) option" where
  "sys_uptime s = do {
     s \<leftarrow> acquire TicksLock s;
     let xticks = ticks s;
     s \<leftarrow> release TicksLock s;
     Some (uint xticks, s)
   }"

definition sys_audit :: "'a files_scheme \<Rightarrow> (int \<times> 'a files_scheme) option" where
  "sys_audit s = do { (n, s) \<leftarrow> argint 0 s; Some (uint (audit (of_int n)), s) }"

definition sys_check :: "'a audits_scheme \<Rightarrow> (int \<times> 'a audits_scheme) option" where
  "sys_check s = do { (_, s) \<leftarrow> argaddr 0 s; check s }"

section \<open>Numbers and names (syscall.h, syscall.c)\<close>

definition SYS_fork :: nat where "SYS_fork = 1"
definition SYS_exit :: nat where "SYS_exit = 2"
definition SYS_wait :: nat where "SYS_wait = 3"
definition SYS_pipe :: nat where "SYS_pipe = 4"
definition SYS_read :: nat where "SYS_read = 5"
definition SYS_kill :: nat where "SYS_kill = 6"
definition SYS_exec :: nat where "SYS_exec = 7"
definition SYS_fstat :: nat where "SYS_fstat = 8"
definition SYS_chdir :: nat where "SYS_chdir = 9"
definition SYS_dup :: nat where "SYS_dup = 10"
definition SYS_getpid :: nat where "SYS_getpid = 11"
definition SYS_sbrk :: nat where "SYS_sbrk = 12"
definition SYS_sleep :: nat where "SYS_sleep = 13"
definition SYS_uptime :: nat where "SYS_uptime = 14"
definition SYS_open :: nat where "SYS_open = 15"
definition SYS_write :: nat where "SYS_write = 16"
definition SYS_mknod :: nat where "SYS_mknod = 17"
definition SYS_unlink :: nat where "SYS_unlink = 18"
definition SYS_link :: nat where "SYS_link = 19"
definition SYS_mkdir :: nat where "SYS_mkdir = 20"
definition SYS_close :: nat where "SYS_close = 21"
definition SYS_audit :: nat where "SYS_audit = 22"
definition SYS_check :: nat where "SYS_check = 23"

lemmas sys_numbers = SYS_fork_def SYS_exit_def SYS_wait_def SYS_pipe_def SYS_read_def SYS_kill_def SYS_exec_def
  SYS_fstat_def SYS_chdir_def SYS_dup_def SYS_getpid_def SYS_sbrk_def SYS_sleep_def SYS_uptime_def SYS_open_def
  SYS_write_def SYS_mknod_def SYS_unlink_def SYS_link_def SYS_mkdir_def SYS_close_def SYS_audit_def SYS_check_def

definition NUM_SYS_CALLS :: nat where "NUM_SYS_CALLS = 21"

text \<open>The initial value of \<open>whitelisted\<close>.\<close>

definition whitelisted_init :: "uchar list" where
  "whitelisted_init = replicate NUM_SYS_CALLS 1"

definition name_from_num :: "uchar list list" where
  "name_from_num = map str [''unknown'', ''fork'', ''exit'', ''wait'', ''pipe'', ''read'', ''kill'', ''exec'', ''fstat'',
     ''chdir'', ''dup'', ''getpid'', ''sbrk'', ''sleep'', ''uptime'', ''open'', ''write'', ''mknod'', ''unlink'',
     ''link'', ''mkdir'', ''close'', ''audit'']"

text \<open>The table \<open>syscalls\<close>; \<open>None\<close> where it holds no function.\<close>

definition syscalls :: "nat \<Rightarrow> ('a audits_scheme \<Rightarrow> (int \<times> 'a audits_scheme) option) option" where
  "syscalls num =
     (if num = SYS_fork then Some sys_fork else if num = SYS_exit then Some sys_exit
      else if num = SYS_wait then Some sys_wait else if num = SYS_pipe then Some sys_pipe
      else if num = SYS_read then Some sys_read else if num = SYS_kill then Some sys_kill
      else if num = SYS_exec then Some sys_exec else if num = SYS_fstat then Some sys_fstat
      else if num = SYS_chdir then Some sys_chdir else if num = SYS_dup then Some sys_dup
      else if num = SYS_getpid then Some sys_getpid else if num = SYS_sbrk then Some sys_sbrk
      else if num = SYS_sleep then Some sys_sleep else if num = SYS_uptime then Some sys_uptime
      else if num = SYS_open then Some sys_open else if num = SYS_write then Some sys_write
      else if num = SYS_mknod then Some sys_mknod else if num = SYS_unlink then Some sys_unlink
      else if num = SYS_link then Some sys_link else if num = SYS_mkdir then Some sys_mkdir
      else if num = SYS_close then Some sys_close else if num = SYS_audit then Some sys_audit
      else if num = SYS_check then Some sys_check else None)"

section \<open>The audit trail (syscall.c)\<close>

text \<open>The loop that turns the number an \<open>audit\<close> call returned into the white list.\<close>

fun whitelist_loop :: "nat list \<Rightarrow> uint \<Rightarrow> (nat \<Rightarrow> uchar) \<Rightarrow> nat \<Rightarrow> uchar" where
  "whitelist_loop [] audit_num w = w"
| "whitelist_loop (i # is) audit_num w =
     (let w = w(i := 0);
          w = (if audit_num AND 1 \<noteq> 0 then w(NUM_SYS_CALLS - i := 1) else w)
      in whitelist_loop is (drop_bit 1 audit_num) w)"

definition set_whitelist :: "uint \<Rightarrow> (nat \<Rightarrow> uchar) \<Rightarrow> nat \<Rightarrow> uchar" where
  "set_whitelist audit_num w = whitelist_loop [0..<NUM_SYS_CALLS] audit_num w"

text \<open>\<open>strncpy(buff + offset, t, strlen(t))\<close>, and the store of one character.\<close>

definition buff_copy :: "uchar list \<Rightarrow> auditing \<Rightarrow> auditing" where
  "buff_copy t a = a\<lparr>buff := put_block (offset a) t (buff a)\<rparr>"

definition buff_char :: "uchar \<Rightarrow> auditing \<Rightarrow> auditing" where
  "buff_char c a = a\<lparr>buff := (buff a)(offset a := c)\<rparr>"

definition buff_skip :: "nat \<Rightarrow> auditing \<Rightarrow> auditing" where
  "buff_skip n a = a\<lparr>offset := offset a + n\<rparr>"

text \<open>
  The two branches that append a line: with the permissions of the file that was used, and without.
\<close>

definition log_file_call :: "uchar list \<Rightarrow> uchar list \<Rightarrow> bool \<Rightarrow> bool \<Rightarrow> auditing \<Rightarrow> auditing" where
  "log_file_call pname cname rd wr a =
     (let a = buff_skip (length pname) (buff_copy pname a);
          a = buff_skip 1 (buff_char 9 a);
          a = buff_skip (length cname) (buff_copy cname a);
          a = buff_skip 1 (buff_char 9 a);
          a = buff_skip 1 (buff_char (if rd then 49 else 48) a);
          a = buff_char 9 a;
          a = a\<lparr>buff := (buff a)(offset a + 1 := if wr then 49 else 48)\<rparr>;
          a = buff_skip 2 a
      in buff_skip 1 (buff_char 10 a))"

definition log_call :: "uchar list \<Rightarrow> uchar list \<Rightarrow> auditing \<Rightarrow> auditing" where
  "log_call pname cname a =
     (let a = buff_skip (length pname) (buff_copy pname a);
          a = buff_skip 1 (buff_char 9 a);
          a = buff_skip (length pname) (buff_copy cname a)
      in buff_skip 1 (buff_char 10 a))"

definition audit_flush :: "'a audits_scheme \<Rightarrow> 'a audits_scheme option" where
  "audit_flush s =
     (if ticks s - prev_tickss (aud s) > 100 then do {
        bs \<leftarrow> cstr_at (buff (aud s)) 0;
        s \<leftarrow> write_to_logs (buff_addr (aud s)) bs s;
        Some (upd_aud (\<lambda>a. a\<lparr>prev_tickss := ticks s, offset := 0, buff := (buff a)(0 := 0)\<rparr>) s)
      } else Some s)"

text \<open>
  The audit of a completed call: \<open>fd\<close> is the file that was stolen before the call, if any. The name
  of call 23 is past the end of \<open>name_from_num\<close>: undefined, \<open>None\<close>.
\<close>

definition audit_call :: "nat \<Rightarrow> nat \<Rightarrow> nat option \<Rightarrow> 'a audits_scheme \<Rightarrow> 'a audits_scheme option" where
  "audit_call p num fd s =
     (if whitelisted (aud s) (num - 1) \<noteq> 0 \<or> num = SYS_audit then do {
        s \<leftarrow> audit_flush s;
        if num \<ge> length name_from_num then None
        else case fd of
          Some f \<Rightarrow> Some (upd_aud (log_file_call (p_name (proc s p)) (name_from_num ! num)
            (f_readable (ftable s f)) (f_writable (ftable s f))) s)
        | None \<Rightarrow> Some (upd_aud (log_call (p_name (proc s p)) (name_from_num ! num)) s)
      } else Some s)"

definition uses_fd :: "nat \<Rightarrow> bool" where
  "uses_fd num \<longleftrightarrow> num = SYS_read \<or> num = SYS_fstat \<or> num = SYS_dup \<or> num = SYS_open \<or> num = SYS_write \<or> num = SYS_close"

definition syscall :: "'a audits_scheme \<Rightarrow> 'a audits_scheme option" where
  "syscall s = do {
     (me, s) \<leftarrow> myproc s;
     p \<leftarrow> me;
     let num = sint (ucast (tf_get p A7 s) :: uint);
     case (if num > 0 then syscalls (nat num) else None) of
       Some call \<Rightarrow> do {
         (r, s) \<leftarrow> (if uses_fd (nat num) then argfd 0 s else Some (None, s));
         (v, s) \<leftarrow> call s;
         let s = tf_set p A0 (of_int v) s;
         let s = (if num = 22
           then upd_aud (\<lambda>a. a\<lparr>whitelisted := set_whitelist (ucast (tf_get p A0 s)) (whitelisted a)\<rparr>) s else s);
         audit_call p (nat num) (map_option snd r) s
       }
     | None \<Rightarrow> do {
         s \<leftarrow> printf (Some (str ''%d %s: unknown sys call %d\<newline>''))
           [VInt (p_pid (proc s p)), VStr (Some (p_name (proc s p))), VInt num] s;
         Some (tf_set p A0 (of_int (-1)) s)
       }
   }"

section \<open>What the trail holds\<close>

lemma whitelist_append: "whitelist_loop (is @ [i]) a w =
  (let w = (whitelist_loop is a w)(i := 0) in if bit a (length is) then w(NUM_SYS_CALLS - i := 1) else w)"
proof (induction "is" arbitrary: a w)
  case Nil
  show ?case by (simp add: and_one_eq mod_2_eq_odd bit_0 Let_def fun_eq_iff)
next
  case (Cons j js)
  then show ?case by (simp add: Let_def bit_drop_bit_eq)
qed


text \<open>The bytes a step appended: from the old offset up to the new one.\<close>

definition appended :: "auditing \<Rightarrow> auditing \<Rightarrow> uchar list" where
  "appended a a' = map (buff a') [offset a..<offset a']"

definition grows :: "auditing \<Rightarrow> uchar list \<Rightarrow> auditing \<Rightarrow> bool" where
  "grows a bs a' \<longleftrightarrow> offset a' = offset a + length bs \<and> (\<forall>i<offset a. buff a' i = buff a i) \<and>
     (\<forall>i<length bs. buff a' (offset a + i) = bs ! i)"

lemma grows_appended: "grows a bs a' \<Longrightarrow> appended a a' = bs"
  by (rule nth_equalityI) (simp_all add: grows_def appended_def)

lemma grows_trans:
  assumes "grows a xs b" "grows b ys c"
  shows "grows a (xs @ ys) c"
proof -
  have "buff c (offset a + i) = (xs @ ys) ! i" if "i < length xs + length ys" for i
  proof (cases "i < length xs")
    case True
    then show ?thesis using assms by (auto simp: grows_def nth_append)
  next
    case False
    then have "i - length xs < length ys" using that by simp
    then have "buff c (offset b + (i - length xs)) = ys ! (i - length xs)" using assms(2) unfolding grows_def by blast
    moreover have "offset b + (i - length xs) = offset a + i" using assms(1) False by (simp add: grows_def)
    ultimately show ?thesis using False by (simp add: nth_append)
  qed
  then show ?thesis using assms by (auto simp: grows_def)
qed

lemmas log_steps = buff_skip_def buff_copy_def buff_char_def put_block_def

lemma grows_copy: "grows a t (buff_skip (length t) (buff_copy t a))"
  by (simp add: grows_def log_steps)

lemma grows_char: "grows a [c] (buff_skip 1 (buff_char c a))"
  by (simp add: grows_def log_steps)

text \<open>Copying one text and advancing by another length.\<close>

lemma grows_skip: "grows a (take n t @ map (\<lambda>i. buff a (offset a + i)) [length t..<n]) (buff_skip n (buff_copy t a))"
  by (auto simp: grows_def log_steps nth_append)

text \<open>
  C19. The lines of the audit trail. A call on a file appends the process name, the call name, and the two
  permissions, separated by tabs, and a newline. For the other calls the offset advances by the length of
  the process name where that of the call name was written: the call name is cut to that length, or
  followed by what the buffer held there before.
\<close>

theorem audit_lines:
  "appended a (log_file_call pname cname rd wr a) =
     pname @ [9] @ cname @ [9, if rd then 49 else 48, 9, if wr then 49 else 48, 10] \<and>
   appended a (log_call pname cname a) =
     pname @ [9] @ take (length pname) cname @
     map (\<lambda>i. buff a (offset a + length pname + 1 + i)) [length cname..<length pname] @ [10]"
proof
  have last: "grows b [9, c] (buff_skip 2 ((buff_char 9 b)\<lparr>buff := (buff (buff_char 9 b))(offset (buff_char 9 b) + 1 := c)\<rparr>))" for b c
    by (auto simp: grows_def log_steps nth_Cons' less_2_cases_iff)
  have "grows a ((((((pname @ [9]) @ cname) @ [9]) @ [if rd then 49 else 48]) @ [9, if wr then 49 else 48]) @ [10]) (log_file_call pname cname rd wr a)"
    unfolding log_file_call_def Let_def by (intro grows_trans [OF _ grows_char] grows_trans [OF _ last] grows_trans [OF _ grows_copy] grows_copy)
  from grows_appended [OF this]
  show "appended a (log_file_call pname cname rd wr a) = pname @ [9] @ cname @ [9, if rd then 49 else 48, 9, if wr then 49 else 48, 10]" by simp
  let ?b = "buff_skip 1 (buff_char 9 (buff_skip (length pname) (buff_copy pname a)))"
  have "grows a (((pname @ [9]) @ (take (length pname) cname @ map (\<lambda>i. buff ?b (offset ?b + i)) [length cname..<length pname])) @ [10]) (log_call pname cname a)"
    unfolding log_call_def Let_def by (intro grows_trans [OF _ grows_char] grows_trans [OF _ grows_skip] grows_trans [OF _ grows_copy] grows_copy)
  from grows_appended [OF this]
  show "appended a (log_call pname cname a) = pname @ [9] @ take (length pname) cname @
     map (\<lambda>i. buff a (offset a + length pname + 1 + i)) [length cname..<length pname] @ [10]"
    by (simp add: log_steps)
qed

end
