(* ===== verification/Trap.thy ===== *)
theory Trap
  imports Syscall
begin

text \<open>
  kernel/trap.c, kernel/plic.c, the control and status registers of kernel/riscv.h, \<open>forkret\<close>
  (kernel/proc.c), and the boot code: kernel/start.c, kernel/main.c, \<open>kvminit\<close> and \<open>kvminithart\<close>
  (kernel/vm.c). Every hart has its own registers. The assembly (entry.S, trampoline.S, kernelvec.S,
  swtch.S) is not modelled: its labels are addresses, and a handler ends where it hands over to it.
\<close>

section \<open>Registers (riscv.h)\<close>

text \<open>
  The registers of a hart. The interrupt-enable bit of \<open>sstatus\<close> is the field \<open>sie\<close> of the hart's
  \<open>cpu\<close> record, which \<open>intr_on\<close>, \<open>intr_off\<close> and \<open>intr_get\<close> use; \<open>c_sstatus\<close> holds the other bits. The
  accessors are inline assembly of one instruction.
\<close>

record csr =
  c_sstatus :: uint64
  c_mstatus :: uint64
  c_sip :: uint64
  c_sie_reg :: uint64
  c_mie :: uint64
  c_sepc :: uint64
  c_medeleg :: uint64
  c_mideleg :: uint64
  c_stvec :: uint64
  c_satp :: uint64
  c_mepc :: uint64
  c_mtvec :: uint64
  c_pmpcfg0 :: uint64
  c_pmpaddr0 :: uint64
  c_mscratch :: uint64
  c_scause :: uint64
  c_stval :: uint64

text \<open>
  What the interrupt controller answers to the n-th claim, the words written to memory-mapped
  registers, what the clock reads, and the addresses of the labels in assembly code and of \<open>main\<close>,
  \<open>usertrap\<close> and \<open>timer_scratch\<close>.
\<close>

record io =
  plic_env :: "nat \<Rightarrow> uint"
  plic_reads :: nat
  mm_trace :: "(uint64 \<times> uint64) list"
  mtime :: uint64

record labels =
  a_kernelvec :: uint64
  a_uservec :: uint64
  a_userret :: uint64
  a_usertrap :: uint64
  a_timervec :: uint64
  a_main :: uint64
  a_etext :: uint64
  a_initcode :: uint64
  a_timer_scratch :: uint64

record traps = audits +
  csrs :: "nat \<Rightarrow> csr"
  io_st :: io
  syms :: labels
  kernel_pagetable :: uint64
  first :: bool
  started :: bool

definition upd_csr :: "(csr \<Rightarrow> csr) \<Rightarrow> 'a traps_scheme \<Rightarrow> 'a traps_scheme" where
  "upd_csr f s = s\<lparr>csrs := (csrs s)(hart s := f (csrs s (hart s)))\<rparr>"

definition mm_write :: "uint64 \<Rightarrow> uint64 \<Rightarrow> 'a traps_scheme \<Rightarrow> 'a traps_scheme" where
  "mm_write a v s = s\<lparr>io_st := (io_st s)\<lparr>mm_trace := mm_trace (io_st s) @ [(a, v)]\<rparr>\<rparr>"

definition MSTATUS_MPP_MASK :: uint64 where "MSTATUS_MPP_MASK = push_bit 11 3"
definition MSTATUS_MPP_S :: uint64 where "MSTATUS_MPP_S = push_bit 11 1"
definition MSTATUS_MIE :: uint64 where "MSTATUS_MIE = push_bit 3 1"
definition SSTATUS_SPP :: uint64 where "SSTATUS_SPP = push_bit 8 1"
definition SSTATUS_SPIE :: uint64 where "SSTATUS_SPIE = push_bit 5 1"
definition SSTATUS_SIE :: uint64 where "SSTATUS_SIE = push_bit 1 1"
definition SIE_SEIE :: uint64 where "SIE_SEIE = push_bit 9 1"
definition SIE_STIE :: uint64 where "SIE_STIE = push_bit 5 1"
definition SIE_SSIE :: uint64 where "SIE_SSIE = push_bit 1 1"
definition MIE_MTIE :: uint64 where "MIE_MTIE = push_bit 7 1"
definition SATP_SV39 :: uint64 where "SATP_SV39 = push_bit 60 8"

definition MAKE_SATP :: "uint64 \<Rightarrow> uint64" where
  "MAKE_SATP pagetable = SATP_SV39 OR drop_bit 12 pagetable"

definition r_mhartid :: "'a traps_scheme \<Rightarrow> uint64" where "r_mhartid s = of_nat (hart s)"
definition r_tp :: "'a traps_scheme \<Rightarrow> uint64" where "r_tp s = of_nat (hart s)"

definition r_sstatus :: "'a traps_scheme \<Rightarrow> uint64" where
  "r_sstatus s = (if intr_get s then c_sstatus (csrs s (hart s)) OR SSTATUS_SIE
     else c_sstatus (csrs s (hart s)) AND NOT SSTATUS_SIE)"

definition w_sstatus :: "uint64 \<Rightarrow> 'a traps_scheme \<Rightarrow> 'a traps_scheme" where
  "w_sstatus x s = (if x AND SSTATUS_SIE \<noteq> 0 then intr_on else intr_off) (upd_csr (c_sstatus_update (\<lambda>_. x)) s)"

definition r_mstatus :: "'a traps_scheme \<Rightarrow> uint64" where "r_mstatus s = c_mstatus (csrs s (hart s))"
definition r_sip :: "'a traps_scheme \<Rightarrow> uint64" where "r_sip s = c_sip (csrs s (hart s))"
definition r_sie :: "'a traps_scheme \<Rightarrow> uint64" where "r_sie s = c_sie_reg (csrs s (hart s))"
definition r_mie :: "'a traps_scheme \<Rightarrow> uint64" where "r_mie s = c_mie (csrs s (hart s))"
definition r_sepc :: "'a traps_scheme \<Rightarrow> uint64" where "r_sepc s = c_sepc (csrs s (hart s))"
definition r_medeleg :: "'a traps_scheme \<Rightarrow> uint64" where "r_medeleg s = c_medeleg (csrs s (hart s))"
definition r_mideleg :: "'a traps_scheme \<Rightarrow> uint64" where "r_mideleg s = c_mideleg (csrs s (hart s))"
definition r_stvec :: "'a traps_scheme \<Rightarrow> uint64" where "r_stvec s = c_stvec (csrs s (hart s))"
definition r_satp :: "'a traps_scheme \<Rightarrow> uint64" where "r_satp s = c_satp (csrs s (hart s))"
definition r_scause :: "'a traps_scheme \<Rightarrow> uint64" where "r_scause s = c_scause (csrs s (hart s))"
definition r_stval :: "'a traps_scheme \<Rightarrow> uint64" where "r_stval s = c_stval (csrs s (hart s))"

definition w_mstatus :: "uint64 \<Rightarrow> 'a traps_scheme \<Rightarrow> 'a traps_scheme" where
  "w_mstatus x = upd_csr (c_mstatus_update (\<lambda>_. x))"

definition w_sip :: "uint64 \<Rightarrow> 'a traps_scheme \<Rightarrow> 'a traps_scheme" where
  "w_sip x = upd_csr (c_sip_update (\<lambda>_. x))"

definition w_sie :: "uint64 \<Rightarrow> 'a traps_scheme \<Rightarrow> 'a traps_scheme" where
  "w_sie x = upd_csr (c_sie_reg_update (\<lambda>_. x))"

definition w_mie :: "uint64 \<Rightarrow> 'a traps_scheme \<Rightarrow> 'a traps_scheme" where
  "w_mie x = upd_csr (c_mie_update (\<lambda>_. x))"

definition w_sepc :: "uint64 \<Rightarrow> 'a traps_scheme \<Rightarrow> 'a traps_scheme" where
  "w_sepc x = upd_csr (c_sepc_update (\<lambda>_. x))"

definition w_medeleg :: "uint64 \<Rightarrow> 'a traps_scheme \<Rightarrow> 'a traps_scheme" where
  "w_medeleg x = upd_csr (c_medeleg_update (\<lambda>_. x))"

definition w_mideleg :: "uint64 \<Rightarrow> 'a traps_scheme \<Rightarrow> 'a traps_scheme" where
  "w_mideleg x = upd_csr (c_mideleg_update (\<lambda>_. x))"

definition w_stvec :: "uint64 \<Rightarrow> 'a traps_scheme \<Rightarrow> 'a traps_scheme" where
  "w_stvec x = upd_csr (c_stvec_update (\<lambda>_. x))"

definition w_satp :: "uint64 \<Rightarrow> 'a traps_scheme \<Rightarrow> 'a traps_scheme" where
  "w_satp x = upd_csr (c_satp_update (\<lambda>_. x))"

definition w_mepc :: "uint64 \<Rightarrow> 'a traps_scheme \<Rightarrow> 'a traps_scheme" where
  "w_mepc x = upd_csr (c_mepc_update (\<lambda>_. x))"

definition w_mtvec :: "uint64 \<Rightarrow> 'a traps_scheme \<Rightarrow> 'a traps_scheme" where
  "w_mtvec x = upd_csr (c_mtvec_update (\<lambda>_. x))"

definition w_pmpcfg0 :: "uint64 \<Rightarrow> 'a traps_scheme \<Rightarrow> 'a traps_scheme" where
  "w_pmpcfg0 x = upd_csr (c_pmpcfg0_update (\<lambda>_. x))"

definition w_pmpaddr0 :: "uint64 \<Rightarrow> 'a traps_scheme \<Rightarrow> 'a traps_scheme" where
  "w_pmpaddr0 x = upd_csr (c_pmpaddr0_update (\<lambda>_. x))"

definition w_mscratch :: "uint64 \<Rightarrow> 'a traps_scheme \<Rightarrow> 'a traps_scheme" where
  "w_mscratch x = upd_csr (c_mscratch_update (\<lambda>_. x))"

section \<open>The interrupt controller (plic.c)\<close>

definition UART0_IRQ :: nat where "UART0_IRQ = 10"
definition VIRTIO0_IRQ :: nat where "VIRTIO0_IRQ = 1"
definition PLIC_SENABLE :: "nat \<Rightarrow> uint64" where "PLIC_SENABLE h = PLIC + 0x2080 + of_nat h * 0x100"
definition PLIC_SPRIORITY :: "nat \<Rightarrow> uint64" where "PLIC_SPRIORITY h = PLIC + 0x201000 + of_nat h * 0x2000"
definition PLIC_SCLAIM :: "nat \<Rightarrow> uint64" where "PLIC_SCLAIM h = PLIC + 0x201004 + of_nat h * 0x2000"

definition plicinit :: "'a traps_scheme \<Rightarrow> 'a traps_scheme" where
  "plicinit s = mm_write (PLIC + of_nat (VIRTIO0_IRQ * 4)) 1 (mm_write (PLIC + of_nat (UART0_IRQ * 4)) 1 s)"

definition plicinithart :: "'a traps_scheme \<Rightarrow> 'a traps_scheme" where
  "plicinithart s = mm_write (PLIC_SPRIORITY (hart s)) 0
     (mm_write (PLIC_SENABLE (hart s)) (push_bit UART0_IRQ 1 OR push_bit VIRTIO0_IRQ 1) s)"

definition plic_claim :: "'a traps_scheme \<Rightarrow> int \<times> 'a traps_scheme" where
  "plic_claim s = (sint (plic_env (io_st s) (plic_reads (io_st s))),
     s\<lparr>io_st := (io_st s)\<lparr>plic_reads := plic_reads (io_st s) + 1\<rparr>\<rparr>)"

definition plic_complete :: "int \<Rightarrow> 'a traps_scheme \<Rightarrow> 'a traps_scheme" where
  "plic_complete irq s = mm_write (PLIC_SCLAIM (hart s)) (ucast (of_int irq :: uint)) s"

section \<open>Device interrupts (trap.c)\<close>

definition trapinit :: "'a traps_scheme \<Rightarrow> 'a traps_scheme" where
  "trapinit s = initlock TicksLock ''time'' s"

definition trapinithart :: "'a traps_scheme \<Rightarrow> 'a traps_scheme" where
  "trapinithart s = w_stvec (a_kernelvec (syms s)) s"

definition clockintr :: "'a traps_scheme \<Rightarrow> 'a traps_scheme option" where
  "clockintr s = do {
     s \<leftarrow> acquire TicksLock s;
     let s = s\<lparr>ticks := ticks s + 1\<rparr>;
     s \<leftarrow> wakeup TicksChan s;
     release TicksLock s
   }"

definition devintr :: "'a traps_scheme \<Rightarrow> (int \<times> 'a traps_scheme) option" where
  "devintr s =
     (let scause = r_scause s in
      if scause AND 0x8000000000000000 \<noteq> 0 \<and> scause AND 0xff = 9 then do {
        let (irq, s) = plic_claim s;
        s \<leftarrow> (if irq = int UART0_IRQ then uartintr s
          else if irq = int VIRTIO0_IRQ then virtio_disk_intr s
          else if irq \<noteq> 0 then printf (Some (str ''unexpected interrupt irq=%d\<newline>'')) [VInt irq] s
          else Some s);
        Some (1, if irq \<noteq> 0 then plic_complete irq s else s)
      } else if scause = 0x8000000000000001 then do {
        s \<leftarrow> (if hart s = 0 then clockintr s else Some s);
        Some (2, w_sip (r_sip s AND NOT 2) s)
      } else Some (0, s))"

section \<open>Traps (trap.c)\<close>

text \<open>\<open>usertrapret\<close> ends in the jump to \<open>userret\<close>: the argument of that jump, and the state.\<close>

definition usertrapret :: "'a traps_scheme \<Rightarrow> (uint64 \<times> 'a traps_scheme) option" where
  "usertrapret s = do {
     (me, s) \<leftarrow> myproc s;
     p \<leftarrow> me;
     let s = intr_off s;
     let s = w_stvec (TRAMPOLINE + (a_uservec (syms s) - trampoline s)) s;
     let s = tf_set p KernelSatp (r_satp s) s;
     let s = tf_set p KernelSp (p_kstack (proc s p) + PGSIZE) s;
     let s = tf_set p KernelTrap (a_usertrap (syms s)) s;
     let s = tf_set p KernelHartid (r_tp s) s;
     let x = r_sstatus s;
     let x = x AND NOT SSTATUS_SPP;
     let x = x OR SSTATUS_SPIE;
     let s = w_sstatus x s;
     let s = w_sepc (tf_get p Epc s) s;
     Some (MAKE_SATP (p_pagetable (proc s p)), s)
   }"

text \<open>
  How a trap from user space ends: back to user space with a page table, or in the scheduler, because
  the process exited or gave up the processor (\<open>yield_in\<close> and \<open>usertrapret\<close> follow when it runs again).
\<close>

datatype trap_end = ToUser uint64 | Exited | Yielded bool

definition trap_return :: "'a traps_scheme \<Rightarrow> (trap_end \<times> 'a traps_scheme) option" where
  "trap_return s = do { (satp, s) \<leftarrow> usertrapret s; Some (ToUser satp, s) }"

definition trap_exit :: "'a traps_scheme \<Rightarrow> (trap_end \<times> 'a traps_scheme) option" where
  "trap_exit s = do { s \<leftarrow> exit_out (-1) s; Some (Exited, s) }"

text \<open>The end of \<open>usertrap\<close>, after the cause has been dealt with.\<close>

definition usertrap_end :: "nat \<Rightarrow> int \<Rightarrow> 'a traps_scheme \<Rightarrow> (trap_end \<times> 'a traps_scheme) option" where
  "usertrap_end p which_dev s = do {
     (k, s) \<leftarrow> killed p s;
     if k \<noteq> 0 then trap_exit s
     else if which_dev = 2 then do { (ie, s) \<leftarrow> yield_out s; Some (Yielded ie, s) }
     else trap_return s
   }"

definition usertrap_resume :: "nat \<Rightarrow> bool \<Rightarrow> 'a traps_scheme \<Rightarrow> (trap_end \<times> 'a traps_scheme) option" where
  "usertrap_resume p ie s = do { s \<leftarrow> yield_in p ie s; trap_return s }"

definition usertrap :: "'a traps_scheme \<Rightarrow> (trap_end \<times> 'a traps_scheme) option" where
  "usertrap s = do {
     panic_if (r_sstatus s AND SSTATUS_SPP \<noteq> 0) ''usertrap: not from user mode'';
     let s = w_stvec (a_kernelvec (syms s)) s;
     (me, s) \<leftarrow> myproc s;
     p \<leftarrow> me;
     let s = tf_set p Epc (r_sepc s) s;
     if r_scause s = 8 then do {
       (k, s) \<leftarrow> killed p s;
       if k \<noteq> 0 then trap_exit s
       else do {
         let s = tf_set p Epc (tf_get p Epc s + 4) s;
         s \<leftarrow> syscall (intr_on s);
         usertrap_end p 0 s
       }
     } else do {
       (which_dev, s) \<leftarrow> devintr s;
       if which_dev \<noteq> 0 then usertrap_end p which_dev s
       else do {
         s \<leftarrow> printf (Some (str ''usertrap(): unexpected scause %p pid=%d\<newline>'')) [VPtr (r_scause s), VInt (p_pid (proc s p))] s;
         s \<leftarrow> printf (Some (str ''            sepc=%p stval=%p\<newline>'')) [VPtr (r_sepc s), VPtr (r_stval s)] s;
         s \<leftarrow> setkilled p s;
         usertrap_end p 0 s
       }
     }
   }"

text \<open>
  \<open>kerneltrap\<close>. On a timer interrupt of a running process it gives up the processor: \<open>Some\<close>, with the
  saved registers that \<open>kerneltrap_resume\<close> restores.
\<close>

definition kerneltrap_end :: "uint64 \<Rightarrow> uint64 \<Rightarrow> 'a traps_scheme \<Rightarrow> 'a traps_scheme" where
  "kerneltrap_end sepc sstatus s = w_sstatus sstatus (w_sepc sepc s)"

definition kerneltrap_resume :: "nat \<Rightarrow> bool \<Rightarrow> uint64 \<Rightarrow> uint64 \<Rightarrow> 'a traps_scheme \<Rightarrow> 'a traps_scheme option" where
  "kerneltrap_resume p ie sepc sstatus s = do {
     s \<leftarrow> yield_in p ie s;
     Some (kerneltrap_end sepc sstatus s)
   }"

definition kerneltrap :: "'a traps_scheme \<Rightarrow> ((bool \<times> uint64 \<times> uint64) option \<times> 'a traps_scheme) option" where
  "kerneltrap s = do {
     let sepc = r_sepc s;
     let sstatus = r_sstatus s;
     let scause = r_scause s;
     panic_if (sstatus AND SSTATUS_SPP = 0) ''kerneltrap: not from supervisor mode'';
     panic_if (intr_get s) ''kerneltrap: interrupts enabled'';
     (which_dev, s) \<leftarrow> devintr s;
     if which_dev = 0 then do {
       s \<leftarrow> printf (Some (str ''scause %p\<newline>'')) [VPtr scause] s;
       s \<leftarrow> printf (Some (str ''sepc=%p stval=%p\<newline>'')) [VPtr (r_sepc s), VPtr (r_stval s)] s;
       panic ''kerneltrap''
     } else do {
       (me, s) \<leftarrow> myproc s;
       let run = (case me of Some p \<Rightarrow> p_state (proc s p) = RUNNING | None \<Rightarrow> False);
       if which_dev = 2 \<and> run then do {
         (ie, s) \<leftarrow> yield_out s;
         Some (Some (ie, sepc, sstatus), s)
       } else Some (None, kerneltrap_end sepc sstatus s)
     }
   }"

section \<open>The first return to user space (proc.c)\<close>

definition forkret :: "'a traps_scheme \<Rightarrow> (uint64 \<times> 'a traps_scheme) option" where
  "forkret s = do {
     (me, s) \<leftarrow> myproc s;
     p \<leftarrow> me;
     s \<leftarrow> release (ProcLock p) s;
     s \<leftarrow> (if first s then fsinit ROOTDEV (s\<lparr>first := False\<rparr>) else Some s);
     usertrapret s
   }"

section \<open>Booting (start.c, main.c, vm.c)\<close>

definition CLINT :: uint64 where "CLINT = 0x2000000"
definition CLINT_MTIMECMP :: "uint64 \<Rightarrow> uint64" where "CLINT_MTIMECMP h = CLINT + 0x4000 + 8 * h"

text \<open>\<open>timer_scratch\<close> is an array of five words per hart.\<close>

definition timerinit :: "'a traps_scheme \<Rightarrow> 'a traps_scheme" where
  "timerinit s =
     (let i = r_mhartid s;
          interval = 1000000;
          s = mm_write (CLINT_MTIMECMP i) (mtime (io_st s) + interval) s;
          scratch = a_timer_scratch (syms s) + i * 40;
          s = s\<lparr>phys := store64 (scratch + 24) (CLINT_MTIMECMP i) (phys s)\<rparr>;
          s = s\<lparr>phys := store64 (scratch + 32) interval (phys s)\<rparr>;
          s = w_mscratch scratch s;
          s = w_mtvec (a_timervec (syms s)) s;
          s = w_mstatus (r_mstatus s OR MSTATUS_MIE) s
      in w_mie (r_mie s OR MIE_MTIE) s)"

text \<open>\<open>start\<close> up to the \<open>mret\<close> that enters \<open>main\<close>; the hart number in \<open>tp\<close> is the field \<open>hart\<close>.\<close>

definition start :: "'a traps_scheme \<Rightarrow> 'a traps_scheme" where
  "start s =
     (let x = r_mstatus s;
          x = x AND NOT MSTATUS_MPP_MASK;
          x = x OR MSTATUS_MPP_S;
          s = w_mstatus x s;
          s = w_mepc (a_main (syms s)) s;
          s = w_satp 0 s;
          s = w_medeleg 0xffff s;
          s = w_mideleg 0xffff s;
          s = w_sie (r_sie s OR SIE_SEIE OR SIE_STIE OR SIE_SSIE) s;
          s = w_pmpaddr0 0x3fffffffffffff s;
          s = w_pmpcfg0 0xf s
      in timerinit s)"

definition kvminit :: "'a traps_scheme \<Rightarrow> 'a traps_scheme option" where
  "kvminit s = do {
     (pt, s) \<leftarrow> kvmmake (a_etext (syms s)) (trampoline s) s;
     Some (s\<lparr>kernel_pagetable := pt\<rparr>)
   }"

definition kvminithart :: "'a traps_scheme \<Rightarrow> 'a traps_scheme" where
  "kvminithart s = w_satp (MAKE_SATP (kernel_pagetable s)) s"

text \<open>
  \<open>main\<close> up to the call of \<open>scheduler\<close>. A hart other than 0 spins until hart 0 has set \<open>started\<close>.
\<close>

definition main_init :: "'a traps_scheme \<Rightarrow> 'a traps_scheme option" where
  "main_init s =
     (if hart s = 0 then do {
        let s = consoleinit s;
        let s = printfinit s;
        s \<leftarrow> printf (Some (str ''\<newline>'')) [] s;
        s \<leftarrow> printf (Some (str ''xv6 kernel is booting\<newline>'')) [] s;
        s \<leftarrow> printf (Some (str ''\<newline>'')) [] s;
        s \<leftarrow> kinit s;
        s \<leftarrow> kvminit s;
        let s = kvminithart s;
        let s = procinit s;
        let s = trapinit s;
        let s = trapinithart s;
        let s = plicinit s;
        let s = plicinithart s;
        let s = binit s;
        let s = iinit s;
        let s = fileinit s;
        s \<leftarrow> virtio_disk_init s;
        s \<leftarrow> userinit (a_initcode (syms s)) s;
        Some (s\<lparr>started := True\<rparr>)
      } else if \<not> started s then None
      else do {
        s \<leftarrow> printf (Some (str ''hart %d starting\<newline>'')) [VInt (int (hart s))] s;
        let s = kvminithart s;
        let s = trapinithart s;
        Some (plicinithart s)
      })"

end
