(* ===== verification/ListHead.thy ===== *)
theory ListHead
  imports Prelude
begin

text \<open>
  kernel/list.c: circular doubly linked lists with a head node (\<open>struct list_head\<close> of proc.h, used
  for the run queue). The nodes are pointers of an arbitrary type; \<open>dll h head xs\<close> says that the
  nodes hanging off \<open>head\<close> are \<open>xs\<close> in order, and each operation is shown to act on \<open>xs\<close>.
\<close>

section \<open>Operations\<close>

record 'p list_heap =
  nxt :: "'p \<Rightarrow> 'p"
  prv :: "'p \<Rightarrow> 'p"

definition set_next :: "'p \<Rightarrow> 'p \<Rightarrow> 'p list_heap \<Rightarrow> 'p list_heap" where
  "set_next p q h = h\<lparr>nxt := (nxt h)(p := q)\<rparr>"

definition set_prev :: "'p \<Rightarrow> 'p \<Rightarrow> 'p list_heap \<Rightarrow> 'p list_heap" where
  "set_prev p q h = h\<lparr>prv := (prv h)(p := q)\<rparr>"

definition init_list_head :: "'p \<Rightarrow> 'p list_heap \<Rightarrow> 'p list_heap" where
  "init_list_head l h = set_prev l l (set_next l l h)"

definition list_add_between :: "'p \<Rightarrow> 'p \<Rightarrow> 'p \<Rightarrow> 'p list_heap \<Rightarrow> 'p list_heap" where
  "list_add_between new prev next h =
     (let h = set_prev next new h;
          h = set_next new next h;
          h = set_prev new prev h
      in set_next prev new h)"

definition list_del_between :: "'p \<Rightarrow> 'p \<Rightarrow> 'p list_heap \<Rightarrow> 'p list_heap" where
  "list_del_between prev next h = (let h = set_prev next prev h in set_next prev next h)"

definition list_add :: "'p \<Rightarrow> 'p \<Rightarrow> 'p list_heap \<Rightarrow> 'p list_heap" where
  "list_add head new h = list_add_between new head (nxt h head) h"

definition list_add_tail :: "'p \<Rightarrow> 'p \<Rightarrow> 'p list_heap \<Rightarrow> 'p list_heap" where
  "list_add_tail head new h = list_add_between new (prv h head) head h"

definition list_del :: "'p \<Rightarrow> 'p list_heap \<Rightarrow> 'p list_heap" where
  "list_del entry h =
     (let h = list_del_between (prv h entry) (nxt h entry) h;
          h = set_next entry entry h
      in set_prev entry (nxt h entry) h)"

definition list_del_init :: "'p \<Rightarrow> 'p list_heap \<Rightarrow> 'p list_heap" where
  "list_del_init entry h =
     init_list_head entry (list_del_between (prv h entry) (nxt h entry) h)"

section \<open>The list a head node represents\<close>

fun seg :: "'p list_heap \<Rightarrow> 'p \<Rightarrow> 'p list \<Rightarrow> 'p \<Rightarrow> bool" where
  "seg h a [] b \<longleftrightarrow> nxt h a = b \<and> prv h b = a"
| "seg h a (x # xs) b \<longleftrightarrow> nxt h a = x \<and> prv h x = a \<and> seg h x xs b"

definition dll :: "'p list_heap \<Rightarrow> 'p \<Rightarrow> 'p list \<Rightarrow> bool" where
  "dll h head xs \<longleftrightarrow> distinct (head # xs) \<and> seg h head xs head"

lemma field_simps_heap [simp]:
  "nxt (set_next p q h) = (nxt h)(p := q)" "prv (set_next p q h) = prv h"
  "prv (set_prev p q h) = (prv h)(p := q)" "nxt (set_prev p q h) = nxt h"
  by (simp_all add: set_next_def set_prev_def)

lemma seg_append: "seg h a (xs @ y # ys) b \<longleftrightarrow> seg h a xs y \<and> seg h y ys b"
  by (induction xs arbitrary: a) auto

lemma seg_first: "seg h a xs b \<Longrightarrow> nxt h a = hd (xs @ [b])"
  by (cases xs) auto

lemma seg_last: "seg h a xs b \<Longrightarrow> prv h b = last (a # xs)"
  by (induction xs arbitrary: a) auto

text \<open>Only the links that leave a node of the segment matter.\<close>

lemma seg_cong:
  "(\<And>p. p \<in> insert a (set xs) \<Longrightarrow> nxt h' p = nxt h p) \<Longrightarrow>
   (\<And>p. p \<in> insert b (set xs) \<Longrightarrow> prv h' p = prv h p) \<Longrightarrow> seg h' a xs b = seg h a xs b"
  by (induction xs arbitrary: a) auto

lemma add_between_seg:
  assumes "seg h a (xs @ ys) b" "new \<notin> {a, b} \<union> set xs \<union> set ys" "distinct (xs @ ys)"
    "a \<notin> set xs \<union> set ys" "b \<notin> set xs \<union> set ys"
  shows "seg (list_add_between new (last (a # xs)) (hd (ys @ [b])) h) a (xs @ new # ys) b"
proof -
  define l r where "l = last (a # xs)" and "r = hd (ys @ [b])"
  define h' where "h' = list_add_between new l r h"
  have h': "nxt h' = (nxt h)(new := r, l := new)" "prv h' = (prv h)(r := new, new := l)"
    by (auto simp: h'_def list_add_between_def Let_def)
  have ln: "l \<noteq> new"
    using assms(2) by (cases xs rule: rev_cases) (auto simp: l_def)
  have "seg h' a xs new"
  proof (cases xs rule: rev_cases)
    case Nil
    then show ?thesis using assms(2) by (simp add: h' l_def)
  next
    case (snoc zs z)
    have l: "l = z" by (simp add: l_def snoc)
    have r: "r \<notin> set xs" using assms(3,5) by (cases ys) (auto simp: r_def)
    have "seg h a zs z" using assms(1) by (simp add: snoc seg_append)
    then have "seg h' a zs z"
      using assms(2-4) r by (subst seg_cong [where h = h]) (auto simp: h' l snoc)
    then show ?thesis using assms(2) by (simp add: snoc seg_append h' l)
  qed
  moreover have "seg h' new ys b"
  proof (cases ys)
    case Nil
    then show ?thesis using assms(2) by (auto simp: h' r_def l_def)
  next
    case (Cons z zs)
    have r: "r = z" by (simp add: r_def Cons)
    have l: "l \<notin> set ys" using assms(3,4) by (auto simp: l_def dest: last_in_set)
    have "seg h z zs b" using assms(1) by (simp add: Cons seg_append)
    then have "seg h' z zs b"
      using assms(2,3,5) l by (subst seg_cong [where h = h]) (auto simp: h' r Cons)
    then show ?thesis using assms(2) l ln by (auto simp: Cons h' r)
  qed
  ultimately show ?thesis by (simp add: seg_append h'_def l_def r_def)
qed

lemma del_between_seg:
  assumes "seg h a (xs @ e # ys) b" "distinct (xs @ e # ys)" "a \<notin> set (xs @ e # ys)" "b \<notin> set (xs @ e # ys)"
  shows "seg (list_del_between (last (a # xs)) (hd (ys @ [b])) h) a (xs @ ys) b"
proof -
  define l r where "l = last (a # xs)" and "r = hd (ys @ [b])"
  define h' where "h' = list_del_between l r h"
  have h': "nxt h' = (nxt h)(l := r)" "prv h' = (prv h)(r := l)"
    by (auto simp: h'_def list_del_between_def Let_def)
  have lr: "l \<notin> set ys" "r \<notin> set xs"
    using assms(2-4) by (auto simp: l_def dest: last_in_set) (cases ys; auto simp: r_def)+
  have s: "seg h a xs e" "seg h e ys b" using assms(1) by (auto simp: seg_append)
  have left: "seg h' a xs r"
  proof (cases xs rule: rev_cases)
    case Nil
    then show ?thesis by (simp add: h' l_def)
  next
    case (snoc zs z)
    have "seg h a zs z" using s(1) by (simp add: snoc seg_append)
    then have "seg h' a zs z"
      using assms(2,3) lr by (subst seg_cong [where h = h]) (auto simp: h' l_def snoc)
    then show ?thesis by (simp add: snoc seg_append h' l_def)
  qed
  show ?thesis
  proof (cases ys)
    case Nil
    with left show ?thesis by (simp add: h'_def l_def r_def)
  next
    case (Cons z zs)
    have "seg h z zs b" using s(2) by (simp add: Cons)
    then have "seg h' z zs b"
      using assms(2,4) lr by (subst seg_cong [where h = h]) (auto simp: h' r_def Cons)
    with left show ?thesis by (simp add: Cons seg_append h'_def l_def r_def)
  qed
qed

lemma list_del_eq: "list_del_init = list_del"
  by (simp add: fun_eq_iff list_del_init_def list_del_def init_list_head_def Let_def)

lemma dll_init: "dll (init_list_head l h) l []"
  by (simp add: dll_def init_list_head_def)

text \<open>
  C39. The insertions of list.c put the new node where they say. If the nodes hanging off \<open>head\<close>
  are \<open>xs\<close> in order and \<open>new\<close> is not among them, then afterwards they are \<open>new # xs\<close> for
  list_add() and \<open>xs @ [new]\<close> for list_add_tail(), correctly linked in both directions.
\<close>

theorem list_insertions:
  assumes "dll h head xs" "new \<noteq> head" "new \<notin> set xs"
  shows "dll (list_add head new h) head (new # xs) \<and> dll (list_add_tail head new h) head (xs @ [new])"
proof
  have s: "seg h head xs head" "distinct xs" "head \<notin> set xs" using assms(1) by (auto simp: dll_def)
  have "seg (list_add_between new (last [head]) (hd (xs @ [head])) h) head ([] @ new # xs) head"
    by (rule add_between_seg) (use assms s in auto)
  then show "dll (list_add head new h) head (new # xs)"
    using assms s seg_first [OF s(1)] by (simp add: dll_def list_add_def)
  have "seg (list_add_between new (last (head # xs)) (hd ([] @ [head])) h) head (xs @ new # []) head"
    by (rule add_between_seg) (use assms s in auto)
  then show "dll (list_add_tail head new h) head (xs @ [new])"
    using assms s seg_last [OF s(1)] by (simp add: dll_def list_add_tail_def del: last.simps)
qed

definition ring3 :: "nat list_heap" where
  "ring3 = \<lparr>nxt = (\<lambda>p. if p = 0 then 1 else if p = 1 then 2 else 0),
     prv = (\<lambda>p. if p = 0 then 2 else if p = 1 then 0 else 1)\<rparr>"

lemma list_insertions_witness:
  "dll ring3 0 [1, 2] \<and> dll (list_add 0 3 ring3) 0 [3, 1, 2] \<and> dll (list_add_tail 0 3 ring3) 0 [1, 2, 3]"
proof -
  have "dll ring3 0 [1, 2]" by (simp add: dll_def ring3_def)
  then show ?thesis using list_insertions [of ring3 0 "[1, 2]" 3] by simp
qed

text \<open>
  C40. Deletion unlinks exactly the entry. If the list off \<open>head\<close> is \<open>ys @ entry # zs\<close>, then after
  list_del(entry) it is \<open>ys @ zs\<close>, and the entry is left as an empty list of its own, so that
  deleting it again changes nothing.
\<close>

theorem list_del_unlinks:
  assumes "dll h head (ys @ entry # zs)"
  shows "dll (list_del entry h) head (ys @ zs) \<and> dll (list_del entry h) entry [] \<and>
    list_del entry (list_del entry h) = list_del entry h"
proof -
  have s: "seg h head (ys @ entry # zs) head" "distinct (ys @ entry # zs)" "head \<notin> set (ys @ entry # zs)"
    using assms by (auto simp: dll_def)
  define h1 where "h1 = list_del_between (prv h entry) (nxt h entry) h"
  have ends: "prv h entry = last (head # ys)" "nxt h entry = hd (zs @ [head])"
    using seg_last [of h head ys entry] seg_first [of h entry zs head] s(1) by (auto simp: seg_append)
  have "seg h1 head (ys @ zs) head"
    unfolding h1_def ends by (rule del_between_seg) (use s in auto)
  moreover have d: "list_del entry h = set_prev entry entry (set_next entry entry h1)"
    by (simp add: list_del_def h1_def Let_def)
  ultimately have "seg (list_del entry h) head (ys @ zs) head"
    using s(2,3) by (subst seg_cong [where h = h1]) auto
  moreover have "list_del entry (list_del entry h) = list_del entry h"
    by (simp add: d list_del_def list_del_between_def set_next_def set_prev_def Let_def)
  ultimately show ?thesis using s by (simp add: dll_def d)
qed

lemma list_del_unlinks_witness:
  "dll ring3 0 ([1] @ 2 # []) \<and> dll (list_del 2 ring3) 0 [1] \<and> dll (list_del 2 ring3) 2 []"
proof -
  have "dll ring3 0 ([1] @ 2 # [])" by (simp add: dll_def ring3_def)
  then show ?thesis using list_del_unlinks [of ring3 0 "[1]" 2 "[]"] by simp
qed

end
