(* ===== verification/Cache.thy ===== *)
theory Cache
  imports Bio ListHead
begin

text \<open>
  What the buffer cache of Bio promises. First the closed forms of its operations on a machine on
  which nobody is in a critical section, then the cache as a function from block numbers to
  contents, reference counts and locks, which the operations refine.
\<close>

section \<open>Sleep locks without contention\<close>

definition only_woken :: "(nat \<Rightarrow> proc) \<Rightarrow> (nat \<Rightarrow> proc) \<Rightarrow> bool" where
  "only_woken pr pr' \<longleftrightarrow> (\<forall>q. pr' q = pr q \<or> p_state (pr q) = SLEEPING \<and> pr' q = (pr q)\<lparr>p_state := RUNNABLE\<rparr>)"

lemma only_woken_refl [simp]: "only_woken pr pr"
  by (simp add: only_woken_def)

lemma only_woken_woken [simp]: "only_woken pr (woken ps me ch pr)"
  by (simp add: only_woken_def woken_def)

lemma only_woken_trans: "only_woken a b \<Longrightarrow> only_woken b c \<Longrightarrow> only_woken a c"
  unfolding only_woken_def by (metis (no_types, lifting) procstate.distinct(1) proc.simps(1) procstate.simps proc.select_convs(1) proc.ext_inject proc.surjective proc.update_convs(1))

lemma only_woken_pid: "only_woken a b \<Longrightarrow> p_pid (b q) = p_pid (a q)"
  unfolding only_woken_def by (metis proc.select_convs(5) proc.surjective proc.update_convs(1))

lemma acquiresleep_eq:
  assumes "cpu_ok s" "free (SleepLk i) s" "cpu_proc s (hart s) = Some p" "\<not> sl_locked (slk s i)"
  shows "acquiresleep i s = Some ((settle s)\<lparr>slk := (slk s)(i := (slk s i)\<lparr>sl_locked := True, sl_pid := p_pid (proc s p)\<rparr>)\<rparr>)"
  using assms by (simp add: acquiresleep_def upd_slk_def)

lemma holdingsleep_eq:
  assumes "cpu_ok s" "free (SleepLk i) s" "cpu_proc s (hart s) = Some p"
  shows "holdingsleep i s = Some (sl_locked (slk s i) \<and> sl_pid (slk s i) = p_pid (proc s p), settle s)"
  using assms by (simp add: holdingsleep_def)

lemma releasesleep_eq:
  assumes "cpu_ok s" "free (SleepLk i) s" "others_free s"
  shows "releasesleep i s = Some ((settle s)\<lparr>proc := woken {..<NPROC} (cpu_proc s (hart s)) (SleepChan i) (proc s),
    slk := (slk s)(i := (slk s i)\<lparr>sl_locked := False, sl_pid := 0\<rparr>)\<rparr>)"
proof -
  let ?t = "upd_slk i (\<lambda>l. l\<lparr>sl_locked := False, sl_pid := 0\<rparr>) (acquired (SleepLk i) s)"
  have "wakeup (SleepChan i) ?t = Some (?t\<lparr>proc := woken {..<NPROC} (cpu_proc s (hart s)) (SleepChan i) (proc s)\<rparr>)"
    using wakeup_inside [of ?t "SleepChan i"] assms by (simp add: others_free_def upd_slk_def)
  then show ?thesis using assms by (simp add: releasesleep_def upd_slk_def)
qed

section \<open>Runs of disk and cache operations\<close>

text \<open>
  \<open>quiet p s\<close>: process \<open>p\<close> runs, nobody is in a critical section, the disk driver is idle and its
  device serves. \<open>bio_to s sl d bf t\<close>: from \<open>s\<close> to \<open>t\<close> only the sleep locks, the disk and the buffers
  changed, to the ones given, besides the driver's own state and processes that were woken.
\<close>

definition quiet :: "nat \<Rightarrow> 'a disks_scheme \<Rightarrow> bool" where
  "quiet p s \<longleftrightarrow> cpu_ok s \<and> (\<forall>lk. free lk s) \<and> cpu_proc s (hart s) = Some p \<and> vd_idle (vd s) \<and> serves (device s)"

definition bio_to :: "'a disks_scheme \<Rightarrow> (sleeplock_id \<Rightarrow> sleeplock) \<Rightarrow> platter \<Rightarrow> (nat \<Rightarrow> buf) \<Rightarrow> 'a disks_scheme \<Rightarrow> bool" where
  "bio_to s sl d bf t \<longleftrightarrow> (\<exists>pr m v. t = (settle s)\<lparr>proc := pr, slk := sl, mmio_st := m, vd := v, disk := d, bufs := bf\<rparr> \<and>
     vd_idle v \<and> only_woken (proc s) pr)"

lemma quietD:
  assumes "quiet p s"
  shows "cpu_ok s" "free lk s" "cpu_proc s (hart s) = Some p" "vd_idle (vd s)" "serves (device s)" "others_free s"
    "\<forall>p<NPROC. free (ProcLock p) s" "myproc s = Some (Some p, settle s)"
  using assms by (simp_all add: quiet_def others_free_def)

lemma bio_to_fields:
  assumes "bio_to s sl d bf t"
  shows "slk t = sl" "disk t = d" "bufs t = bf" "settle t = t" "hart t = hart s" "p_pid (proc t q) = p_pid (proc s q)"
    "only_woken (proc s) (proc t)"
  using assms only_woken_pid by (auto simp: bio_to_def)

lemma bio_to_quiet: "bio_to s sl d bf t \<Longrightarrow> quiet p s \<Longrightarrow> quiet p t"
  by (auto simp: bio_to_def quiet_def)

lemma bio_toI:
  "vd_idle v \<Longrightarrow> only_woken (proc s) pr \<Longrightarrow>
   bio_to s sl d bf ((settle s)\<lparr>proc := pr, slk := sl, mmio_st := m, vd := v, disk := d, bufs := bf\<rparr>)"
  unfolding bio_to_def by blast

lemma bio_to_trans:
  assumes "bio_to s sl d bf t" "bio_to t sl' d' bf' u"
  shows "bio_to s sl' d' bf' u"
proof -
  obtain pr m v where t: "t = (settle s)\<lparr>proc := pr, slk := sl, mmio_st := m, vd := v, disk := d, bufs := bf\<rparr>"
    "only_woken (proc s) pr" using assms(1) by (auto simp: bio_to_def)
  obtain pr' m' v' where u: "u = (settle t)\<lparr>proc := pr', slk := sl', mmio_st := m', vd := v', disk := d', bufs := bf'\<rparr>"
    "vd_idle v'" "only_woken (proc t) pr'" using assms(2) by (auto simp: bio_to_def)
  have "u = (settle s)\<lparr>proc := pr', slk := sl', mmio_st := m', vd := v', disk := d', bufs := bf'\<rparr>"
    by (rule disks.equality) (simp_all add: u(1) t(1))
  moreover have "only_woken (proc s) pr'" using u(3) t by (auto intro: only_woken_trans)
  ultimately show ?thesis using u(2) unfolding bio_to_def by blast
qed

lemma bio_to_settle:
  assumes "quiet p s"
  shows "bio_to s (slk s) (disk s) (bufs s) (settle s)"
proof -
  have "settle s = (settle s)\<lparr>proc := proc s, slk := slk s, mmio_st := mmio_st s, vd := vd s, disk := disk s, bufs := bufs s\<rparr>"
    by (rule disks.equality) simp_all
  then show ?thesis using assms unfolding bio_to_def quiet_def by (metis only_woken_refl)
qed

lemma bio_to_upd:
  assumes "quiet p s" "only_woken (proc s) pr"
  shows "bio_to s sl (disk s) bf ((settle s)\<lparr>proc := pr, slk := sl, bufs := bf\<rparr>)"
proof -
  have "(settle s)\<lparr>proc := pr, slk := sl, bufs := bf\<rparr> =
      (settle s)\<lparr>proc := pr, slk := sl, mmio_st := mmio_st s, vd := vd s, disk := disk s, bufs := bf\<rparr>"
    by (rule disks.equality) simp_all
  then show ?thesis using assms unfolding bio_to_def quiet_def by metis
qed

lemma virtio_bio:
  assumes "quiet p s"
  shows "\<exists>t. virtio_disk_rw b wr s = Some t \<and> bio_to s (slk s)
    (if wr then (disk s)\<lparr>sectors := (sectors (disk s))(block_sector (blockno (bufs s b)) := b_data (bufs s b)),
       writes := writes (disk s) @ [(block_sector (blockno (bufs s b)), b_data (bufs s b))]\<rparr> else disk s)
    ((bufs s)(b := (bufs s b)\<lparr>b_disk := False,
       b_data := (if wr then b_data (bufs s b) else sectors (disk s) (block_sector (blockno (bufs s b))))\<rparr>)) t"
proof -
  note q = quietD [OF assms]
  let ?pr = "woken {..<NPROC} (cpu_proc s (hart s)) DiskFreeChan (woken {..<NPROC} (cpu_proc s (hart s)) (DiskBufChan b) (proc s))"
  obtain m v where e: "virtio_disk_rw b wr s = Some (vout s ?pr m v
      (if wr then (disk s)\<lparr>sectors := (sectors (disk s))(block_sector (blockno (bufs s b)) := b_data (bufs s b)),
         writes := writes (disk s) @ [(block_sector (blockno (bufs s b)), b_data (bufs s b))]\<rparr> else disk s)
      ((bufs s)(b := (bufs s b)\<lparr>b_disk := False,
         b_data := (if wr then b_data (bufs s b) else sectors (disk s) (block_sector (blockno (bufs s b))))\<rparr>)))" "vd_idle v"
    using virtio_rw_eq [OF q(1,2,7,4,5), of b wr] by auto
  have w: "only_woken (proc s) ?pr" by (rule only_woken_trans [of _ "woken {..<NPROC} (cpu_proc s (hart s)) (DiskBufChan b) (proc s)"]) simp_all
  have v: "vout s pr m v d bf = (settle s)\<lparr>proc := pr, slk := slk s, mmio_st := m, vd := v, disk := d, bufs := bf\<rparr>" for pr d bf
    by (rule disks.equality) (simp_all add: vout_def)
  show ?thesis unfolding e(1) v by (rule exI, rule conjI, rule refl) (rule bio_toI [OF e(2) w])
qed

lemma bwrite_eq:
  assumes "quiet p s" "sl_locked (slk s (BufSleep b))" "sl_pid (slk s (BufSleep b)) = p_pid (proc s p)" "\<not> b_disk (bufs s b)"
  shows "\<exists>t. bwrite b s = Some t \<and> bio_to s (slk s) ((disk s)\<lparr>
      sectors := (sectors (disk s))(block_sector (blockno (bufs s b)) := b_data (bufs s b)),
      writes := writes (disk s) @ [(block_sector (blockno (bufs s b)), b_data (bufs s b))]\<rparr>) (bufs s) t"
proof -
  have same: "(bufs s)(b := (bufs s b)\<lparr>b_disk := False\<rparr>) = bufs s" using assms(4) by (intro ext) (cases "bufs s b", simp)
  note q = quietD [OF assms(1)] and st = bio_to_settle [OF assms(1)]
  obtain t where "virtio_disk_rw b True (settle s) = Some t" and t: "bio_to (settle s) (slk s) ((disk s)\<lparr>
      sectors := (sectors (disk s))(block_sector (blockno (bufs s b)) := b_data (bufs s b)),
      writes := writes (disk s) @ [(block_sector (blockno (bufs s b)), b_data (bufs s b))]\<rparr>) (bufs s) t"
    using virtio_bio [OF bio_to_quiet [OF st assms(1)], of b True] by (auto simp: same)
  then have "bwrite b s = Some t" using assms(2,3) holdingsleep_eq [OF q(1,2,3)] by (simp add: bwrite_def)
  then show ?thesis using bio_to_trans [OF st t] by blast
qed

section \<open>The list of buffers\<close>

definition links :: "(nat \<Rightarrow> buf) \<Rightarrow> nat list_heap" where
  "links bf = \<lparr>nxt = (\<lambda>b. b_next (bf b)), prv = (\<lambda>b. b_prev (bf b))\<rparr>"

text \<open>\<open>lru bf bs\<close>: the buffers, from the most to the least recently released, are \<open>bs\<close>.\<close>

definition lru :: "(nat \<Rightarrow> buf) \<Rightarrow> nat list \<Rightarrow> bool" where
  "lru bf bs \<longleftrightarrow> dll (links bf) HEAD bs \<and> set bs = {..<NBUF}"

definition core :: "buf \<Rightarrow> buf" where
  "core x = x\<lparr>b_prev := 0, b_next := 0\<rparr>"

lemma core_fields:
  assumes "core x = core y"
  shows "valid_b x = valid_b y" "b_disk x = b_disk y" "b_dev x = b_dev y" "blockno x = blockno y" "refcnt x = refcnt y" "b_data x = b_data y"
  using assms by (simp_all add: core_def) (metis buf.select_convs buf.surjective buf.update_convs(6,7))+

definition push_b :: "nat \<Rightarrow> (nat \<Rightarrow> buf) \<Rightarrow> nat \<Rightarrow> buf" where
  "push_b b bf =
     (let bf = bf(b := (bf b)\<lparr>b_next := b_next (bf HEAD)\<rparr>);
          bf = bf(b := (bf b)\<lparr>b_prev := HEAD\<rparr>);
          n = b_next (bf HEAD);
          bf = bf(n := (bf n)\<lparr>b_prev := b\<rparr>)
      in bf(HEAD := (bf HEAD)\<lparr>b_next := b\<rparr>))"

definition unlink_b :: "nat \<Rightarrow> (nat \<Rightarrow> buf) \<Rightarrow> nat \<Rightarrow> buf" where
  "unlink_b b bf =
     (let n = b_next (bf b);
          bf = bf(n := (bf n)\<lparr>b_prev := b_prev (bf b)\<rparr>);
          p = b_prev (bf b)
      in bf(p := (bf p)\<lparr>b_next := b_next (bf b)\<rparr>))"

lemma bpush_eq: "bpush b s = s\<lparr>bufs := push_b b (bufs s)\<rparr>"
  by (simp add: bpush_def push_b_def upd_buf_def Let_def)

lemma bunlink_eq: "bunlink b s = s\<lparr>bufs := unlink_b b (bufs s)\<rparr>"
  by (simp add: bunlink_def unlink_b_def upd_buf_def Let_def)

lemma core_push [simp]: "core (push_b b bf i) = core (bf i)" "core (unlink_b b bf i) = core (bf i)"
  by (simp_all add: push_b_def unlink_b_def core_def Let_def)

lemma links_push: "b \<noteq> HEAD \<Longrightarrow> b \<noteq> nxt (links bf) HEAD \<Longrightarrow>
    links (push_b b bf) = list_add_between b HEAD (nxt (links bf) HEAD) (links bf)"
  by (auto simp: links_def push_b_def list_add_between_def set_next_def set_prev_def Let_def fun_eq_iff)

lemma links_unlink: "b \<noteq> nxt (links bf) b \<Longrightarrow>
    links (unlink_b b bf) = list_del_between (prv (links bf) b) (nxt (links bf) b) (links bf)"
  by (auto simp: links_def unlink_b_def list_del_between_def set_next_def set_prev_def Let_def fun_eq_iff)

lemma lru_move:
  assumes "lru bf bs" "b < NBUF"
  shows "lru (push_b b (unlink_b b bf)) (b # remove1 b bs)"
proof -
  have d: "distinct bs" "HEAD \<notin> set bs" "seg (links bf) HEAD bs HEAD" "set bs = {..<NBUF}"
    using assms(1) by (auto simp: lru_def dll_def)
  then obtain xs ys where bs: "bs = xs @ b # ys" using assms(2) by (metis lessThan_iff split_list)
  have n: "b \<noteq> HEAD" "b \<notin> set xs" "b \<notin> set ys" "HEAD \<notin> set xs" "HEAD \<notin> set ys" using d bs assms(2) by auto
  let ?n = "nxt (links bf) b" and ?p = "prv (links bf) b"
  have s: "seg (links bf) HEAD xs b" "seg (links bf) b ys HEAD" using d(3) by (auto simp: bs seg_append)
  have np: "?n = hd (ys @ [HEAD])" "?p = last (HEAD # xs)" using seg_first [OF s(2)] seg_last [OF s(1)] by auto
  have "b \<noteq> ?n" using n np by (cases ys) auto
  then have u: "links (unlink_b b bf) = list_del_between (last (HEAD # xs)) (hd (ys @ [HEAD])) (links bf)"
    using links_unlink np by simp
  have s1: "seg (links (unlink_b b bf)) HEAD (xs @ ys) HEAD"
    unfolding u using d bs by (intro del_between_seg) auto
  have h: "nxt (links (unlink_b b bf)) HEAD = hd (xs @ ys @ [HEAD])" using seg_first [OF s1] by simp
  then have "b \<noteq> nxt (links (unlink_b b bf)) HEAD" using n by (cases xs; cases ys) auto
  then have "links (push_b b (unlink_b b bf)) = list_add_between b (last (HEAD # [])) (hd ((xs @ ys) @ [HEAD])) (links (unlink_b b bf))"
    using links_push n(1) h by simp
  then have "seg (links (push_b b (unlink_b b bf))) HEAD ([] @ b # (xs @ ys)) HEAD"
    using add_between_seg [of "links (unlink_b b bf)" HEAD "[]" "xs @ ys" HEAD b] s1 d bs n by auto
  then show ?thesis using d bs n by (auto simp: lru_def dll_def remove1_append)
qed

lemma bget_cached_eq:
  assumes "seg (links (bufs s)) a xs HEAD" "HEAD \<notin> set xs"
  shows "bget_cached dev bno (b_next (bufs s a)) s = Some (find (\<lambda>b. b_dev (bufs s b) = dev \<and> blockno (bufs s b) = bno) xs)"
  using assms
proof (induction xs arbitrary: a)
  case Nil
  then show ?case by (subst bget_cached.simps) (simp add: links_def)
next
  case (Cons x xs)
  then have "b_next (bufs s a) = x" "x \<noteq> HEAD" by (auto simp: links_def)
  then show ?case using Cons by (subst bget_cached.simps) (auto simp: links_def)
qed

lemma bget_unused_eq:
  assumes "seg (links (bufs s)) HEAD xs a" "HEAD \<notin> set xs"
  shows "bget_unused (b_prev (bufs s a)) s = Some (find (\<lambda>b. refcnt (bufs s b) = 0) (rev xs))"
  using assms
proof (induction xs arbitrary: a rule: rev_induct)
  case Nil
  then show ?case by (subst bget_unused.simps) (simp add: links_def)
next
  case (snoc x xs)
  then have "b_prev (bufs s a) = x" "x \<noteq> HEAD" "seg (links (bufs s)) HEAD xs x" by (auto simp: links_def seg_append)
  then show ?case using snoc by (subst bget_unused.simps) auto
qed

section \<open>Closed forms of the operations\<close>

definition is_blk :: "(nat \<Rightarrow> buf) \<Rightarrow> uint \<Rightarrow> uint \<Rightarrow> nat \<Rightarrow> bool" where
  "is_blk bf dv bno b \<longleftrightarrow> b_dev (bf b) = dv \<and> blockno (bf b) = bno"

definition take_lock :: "nat \<Rightarrow> int \<Rightarrow> (sleeplock_id \<Rightarrow> sleeplock) \<Rightarrow> sleeplock_id \<Rightarrow> sleeplock" where
  "take_lock b pid sl = sl(BufSleep b := (sl (BufSleep b))\<lparr>sl_locked := True, sl_pid := pid\<rparr>)"

definition drop_lock :: "nat \<Rightarrow> (sleeplock_id \<Rightarrow> sleeplock) \<Rightarrow> sleeplock_id \<Rightarrow> sleeplock" where
  "drop_lock b sl = sl(BufSleep b := (sl (BufSleep b))\<lparr>sl_locked := False, sl_pid := 0\<rparr>)"

lemma refcnt_up: "refcnt_update (\<lambda>n. n + 1) x = x\<lparr>refcnt := refcnt x + 1\<rparr>" "refcnt_update (\<lambda>n. n - 1) x = x\<lparr>refcnt := refcnt x - 1\<rparr>"
  by (cases x, simp)+

definition bget_pick :: "(nat \<Rightarrow> buf) \<Rightarrow> nat list \<Rightarrow> uint \<Rightarrow> uint \<Rightarrow> (nat \<times> (nat \<Rightarrow> buf)) option" where
  "bget_pick bf bs dv bno =
     (case find (is_blk bf dv bno) bs of
        Some b \<Rightarrow> Some (b, bf(b := (bf b)\<lparr>refcnt := refcnt (bf b) + 1\<rparr>))
      | None \<Rightarrow> (case find (\<lambda>b. refcnt (bf b) = 0) (rev bs) of
          Some b \<Rightarrow> Some (b, bf(b := (bf b)\<lparr>b_dev := dv, blockno := bno, valid_b := False, refcnt := 1\<rparr>))
        | None \<Rightarrow> None))"

lemma bget_eq:
  assumes "quiet p s" "lru (bufs s) bs" "bget_pick (bufs s) bs dv bno = Some (b, bf)" "\<not> sl_locked (slk s (BufSleep b))"
  shows "\<exists>t. bget dv bno s = Some (b, t) \<and> bio_to s (take_lock b (p_pid (proc s p)) (slk s)) (disk s) bf t"
proof -
  note q = quietD [OF assms(1)]
  let ?s = "acquired BcacheLock s"
  have sg: "seg (links (bufs ?s)) HEAD bs HEAD" "HEAD \<notin> set bs" using assms(2) by (auto simp: lru_def dll_def)
  note cached = bget_cached_eq [OF sg, of dv bno, folded is_blk_def]
  note unused = bget_unused_eq [OF sg]
  let ?t = "(settle s)\<lparr>proc := proc s, slk := take_lock b (p_pid (proc s p)) (slk s), bufs := bf\<rparr>"
  have st: "(settle s)\<lparr>slk := take_lock b (p_pid (proc s p)) (slk s), bufs := bf\<rparr> = ?t"
    by (rule disks.equality) simp_all
  have "bget dv bno s = Some (b, ?t)"
  proof (cases "find (is_blk (bufs s) dv bno) bs")
    case (Some b')
    then have "b' = b" "bf = (bufs s)(b := (bufs s b)\<lparr>refcnt := refcnt (bufs s b) + 1\<rparr>)"
      using assms(3) by (auto simp: bget_pick_def)
    then show ?thesis using Some cached q(1-3) assms(4) unfolding st [symmetric]
      by (simp add: bget_def upd_buf_def acquiresleep_eq take_lock_def is_blk_def [abs_def] refcnt_up)
  next
    case None
    then obtain b' where b': "find (\<lambda>b. refcnt (bufs s b) = 0) (rev bs) = Some b'"
      using assms(3) by (auto simp: bget_pick_def split: option.splits)
    then have "b' = b" "bf = (bufs s)(b := (bufs s b)\<lparr>b_dev := dv, blockno := bno, valid_b := False, refcnt := 1\<rparr>)"
      using None assms(3) by (auto simp: bget_pick_def)
    then show ?thesis using None b' cached unused q(1-3) assms(4) unfolding st [symmetric]
      by (simp add: bget_def upd_buf_def acquiresleep_eq take_lock_def is_blk_def [abs_def] refcnt_up)
  qed
  then show ?thesis using bio_to_upd [OF assms(1) only_woken_refl] by blast
qed

lemma bread_eq:
  assumes "quiet p s" "lru (bufs s) bs" "bget_pick (bufs s) bs dv bno = Some (b, bf)" "\<not> sl_locked (slk s (BufSleep b))"
  shows "\<exists>t. bread dv bno s = Some (b, t) \<and> bio_to s (take_lock b (p_pid (proc s p)) (slk s)) (disk s)
    (if valid_b (bf b) then bf
     else bf(b := (bf b)\<lparr>b_disk := False, b_data := sectors (disk s) (block_sector (blockno (bf b))), valid_b := True\<rparr>)) t"
proof -
  obtain t where t: "bget dv bno s = Some (b, t)" "bio_to s (take_lock b (p_pid (proc s p)) (slk s)) (disk s) bf t"
    using bget_eq [OF assms] by blast
  note f = bio_to_fields [OF t(2)] and qt = bio_to_quiet [OF t(2) assms(1)]
  show ?thesis
  proof (cases "valid_b (bf b)")
    case True
    then show ?thesis using t f by (simp add: bread_def)
  next
    case False
    let ?bf = "bf(b := (bf b)\<lparr>b_disk := False, b_data := sectors (disk s) (block_sector (blockno (bf b)))\<rparr>)"
    obtain u where u: "virtio_disk_rw b False t = Some u" "bio_to t (slk t) (disk s) ?bf u"
      using virtio_bio [OF qt, of b False] f by auto
    note fu = bio_to_fields [OF u(2)]
    let ?u = "upd_buf b (valid_b_update (\<lambda>_. True)) u"
    have "bio_to u (slk u) (disk u) (bufs ?u) ?u"
    proof -
      have "?u = (settle u)\<lparr>proc := proc u, slk := slk u, bufs := bufs ?u\<rparr>"
        by (rule disks.equality) (simp_all add: fu(4) upd_buf_def)
      then show ?thesis using bio_to_upd [OF bio_to_quiet [OF u(2) qt] only_woken_refl] by metis
    qed
    then have "bio_to s (slk u) (disk u) (bufs ?u) ?u" using bio_to_trans [OF bio_to_trans [OF t(2) u(2)]] by blast
    then show ?thesis using t(1) u(1) f fu False by (simp add: bread_def upd_buf_def)
  qed
qed

definition release_buf :: "nat \<Rightarrow> (nat \<Rightarrow> buf) \<Rightarrow> nat \<Rightarrow> buf" where
  "release_buf b bf =
     (let bf = bf(b := (bf b)\<lparr>refcnt := refcnt (bf b) - 1\<rparr>)
      in if refcnt (bf b) = 0 then push_b b (unlink_b b bf) else bf)"

lemma brelse_eq:
  assumes "quiet p s" "sl_locked (slk s (BufSleep b))" "sl_pid (slk s (BufSleep b)) = p_pid (proc s p)"
  shows "\<exists>t. brelse b s = Some t \<and> bio_to s (drop_lock b (slk s)) (disk s) (release_buf b (bufs s)) t"
proof -
  note q = quietD [OF assms(1)]
  let ?pr = "woken {..<NPROC} (cpu_proc s (hart s)) (SleepChan (BufSleep b)) (proc s)"
  let ?t = "(settle s)\<lparr>proc := ?pr, slk := drop_lock b (slk s), bufs := release_buf b (bufs s)\<rparr>"
  have of: "others_free (settle s)" using q(6) by (simp add: others_free_def)
  have "brelse b s = Some ?t"
    using q(1-3) of assms(2,3)
    by (simp add: brelse_def holdingsleep_eq releasesleep_eq upd_buf_def bpush_eq bunlink_eq release_buf_def drop_lock_def refcnt_up Let_def)
  then show ?thesis using bio_to_upd [OF assms(1) only_woken_woken] by blast
qed

lemma bpin_eq:
  assumes "quiet p s"
  shows "\<exists>t. bpin b s = Some t \<and> bio_to s (slk s) (disk s) ((bufs s)(b := (bufs s b)\<lparr>refcnt := refcnt (bufs s b) + 1\<rparr>)) t"
    "\<exists>t. bunpin b s = Some t \<and> bio_to s (slk s) (disk s) ((bufs s)(b := (bufs s b)\<lparr>refcnt := refcnt (bufs s b) - 1\<rparr>)) t"
proof -
  note q = quietD [OF assms]
  have t: "bio_to s (slk s) (disk s) bf ((settle s)\<lparr>bufs := bf\<rparr>)" for bf
  proof -
    have "(settle s)\<lparr>bufs := bf\<rparr> = (settle s)\<lparr>proc := proc s, slk := slk s, bufs := bf\<rparr>" by (rule disks.equality) simp_all
    then show ?thesis using bio_to_upd [OF assms only_woken_refl] by metis
  qed
  show "\<exists>t. bpin b s = Some t \<and> bio_to s (slk s) (disk s) ((bufs s)(b := (bufs s b)\<lparr>refcnt := refcnt (bufs s b) + 1\<rparr>)) t"
    "\<exists>t. bunpin b s = Some t \<and> bio_to s (slk s) (disk s) ((bufs s)(b := (bufs s b)\<lparr>refcnt := refcnt (bufs s b) - 1\<rparr>)) t"
    using q(1,2) t by (simp_all add: bpin_def bunpin_def upd_buf_def refcnt_up)
qed

section \<open>The cache as a function of block numbers\<close>

text \<open>
  Block numbers below \<open>2 ^ 31\<close> have a sector of their own; beyond, \<open>blockno * 2\<close> wraps.
\<close>

definition small :: "uint \<Rightarrow> bool" where
  "small bno \<longleftrightarrow> bno < 0x80000000"

lemma block_sector_inj: "small a \<Longrightarrow> small b \<Longrightarrow> block_sector a = block_sector b \<longleftrightarrow> a = b"
proof -
  assume "small a" "small b"
  then have ab: "unat a < 2 ^ 31" "unat b < 2 ^ 31" by (simp_all add: small_def word_less_nat_alt)
  have u: "unat (block_sector x) = 2 * unat x" if "unat x < 2 ^ 31" for x
  proof -
    have "unat (x * 2) = unat x * 2" using that by (simp add: unat_word_ariths)
    moreover have "unat (ucast (x * 2) :: uint64) = unat (x * 2)"
      using unsigned_less [of "x * 2", where 'a = nat] by (simp add: unsigned_ucast_eq take_bit_nat_eq_self)
    ultimately show ?thesis by (simp add: block_sector_def BSIZE_def)
  qed
  have "unat a = unat b" if "block_sector a = block_sector b" using u [OF ab(1)] u [OF ab(2)] that by simp
  then show ?thesis using unsigned_word_eqI [where 'a = nat] by blast
qed

text \<open>
  The abstract cache of device \<open>dv\<close>: the current contents of every (small) block, how many references its
  buffer has, and who holds its lock.
\<close>

record cache =
  view :: "uint \<Rightarrow> bytes"
  refs :: "uint \<Rightarrow> nat"
  holder :: "uint \<Rightarrow> int option"

definition buf_of :: "(nat \<Rightarrow> buf) \<Rightarrow> uint \<Rightarrow> uint \<Rightarrow> nat option" where
  "buf_of bf dv bno = find (is_blk bf dv bno) [0..<NBUF]"

definition cache_of :: "uint \<Rightarrow> (sleeplock_id \<Rightarrow> sleeplock) \<Rightarrow> platter \<Rightarrow> (nat \<Rightarrow> buf) \<Rightarrow> cache" where
  "cache_of dv sl d bf =
     \<lparr>view = (\<lambda>bno. if \<not> small bno then \<lambda>_. 0 else case buf_of bf dv bno of
          Some b \<Rightarrow> if valid_b (bf b) then b_data (bf b) else sectors d (block_sector bno)
        | None \<Rightarrow> sectors d (block_sector bno)),
      refs = (\<lambda>bno. case buf_of bf dv bno of Some b \<Rightarrow> unat (refcnt (bf b)) | None \<Rightarrow> 0),
      holder = (\<lambda>bno. case buf_of bf dv bno of
          Some b \<Rightarrow> if sl_locked (sl (BufSleep b)) then Some (sl_pid (sl (BufSleep b))) else None | None \<Rightarrow> None)\<rparr>"

text \<open>
  A buffer in use belongs to the device and is valid; a locked one is in use; one that is not in use
  holds what the disk holds, if it is valid.
\<close>

definition slot_ok :: "uint \<Rightarrow> bool \<Rightarrow> platter \<Rightarrow> buf \<Rightarrow> bool" where
  "slot_ok dv lk d x \<longleftrightarrow> \<not> b_disk x \<and> (b_dev x \<noteq> dv \<longrightarrow> refcnt x = 0) \<and> (refcnt x = 0 \<longrightarrow> \<not> lk) \<and>
     (refcnt x \<noteq> 0 \<longrightarrow> valid_b x) \<and> (b_dev x = dv \<longrightarrow> small (blockno x)) \<and>
     (b_dev x = dv \<and> valid_b x \<and> refcnt x = 0 \<longrightarrow> b_data x = sectors d (block_sector (blockno x)))"

definition cache_ok :: "uint \<Rightarrow> (sleeplock_id \<Rightarrow> sleeplock) \<Rightarrow> platter \<Rightarrow> (nat \<Rightarrow> buf) \<Rightarrow> bool" where
  "cache_ok dv sl d bf \<longleftrightarrow> (\<exists>bs. lru bf bs) \<and> (\<forall>b<NBUF. slot_ok dv (sl_locked (sl (BufSleep b))) d (bf b)) \<and>
     (\<forall>b<NBUF. \<forall>c<NBUF. b_dev (bf b) = dv \<and> b_dev (bf c) = dv \<and> blockno (bf b) = blockno (bf c) \<longrightarrow> b = c)"

lemma cache_okD:
  assumes "cache_ok dv sl d bf" "b < NBUF"
  shows "\<not> b_disk (bf b)" "b_dev (bf b) \<noteq> dv \<Longrightarrow> refcnt (bf b) = 0" "refcnt (bf b) = 0 \<Longrightarrow> \<not> sl_locked (sl (BufSleep b))"
    "refcnt (bf b) \<noteq> 0 \<Longrightarrow> valid_b (bf b)" "b_dev (bf b) = dv \<Longrightarrow> small (blockno (bf b))"
    "b_dev (bf b) = dv \<Longrightarrow> valid_b (bf b) \<Longrightarrow> refcnt (bf b) = 0 \<Longrightarrow> b_data (bf b) = sectors d (block_sector (blockno (bf b)))"
    "c < NBUF \<Longrightarrow> b_dev (bf b) = dv \<Longrightarrow> b_dev (bf c) = dv \<Longrightarrow> blockno (bf b) = blockno (bf c) \<Longrightarrow> b = c"
  using assms by (auto simp: cache_ok_def slot_ok_def)

lemma buf_of_Some: "buf_of bf dv bno = Some b \<Longrightarrow> b < NBUF \<and> is_blk bf dv bno b"
  by (auto simp: buf_of_def find_Some_iff)

lemma buf_of_None: "buf_of bf dv bno = None \<Longrightarrow> b < NBUF \<Longrightarrow> \<not> is_blk bf dv bno b"
  by (auto simp: buf_of_def find_None_iff)

lemma buf_of_iff:
  assumes "cache_ok dv sl d bf"
  shows "buf_of bf dv bno = Some b \<longleftrightarrow> b < NBUF \<and> is_blk bf dv bno b"
proof
  assume b: "b < NBUF \<and> is_blk bf dv bno b"
  then obtain c where c: "buf_of bf dv bno = Some c" using buf_of_None by (cases "buf_of bf dv bno") auto
  then show "buf_of bf dv bno = Some b" using b cache_okD(7) [OF assms] buf_of_Some [OF c] unfolding is_blk_def by metis
qed (rule buf_of_Some)

lemma cache_ok_core:
  assumes "cache_ok dv sl d bf" "\<And>i. i < NBUF \<Longrightarrow> core (bf' i) = core (bf i)" "lru bf' bs"
  shows "cache_ok dv sl d bf'" "cache_of dv sl d bf' = cache_of dv sl d bf" "buf_of bf' dv bno = buf_of bf dv bno"
proof -
  have f: "valid_b (bf' i) = valid_b (bf i)" "b_disk (bf' i) = b_disk (bf i)" "b_dev (bf' i) = b_dev (bf i)"
    "blockno (bf' i) = blockno (bf i)" "refcnt (bf' i) = refcnt (bf i)" "b_data (bf' i) = b_data (bf i)" if "i < NBUF" for i
    using core_fields [OF assms(2) [OF that]] by simp_all
  show "cache_ok dv sl d bf'" using assms(1,3) f unfolding cache_ok_def slot_ok_def by (intro conjI exI [of _ bs]) auto
  have b: "buf_of bf' dv bno = buf_of bf dv bno" for bno
    unfolding buf_of_def by (rule find_cong) (auto simp: is_blk_def f)
  show "buf_of bf' dv bno = buf_of bf dv bno" by (rule b)
  show "cache_of dv sl d bf' = cache_of dv sl d bf"
    using f by (auto simp: cache_of_def b fun_eq_iff dest!: buf_of_Some split: option.splits)
qed

lemma lru_cong: "lru bf bs \<Longrightarrow> links bf' = links bf \<Longrightarrow> lru bf' bs"
  by (simp add: lru_def)

lemma links_upd: "b_prev x = b_prev (bf b) \<Longrightarrow> b_next x = b_next (bf b) \<Longrightarrow> links (bf(b := x)) = links bf"
  by (auto simp: links_def fun_eq_iff)

lemma option_del:
  assumes "\<And>c. c \<noteq> b \<Longrightarrow> y = Some c \<longleftrightarrow> x = Some c" "y \<noteq> Some b"
  shows "y = (if x = Some b then None else x)"
proof (cases y)
  case None
  then show ?thesis using assms(1) by (cases x) auto
next
  case (Some c)
  then show ?thesis using assms by auto
qed

text \<open>What reading block \<open>bno\<close> does to the buffers: one of them now holds the block.\<close>

lemma bread_pure:
  assumes "cache_ok dv sl d bf" "lru bf bs" "small bno" "holder (cache_of dv sl d bf) bno = None"
    and "refs (cache_of dv sl d bf) bno < 2 ^ 32 - 1" "refs (cache_of dv sl d bf) bno > 0 \<or> (\<exists>b<NBUF. refcnt (bf b) = 0)"
  shows "\<exists>b bf1 x. bget_pick bf bs dv bno = Some (b, bf1) \<and> \<not> sl_locked (sl (BufSleep b)) \<and> b < NBUF \<and>
    (if valid_b (bf1 b) then bf1 else bf1(b := (bf1 b)\<lparr>b_disk := False, b_data := sectors d (block_sector (blockno (bf1 b))), valid_b := True\<rparr>))
      = bf(b := x) \<and>
    b_dev x = dv \<and> blockno x = bno \<and> valid_b x \<and> \<not> b_disk x \<and> unat (refcnt x) = refs (cache_of dv sl d bf) bno + 1 \<and>
    b_data x = view (cache_of dv sl d bf) bno \<and> b_prev x = b_prev (bf b) \<and> b_next x = b_next (bf b) \<and>
    (buf_of bf dv bno = Some b \<or> buf_of bf dv bno = None \<and> refcnt (bf b) = 0)"
proof (cases "buf_of bf dv bno")
  case (Some b)
  have b: "b < NBUF" "is_blk bf dv bno b" using buf_of_Some [OF Some] by auto
  have bs: "set bs = {..<NBUF}" using assms(2) by (simp add: lru_def)
  have "find (is_blk bf dv bno) bs = Some b"
  proof -
    obtain c where c: "find (is_blk bf dv bno) bs = Some c" using b bs by (cases "find (is_blk bf dv bno) bs") (auto simp: find_None_iff)
    then have "c < NBUF" "is_blk bf dv bno c" using bs by (auto simp: find_Some_iff)
    then have "buf_of bf dv bno = Some c" using buf_of_iff [OF assms(1)] by simp
    then show ?thesis using c Some by simp
  qed
  then have p: "bget_pick bf bs dv bno = Some (b, bf(b := (bf b)\<lparr>refcnt := refcnt (bf b) + 1\<rparr>))" by (simp add: bget_pick_def)
  have r: "unat (refcnt (bf b) + 1) = unat (refcnt (bf b)) + 1"
    using assms(5) Some by (simp add: cache_of_def unat_word_ariths)
  have "\<not> sl_locked (sl (BufSleep b))" using assms(4) Some by (auto simp: cache_of_def split: if_splits)
  moreover have "valid_b (bf b) \<or> refcnt (bf b) = 0" "\<not> b_disk (bf b)" using cache_okD [OF assms(1) b(1)] by auto
  ultimately show ?thesis using p b r Some
    by (intro exI [of _ b] exI [of _ "bf(b := (bf b)\<lparr>refcnt := refcnt (bf b) + 1\<rparr>)"]
        exI [of _ "if valid_b (bf b) then (bf b)\<lparr>refcnt := refcnt (bf b) + 1\<rparr>
          else (bf b)\<lparr>refcnt := refcnt (bf b) + 1, b_disk := False, b_data := sectors d (block_sector bno), valid_b := True\<rparr>"])
      (use assms(3) in \<open>simp add: cache_of_def is_blk_def\<close>)
next
  case None
  then have "refs (cache_of dv sl d bf) bno = 0" by (simp add: cache_of_def)
  then obtain b' where "b' < NBUF" "refcnt (bf b') = 0" using assms(6) by auto
  then obtain b where b: "find (\<lambda>b. refcnt (bf b) = 0) (rev bs) = Some b"
    using assms(2) by (cases "find (\<lambda>b. refcnt (bf b) = 0) (rev bs)") (auto simp: find_None_iff lru_def)
  have bs: "set bs = {..<NBUF}" using assms(2) by (simp add: lru_def)
  have b2: "refcnt (bf b) = 0" "b < NBUF" using b bs by (auto simp: find_Some_iff) (metis lessThan_iff length_rev nth_mem set_rev)
  have "find (is_blk bf dv bno) bs = None" using None bs by (auto simp: find_None_iff dest: buf_of_None)
  then have p: "bget_pick bf bs dv bno = Some (b, bf(b := (bf b)\<lparr>b_dev := dv, blockno := bno, valid_b := False, refcnt := 1\<rparr>))"
    using b by (simp add: bget_pick_def)
  have l: "\<not> sl_locked (sl (BufSleep b))" using cache_okD(3) [OF assms(1)] b2 by auto
  show ?thesis using p l b2 None
    by (intro exI [of _ b] exI [of _ "bf(b := (bf b)\<lparr>b_dev := dv, blockno := bno, valid_b := False, refcnt := 1\<rparr>)"]
        exI [of _ "(bf b)\<lparr>b_dev := dv, blockno := bno, refcnt := 1, b_disk := False, b_data := sectors d (block_sector bno), valid_b := True\<rparr>"])
      (use assms(3) in \<open>simp add: cache_of_def\<close>)
qed

text \<open>A change of the buffer of block \<open>bno\<close>, of its lock and of its place on the disk.\<close>

lemma cache_upd:
  assumes ok: "cache_ok dv sl d bf" and b: "buf_of bf dv bno = Some b"
    and x: "b_dev x = dv" "blockno x = bno" "b_prev x = b_prev (bf b)" "b_next x = b_next (bf b)" "valid_b x" "\<not> b_disk x"
    and sl: "\<And>c. c \<noteq> b \<Longrightarrow> sl' (BufSleep c) = sl (BufSleep c)"
    and d: "\<And>n. n \<noteq> block_sector bno \<Longrightarrow> sectors d' n = sectors d n"
    and z: "refcnt x = 0 \<Longrightarrow> \<not> sl_locked (sl' (BufSleep b)) \<and> b_data x = sectors d' (block_sector bno)"
  shows "cache_ok dv sl' d' (bf(b := x))"
    and "cache_of dv sl' d' (bf(b := x)) = (cache_of dv sl d bf)\<lparr>view := (view (cache_of dv sl d bf))(bno := b_data x),
      refs := (refs (cache_of dv sl d bf))(bno := unat (refcnt x)),
      holder := (holder (cache_of dv sl d bf))(bno := if sl_locked (sl' (BufSleep b)) then Some (sl_pid (sl' (BufSleep b))) else None)\<rparr>"
    and "buf_of (bf(b := x)) dv n = buf_of bf dv n"
proof -
  have bb: "b < NBUF" "b_dev (bf b) = dv" "blockno (bf b) = bno" using buf_of_Some [OF b] by (auto simp: is_blk_def)
  have sm: "small bno" using cache_okD(5) [OF ok bb(1)] bb by auto
  have B: "buf_of (bf(b := x)) dv n = buf_of bf dv n" for n
    unfolding buf_of_def by (rule find_cong) (auto simp: is_blk_def x bb)
  then show "buf_of (bf(b := x)) dv n = buf_of bf dv n" .
  have key: "b_dev ((bf(b := x)) i) = b_dev (bf i)" "blockno ((bf(b := x)) i) = blockno (bf i)" for i using x(1,2) bb by auto
  have other: "c = b" if "c < NBUF" "b_dev (bf c) = dv" "blockno (bf c) = bno" for c
    using cache_okD(7) [OF ok that(1) bb(1)] that bb by simp
  have sec: "sectors d' (block_sector (blockno (bf c))) = sectors d (block_sector (blockno (bf c)))"
    if "c < NBUF" "b_dev (bf c) = dv" "c \<noteq> b" for c
  proof -
    have "blockno (bf c) \<noteq> bno" "small (blockno (bf c))" using other that cache_okD(5) [OF ok that(1)] by auto
    then show ?thesis using d block_sector_inj sm by blast
  qed
  obtain bs where "lru bf bs" using ok by (auto simp: cache_ok_def)
  then have l: "lru (bf(b := x)) bs" by (rule lru_cong) (rule links_upd, rule x(3), rule x(4))
  show "cache_ok dv sl' d' (bf(b := x))"
    unfolding cache_ok_def
  proof (intro conjI exI allI impI)
    show "lru (bf(b := x)) bs" by (rule l)
    show "slot_ok dv (sl_locked (sl' (BufSleep c))) d' ((bf(b := x)) c)" if "c < NBUF" for c
    proof (cases "c = b")
      case True
      then show ?thesis using x z sm by (auto simp: slot_ok_def)
    next
      case False
      then show ?thesis using cache_okD(1-6) [OF ok that] sl [OF False] sec [OF that] by (auto simp: slot_ok_def)
    qed
    show "e = c" if "e < NBUF" "c < NBUF" "b_dev ((bf(b := x)) e) = dv \<and> b_dev ((bf(b := x)) c) = dv \<and>
        blockno ((bf(b := x)) e) = blockno ((bf(b := x)) c)" for e c
      using that(3) cache_okD(7) [OF ok that(1,2)] unfolding key by blast
  qed
  have D: "sectors d' (block_sector n) = sectors d (block_sector n)" if "n \<noteq> bno" "small n" for n
    using d [of "block_sector n"] block_sector_inj sm that by blast
  have ne: "c \<noteq> b" if "buf_of bf dv n = Some c" "n \<noteq> bno" for n c using that buf_of_Some [of bf dv n c] bb by (auto simp: is_blk_def)
  show "cache_of dv sl' d' (bf(b := x)) = (cache_of dv sl d bf)\<lparr>view := (view (cache_of dv sl d bf))(bno := b_data x),
      refs := (refs (cache_of dv sl d bf))(bno := unat (refcnt x)),
      holder := (holder (cache_of dv sl d bf))(bno := if sl_locked (sl' (BufSleep b)) then Some (sl_pid (sl' (BufSleep b))) else None)\<rparr>"
  proof (rule cache.equality)
    show "view (cache_of dv sl' d' (bf(b := x))) = view ((cache_of dv sl d bf)\<lparr>view := (view (cache_of dv sl d bf))(bno := b_data x),
      refs := (refs (cache_of dv sl d bf))(bno := unat (refcnt x)),
      holder := (holder (cache_of dv sl d bf))(bno := if sl_locked (sl' (BufSleep b)) then Some (sl_pid (sl' (BufSleep b))) else None)\<rparr>)"
      using b D ne x(5) sm by (auto simp: cache_of_def B fun_eq_iff split: option.split)
  qed (use b ne sl in \<open>auto simp: cache_of_def B fun_eq_iff split: option.split\<close>)
qed

text \<open>An unused buffer is given to a block that has none.\<close>

lemma cache_recycle:
  assumes ok: "cache_ok dv sl d bf" and b: "buf_of bf dv bno = None" "b < NBUF" "refcnt (bf b) = 0" "small bno"
    and x: "b_dev x = dv" "blockno x = bno" "b_prev x = b_prev (bf b)" "b_next x = b_next (bf b)" "valid_b x" "\<not> b_disk x"
      "refcnt x \<noteq> 0" "b_data x = sectors d (block_sector bno)"
    and sl: "\<And>c. c \<noteq> b \<Longrightarrow> sl' (BufSleep c) = sl (BufSleep c)"
  shows "cache_ok dv sl' d (bf(b := x))"
    and "cache_of dv sl' d (bf(b := x)) = (cache_of dv sl d bf)\<lparr>refs := (refs (cache_of dv sl d bf))(bno := unat (refcnt x)),
      holder := (holder (cache_of dv sl d bf))(bno := if sl_locked (sl' (BufSleep b)) then Some (sl_pid (sl' (BufSleep b))) else None)\<rparr>"
    and "buf_of (bf(b := x)) dv n = (if n = bno then Some b else if buf_of bf dv n = Some b then None else buf_of bf dv n)"
proof -
  have no: "\<not> (b_dev (bf c) = dv \<and> blockno (bf c) = bno)" if "c < NBUF" for c
    using buf_of_None [OF b(1) that] by (simp add: is_blk_def)
  obtain bs where "lru bf bs" using ok by (auto simp: cache_ok_def)
  then have l: "lru (bf(b := x)) bs" by (rule lru_cong) (rule links_upd, rule x(3), rule x(4))
  show ok': "cache_ok dv sl' d (bf(b := x))"
    unfolding cache_ok_def
  proof (intro conjI exI allI impI)
    show "lru (bf(b := x)) bs" by (rule l)
    show "slot_ok dv (sl_locked (sl' (BufSleep c))) d ((bf(b := x)) c)" if "c < NBUF" for c
    proof (cases "c = b")
      case True
      then show ?thesis using x b(4) by (auto simp: slot_ok_def)
    next
      case False
      then show ?thesis using cache_okD(1-6) [OF ok that] sl [OF False] by (auto simp: slot_ok_def)
    qed
    show "e = c" if "e < NBUF" "c < NBUF" "b_dev ((bf(b := x)) e) = dv \<and> b_dev ((bf(b := x)) c) = dv \<and>
        blockno ((bf(b := x)) e) = blockno ((bf(b := x)) c)" for e c
      using that(3) cache_okD(7) [OF ok that(1,2)] no [OF that(1)] no [OF that(2)] x(1,2) unfolding fun_upd_apply by metis
  qed
  show B: "buf_of (bf(b := x)) dv n = (if n = bno then Some b else if buf_of bf dv n = Some b then None else buf_of bf dv n)" for n
  proof -
    have same: "buf_of (bf(b := x)) dv n = Some c \<longleftrightarrow> buf_of bf dv n = Some c" if "n \<noteq> bno" "c \<noteq> b" for c
      using that unfolding buf_of_iff [OF ok'] buf_of_iff [OF ok] by (simp add: is_blk_def)
    have "buf_of (bf(b := x)) dv n \<noteq> Some b" if "n \<noteq> bno" using that x(2) unfolding buf_of_iff [OF ok'] by (simp add: is_blk_def)
    then have 1: "buf_of (bf(b := x)) dv n = (if buf_of bf dv n = Some b then None else buf_of bf dv n)" if "n \<noteq> bno"
      using option_del [OF same [OF that]] that by blast
    have "buf_of (bf(b := x)) dv bno = Some b" unfolding buf_of_iff [OF ok'] using b(2) x(1,2) by (simp add: is_blk_def)
    then show ?thesis using 1 by simp
  qed
  have old: "valid_b (bf b) \<Longrightarrow> b_data (bf b) = sectors d (block_sector n)" "\<not> sl_locked (sl (BufSleep b))"
    if "buf_of bf dv n = Some b" for n using cache_okD(3,6) [OF ok b(2)] b(3) buf_of_Some [OF that] by (auto simp: is_blk_def)
  have ne: "c \<noteq> b" if "buf_of bf dv n \<noteq> Some b" "buf_of bf dv n = Some c" for n c using that by auto
  show "cache_of dv sl' d (bf(b := x)) = (cache_of dv sl d bf)\<lparr>refs := (refs (cache_of dv sl d bf))(bno := unat (refcnt x)),
      holder := (holder (cache_of dv sl d bf))(bno := if sl_locked (sl' (BufSleep b)) then Some (sl_pid (sl' (BufSleep b))) else None)\<rparr>"
  proof (rule cache.equality)
    show "view (cache_of dv sl' d (bf(b := x))) = view ((cache_of dv sl d bf)\<lparr>refs := (refs (cache_of dv sl d bf))(bno := unat (refcnt x)),
      holder := (holder (cache_of dv sl d bf))(bno := if sl_locked (sl' (BufSleep b)) then Some (sl_pid (sl' (BufSleep b))) else None)\<rparr>)"
      using b x old(1) by (auto simp: cache_of_def B fun_eq_iff split: option.split)
  qed (use b old(2) sl in \<open>auto simp: cache_of_def B fun_eq_iff split: option.split\<close>)
qed

section \<open>What the operations do to the abstract cache\<close>

text \<open>
  \<open>cache_at dv p pid s c\<close>: process \<open>p\<close>, whose id is \<open>pid\<close>, runs on a quiet machine whose cache is in
  order and represents \<open>c\<close>. \<open>moved s t\<close>: nothing but the cache, the disk and its driver changed, and
  processes were at most woken.
\<close>

definition cache_at :: "uint \<Rightarrow> nat \<Rightarrow> int \<Rightarrow> 'a disks_scheme \<Rightarrow> cache \<Rightarrow> bool" where
  "cache_at dv p pid s c \<longleftrightarrow> quiet p s \<and> p_pid (proc s p) = pid \<and> cache_ok dv (slk s) (disk s) (bufs s) \<and>
     c = cache_of dv (slk s) (disk s) (bufs s)"

definition moved :: "'a disks_scheme \<Rightarrow> 'a disks_scheme \<Rightarrow> bool" where
  "moved s t \<longleftrightarrow> bio_to s (slk t) (disk t) (bufs t) t"

definition room :: "cache \<Rightarrow> bool" where
  "room c \<longleftrightarrow> card {n. 0 < refs c n} < NBUF"

lemma moved_trans: "moved s t \<Longrightarrow> moved t u \<Longrightarrow> moved s u"
  unfolding moved_def by (rule bio_to_trans)

lemma bio_to_moved: "bio_to s sl d bf t \<Longrightarrow> moved s t"
  unfolding moved_def using bio_to_fields(1-3) by metis

lemma cache_atI:
  assumes "cache_at dv p pid s c" "bio_to s sl d bf t" "cache_ok dv sl d bf" "c' = cache_of dv sl d bf"
  shows "cache_at dv p pid t c'"
  using assms bio_to_quiet [OF assms(2)] bio_to_fields(1,2,3,6) [OF assms(2)] unfolding cache_at_def by simp

lemma cache_at_unused:
  assumes "cache_at dv p pid s c" "refs c n = 0"
  shows "holder c n = None" "small n \<Longrightarrow> view c n = sectors (disk s) (block_sector n)"
proof -
  have ok: "cache_ok dv (slk s) (disk s) (bufs s)" and c: "c = cache_of dv (slk s) (disk s) (bufs s)"
    using assms(1) by (auto simp: cache_at_def)
  have "holder c n = None \<and> (small n \<longrightarrow> view c n = sectors (disk s) (block_sector n))"
  proof (cases "buf_of (bufs s) dv n")
    case None
    then show ?thesis by (simp add: c cache_of_def)
  next
    case (Some b)
    have b: "b < NBUF" "b_dev (bufs s b) = dv" "blockno (bufs s b) = n" using buf_of_Some [OF Some] by (auto simp: is_blk_def)
    have "refcnt (bufs s b) = 0" using assms(2) Some by (simp add: c cache_of_def unat_eq_0)
    then show ?thesis using Some cache_okD(3,6) [OF ok b(1)] b by (simp add: c cache_of_def)
  qed
  then show "holder c n = None" "small n \<Longrightarrow> view c n = sectors (disk s) (block_sector n)" by auto
qed

lemma room_unused:
  assumes "cache_ok dv sl d bf" "room (cache_of dv sl d bf)"
  shows "\<exists>b<NBUF. refcnt (bf b) = 0"
proof (rule ccontr)
  assume "\<not> ?thesis"
  then have r: "\<And>b. b < NBUF \<Longrightarrow> refcnt (bf b) \<noteq> 0" by blast
  have dev: "b_dev (bf b) = dv" if "b < NBUF" for b using r that cache_okD(2) [OF assms(1)] by blast
  have inj: "inj_on (\<lambda>b. blockno (bf b)) {..<NBUF}"
    unfolding inj_on_def using dev cache_okD(7) [OF assms(1)] by (metis lessThan_iff)
  have "(\<lambda>b. blockno (bf b)) ` {..<NBUF} \<subseteq> {n. 0 < refs (cache_of dv sl d bf) n}"
  proof (rule image_subsetI)
    fix b :: nat assume b: "b \<in> {..<NBUF}"
    then have "buf_of bf dv (blockno (bf b)) = Some b" using dev by (simp add: buf_of_iff [OF assms(1)] is_blk_def)
    then show "blockno (bf b) \<in> {n. 0 < refs (cache_of dv sl d bf) n}" using r b by (simp add: cache_of_def unat_gt_0)
  qed
  then have "card ((\<lambda>b. blockno (bf b)) ` {..<NBUF}) \<le> card {n. 0 < refs (cache_of dv sl d bf) n}"
    by (intro card_mono) simp_all
  then have "NBUF \<le> card {n. 0 < refs (cache_of dv sl d bf) n}" using card_image [OF inj] by simp
  then show False using assms(2) by (simp add: room_def)
qed

lemma bread_spec:
  assumes "cache_at dv p pid s c" "small n" "holder c n = None" "refs c n < 2 ^ 32 - 1" "0 < refs c n \<or> room c"
  shows "\<exists>b t. bread dv n s = Some (b, t) \<and> moved s t \<and> disk t = disk s \<and>
    cache_at dv p pid t (c\<lparr>refs := (refs c)(n := refs c n + 1), holder := (holder c)(n := Some pid)\<rparr>) \<and>
    buf_of (bufs t) dv n = Some b \<and> b_data (bufs t b) = view c n \<and>
    (\<forall>m. 0 < refs c m \<longrightarrow> buf_of (bufs t) dv m = buf_of (bufs s) dv m)"
proof -
  let ?sl = "slk s" and ?d = "disk s" and ?bf = "bufs s"
  have ok: "quiet p s" "p_pid (proc s p) = pid" "cache_ok dv ?sl ?d ?bf" and c: "c = cache_of dv ?sl ?d ?bf"
    using assms(1) by (auto simp: cache_at_def)
  obtain bs where bs: "lru ?bf bs" using ok(3) by (auto simp: cache_ok_def)
  obtain b bf1 x where p: "bget_pick ?bf bs dv n = Some (b, bf1)" "\<not> sl_locked (?sl (BufSleep b))" "b < NBUF"
    and f: "(if valid_b (bf1 b) then bf1 else bf1(b := (bf1 b)\<lparr>b_disk := False,
        b_data := sectors ?d (block_sector (blockno (bf1 b))), valid_b := True\<rparr>)) = ?bf(b := x)"
    and x: "b_dev x = dv" "blockno x = n" "valid_b x" "\<not> b_disk x" "unat (refcnt x) = refs c n + 1" "b_data x = view c n"
      "b_prev x = b_prev (?bf b)" "b_next x = b_next (?bf b)"
    and w: "buf_of ?bf dv n = Some b \<or> buf_of ?bf dv n = None \<and> refcnt (?bf b) = 0"
    using bread_pure [OF ok(3) bs assms(2)] assms(3-5) room_unused [OF ok(3)] unfolding c by blast
  let ?sl' = "take_lock b pid ?sl"
  obtain t where t: "bread dv n s = Some (b, t)" "bio_to s ?sl' ?d (?bf(b := x)) t"
    using bread_eq [OF ok(1) bs p(1,2)] unfolding f ok(2) by blast
  have sl: "c \<noteq> b \<Longrightarrow> ?sl' (BufSleep c) = ?sl (BufSleep c)" "sl_locked (?sl' (BufSleep b))" "sl_pid (?sl' (BufSleep b)) = pid" for c
    by (simp_all add: take_lock_def)
  have r: "refcnt x \<noteq> 0" using x(5) by auto
  have "cache_ok dv ?sl' ?d (?bf(b := x)) \<and> buf_of (?bf(b := x)) dv n = Some b \<and>
      cache_of dv ?sl' ?d (?bf(b := x)) = c\<lparr>refs := (refs c)(n := refs c n + 1), holder := (holder c)(n := Some pid)\<rparr> \<and>
      (\<forall>m. 0 < refs c m \<longrightarrow> buf_of (?bf(b := x)) dv m = buf_of ?bf dv m)"
  proof (cases "buf_of ?bf dv n = Some b")
    case True
    have z: "refcnt x = 0 \<Longrightarrow> \<not> sl_locked (?sl' (BufSleep b)) \<and> b_data x = sectors ?d (block_sector n)" using r by simp
    note U = cache_upd [where d' = ?d, OF ok(3) True x(1,2,7,8,3,4) sl(1) refl z, folded c]
    have "(view c)(n := view c n) = view c" by simp
    then show ?thesis using U sl(2,3) True by (simp add: x(5,6))
  next
    case False
    then have N: "buf_of ?bf dv n = None" "refcnt (?bf b) = 0" using w by auto
    have "b_data x = sectors ?d (block_sector n)" using x(6) N(1) assms(2) by (simp add: c cache_of_def)
    note R = cache_recycle [OF ok(3) N(1) p(3) N(2) assms(2) x(1,2,7,8,3,4) r this sl(1)]
    have "buf_of ?bf dv m \<noteq> Some b" if "0 < refs c m" for m using that N(2) by (auto simp: c cache_of_def)
    moreover have "m \<noteq> n" if "0 < refs c m" for m using that N(1) by (auto simp: c cache_of_def)
    ultimately show ?thesis using R sl(2,3) x(5) unfolding c by auto
  qed
  then show ?thesis using t x(6) bio_to_moved [OF t(2)] cache_atI [OF assms(1) t(2)] bio_to_fields(2,3) [OF t(2)]
    by (intro exI [of _ b] exI [of _ t]) simp
qed

lemma cache_at_buf:
  assumes "cache_at dv p pid s c" "buf_of (bufs s) dv n = Some b"
  shows "refs c n = unat (refcnt (bufs s b))" "blockno (bufs s b) = n" "b_dev (bufs s b) = dv" "b < NBUF" "small n"
    and "holder c n = Some q \<Longrightarrow> sl_locked (slk s (BufSleep b)) \<and> sl_pid (slk s (BufSleep b)) = q \<and> 0 < refs c n"
    and "0 < refs c n \<Longrightarrow> b_data (bufs s b) = view c n \<and> valid_b (bufs s b)" "\<not> b_disk (bufs s b)"
proof -
  have ok: "cache_ok dv (slk s) (disk s) (bufs s)" and c: "c = cache_of dv (slk s) (disk s) (bufs s)"
    using assms(1) by (auto simp: cache_at_def)
  show b: "b < NBUF" "blockno (bufs s b) = n" "b_dev (bufs s b) = dv" using buf_of_Some [OF assms(2)] by (auto simp: is_blk_def)
  show r: "refs c n = unat (refcnt (bufs s b))" using assms(2) by (simp add: c cache_of_def)
  show sm: "small n" "\<not> b_disk (bufs s b)" using cache_okD(1,5) [OF ok b(1)] b by auto
  show "sl_locked (slk s (BufSleep b)) \<and> sl_pid (slk s (BufSleep b)) = q \<and> 0 < refs c n" if "holder c n = Some q"
    using that assms(2) cache_okD(3) [OF ok b(1)] r by (auto simp: c cache_of_def unat_gt_0 split: if_splits)
  show "b_data (bufs s b) = view c n \<and> valid_b (bufs s b)" if "0 < refs c n"
    using that assms(2) cache_okD(4) [OF ok b(1)] r sm by (auto simp: c cache_of_def unat_gt_0)
qed

text \<open>A change of the buffer of a block that is in use and stays in use, or is clean then.\<close>

lemma cache_at_upd:
  assumes at: "cache_at dv p pid s c" and b: "buf_of (bufs s) dv n = Some b" "0 < refs c n"
    and to: "bio_to s sl d ((bufs s)(b := (bufs s b)\<lparr>b_data := v, refcnt := r\<rparr>)) t"
    and sl: "\<And>k. k \<noteq> b \<Longrightarrow> sl (BufSleep k) = slk s (BufSleep k)"
    and d: "\<And>k. k \<noteq> block_sector n \<Longrightarrow> sectors d k = sectors (disk s) k"
    and z: "r = 0 \<Longrightarrow> \<not> sl_locked (sl (BufSleep b)) \<and> v = sectors d (block_sector n)"
  shows "cache_at dv p pid t (c\<lparr>view := (view c)(n := v), refs := (refs c)(n := unat r),
    holder := (holder c)(n := if sl_locked (sl (BufSleep b)) then Some (sl_pid (sl (BufSleep b))) else None)\<rparr>)"
    "buf_of (bufs t) dv m = buf_of (bufs s) dv m"
proof -
  have ok: "cache_ok dv (slk s) (disk s) (bufs s)" and c: "c = cache_of dv (slk s) (disk s) (bufs s)"
    using at by (auto simp: cache_at_def)
  let ?x = "(bufs s b)\<lparr>b_data := v, refcnt := r\<rparr>"
  note B = cache_at_buf [OF at b(1)]
  have x: "b_dev ?x = dv" "blockno ?x = n" "b_prev ?x = b_prev (bufs s b)" "b_next ?x = b_next (bufs s b)" "valid_b ?x" "\<not> b_disk ?x"
    and z': "refcnt ?x = 0 \<Longrightarrow> \<not> sl_locked (sl (BufSleep b)) \<and> b_data ?x = sectors d (block_sector n)"
    using B b(2) z by simp_all
  let ?bf = "(bufs s)(b := ?x)"
  have U1: "cache_ok dv sl d ?bf" by (rule cache_upd(1) [OF ok b(1) x], erule sl, erule d, erule z')
  have U2: "cache_of dv sl d ?bf = c\<lparr>view := (view c)(n := v), refs := (refs c)(n := unat r),
      holder := (holder c)(n := if sl_locked (sl (BufSleep b)) then Some (sl_pid (sl (BufSleep b))) else None)\<rparr>"
    unfolding c by (subst cache_upd(2) [OF ok b(1) x], erule sl, erule d, erule z') simp
  have U3: "buf_of ?bf dv m = buf_of (bufs s) dv m" by (rule cache_upd(3) [OF ok b(1) x], erule sl, erule d, erule z')
  show "cache_at dv p pid t (c\<lparr>view := (view c)(n := v), refs := (refs c)(n := unat r),
    holder := (holder c)(n := if sl_locked (sl (BufSleep b)) then Some (sl_pid (sl (BufSleep b))) else None)\<rparr>)"
    by (rule cache_atI [OF at to U1 U2 [symmetric]])
  show "buf_of (bufs t) dv m = buf_of (bufs s) dv m" using U3 bio_to_fields(3) [OF to] by simp
qed

lemma buf_same: "bf(b := (bf b)\<lparr>b_data := b_data (bf b), refcnt := r\<rparr>) = bf(b := (bf b)\<lparr>refcnt := r\<rparr>)"
  "bf(b := (bf b)\<lparr>b_data := v, refcnt := refcnt (bf b)\<rparr>) = bf(b := (bf b)\<lparr>b_data := v\<rparr>)"
  "bf(b := (bf b)\<lparr>b_data := b_data (bf b), refcnt := refcnt (bf b)\<rparr>) = bf"
  by (intro ext; cases "bf b"; simp)+

lemma cache_same: "c\<lparr>view := (view c)(n := view c n), refs := (refs c)(n := refs c n), holder := (holder c)(n := holder c n)\<rparr> = c"
  "c\<lparr>view := (view c)(n := view c n), refs := r, holder := h\<rparr> = c\<lparr>refs := r, holder := h\<rparr>"
  "c\<lparr>refs := r, holder := (holder c)(n := holder c n)\<rparr> = c\<lparr>refs := r\<rparr>"
  "c\<lparr>view := v, refs := (refs c)(n := refs c n), holder := (holder c)(n := holder c n)\<rparr> = c\<lparr>view := v\<rparr>"
  by (cases c; simp)+

lemma holder_now:
  assumes "cache_at dv p pid s c" "buf_of (bufs s) dv n = Some b"
  shows "(if sl_locked (slk s (BufSleep b)) then Some (sl_pid (slk s (BufSleep b))) else None) = holder c n"
  using assms by (simp add: cache_at_def cache_of_def)

lemma bwrite_spec:
  assumes "cache_at dv p pid s c" "buf_of (bufs s) dv n = Some b" "holder c n = Some pid"
  shows "\<exists>t. bwrite b s = Some t \<and> moved s t \<and> cache_at dv p pid t c \<and> bufs t = bufs s \<and>
    disk t = (disk s)\<lparr>sectors := (sectors (disk s))(block_sector n := view c n), writes := writes (disk s) @ [(block_sector n, view c n)]\<rparr>"
proof -
  note B = cache_at_buf [OF assms(1,2)]
  have q: "quiet p s" "p_pid (proc s p) = pid" using assms(1) by (auto simp: cache_at_def)
  have h: "sl_locked (slk s (BufSleep b))" "sl_pid (slk s (BufSleep b)) = pid" "0 < refs c n" using B(6) [OF assms(3)] by auto
  let ?d = "(disk s)\<lparr>sectors := (sectors (disk s))(block_sector n := view c n), writes := writes (disk s) @ [(block_sector n, view c n)]\<rparr>"
  obtain t where t: "bwrite b s = Some t" "bio_to s (slk s) ?d (bufs s) t"
    using bwrite_eq [OF q(1) h(1)] h(2,3) q(2) B(2,7,8) by auto
  have to: "bio_to s (slk s) ?d ((bufs s)(b := (bufs s b)\<lparr>b_data := b_data (bufs s b), refcnt := refcnt (bufs s b)\<rparr>)) t"
    using t(2) by (simp only: buf_same(3))
  have "refcnt (bufs s b) \<noteq> 0" "view c n = b_data (bufs s b)" using B(1,7) h(3) by auto
  then have "cache_at dv p pid t (c\<lparr>view := (view c)(n := b_data (bufs s b)), refs := (refs c)(n := unat (refcnt (bufs s b))),
      holder := (holder c)(n := if sl_locked (slk s (BufSleep b)) then Some (sl_pid (slk s (BufSleep b))) else None)\<rparr>)"
    by (intro cache_at_upd(1) [OF assms(1,2) h(3) to]) simp_all
  then have "cache_at dv p pid t (c\<lparr>view := (view c)(n := view c n), refs := (refs c)(n := refs c n), holder := (holder c)(n := holder c n)\<rparr>)"
    unfolding holder_now [OF assms(1,2)] B(1) [symmetric] using B(7) h(3) by simp
  then have "cache_at dv p pid t c" by (simp only: cache_same(1))
  then show ?thesis using t bio_to_fields(2,3) [OF t(2)] bio_to_moved [OF t(2)] by (intro exI [of _ t]) simp
qed

lemma moved_settled: "moved s t \<Longrightarrow> settle t = t"
  unfolding moved_def by (rule bio_to_fields(4))

lemma data_spec:
  assumes "cache_at dv p pid s c" "buf_of (bufs s) dv n = Some b" "0 < refs c n" "settle s = s"
  shows "moved s (upd_buf b (b_data_update (\<lambda>_. v)) s)"
    "cache_at dv p pid (upd_buf b (b_data_update (\<lambda>_. v)) s) (c\<lparr>view := (view c)(n := v)\<rparr>)"
    "buf_of (bufs (upd_buf b (b_data_update (\<lambda>_. v)) s)) dv m = buf_of (bufs s) dv m"
proof -
  let ?t = "upd_buf b (b_data_update (\<lambda>_. v)) s"
  note B = cache_at_buf [OF assms(1,2)]
  have q: "quiet p s" using assms(1) by (auto simp: cache_at_def)
  have "?t = (settle s)\<lparr>proc := proc s, slk := slk s, bufs := (bufs s)(b := (bufs s b)\<lparr>b_data := v\<rparr>)\<rparr>"
    by (rule disks.equality) (simp_all add: assms(4) upd_buf_def)
  then have to: "bio_to s (slk s) (disk s) ((bufs s)(b := (bufs s b)\<lparr>b_data := v\<rparr>)) ?t"
    using bio_to_upd [OF q only_woken_refl] by metis
  then show "moved s ?t" by (rule bio_to_moved)
  have to': "bio_to s (slk s) (disk s) ((bufs s)(b := (bufs s b)\<lparr>b_data := v, refcnt := refcnt (bufs s b)\<rparr>)) ?t"
    using to by (simp only: buf_same(2))
  have "refcnt (bufs s b) \<noteq> 0" using B(1) assms(3) by auto
  then have "cache_at dv p pid ?t (c\<lparr>view := (view c)(n := v), refs := (refs c)(n := unat (refcnt (bufs s b))),
      holder := (holder c)(n := if sl_locked (slk s (BufSleep b)) then Some (sl_pid (slk s (BufSleep b))) else None)\<rparr>)"
    and B3: "buf_of (bufs ?t) dv m = buf_of (bufs s) dv m"
    by (intro cache_at_upd [OF assms(1-3) to'], simp_all)+
  then show "cache_at dv p pid ?t (c\<lparr>view := (view c)(n := v)\<rparr>)"
    unfolding holder_now [OF assms(1,2)] B(1) [symmetric] cache_same(4) by simp
  show "buf_of (bufs ?t) dv m = buf_of (bufs s) dv m" by (rule B3)
qed

lemma pin_spec:
  assumes "cache_at dv p pid s c" "buf_of (bufs s) dv n = Some b" "0 < refs c n"
  shows "refs c n < 2 ^ 32 - 1 \<Longrightarrow> \<exists>t. bpin b s = Some t \<and> moved s t \<and> disk t = disk s \<and>
      cache_at dv p pid t (c\<lparr>refs := (refs c)(n := refs c n + 1)\<rparr>) \<and> (\<forall>m. buf_of (bufs t) dv m = buf_of (bufs s) dv m)"
    and "1 < refs c n \<Longrightarrow> \<exists>t. bunpin b s = Some t \<and> moved s t \<and> disk t = disk s \<and>
      cache_at dv p pid t (c\<lparr>refs := (refs c)(n := refs c n - 1)\<rparr>) \<and> (\<forall>m. buf_of (bufs t) dv m = buf_of (bufs s) dv m)"
proof -
  note B = cache_at_buf [OF assms(1,2)]
  have q: "quiet p s" using assms(1) by (auto simp: cache_at_def)
  have up: "moved s t \<and> disk t = disk s \<and> cache_at dv p pid t (c\<lparr>refs := (refs c)(n := unat r)\<rparr>) \<and>
      (\<forall>m. buf_of (bufs t) dv m = buf_of (bufs s) dv m)"
    if to: "bio_to s (slk s) (disk s) ((bufs s)(b := (bufs s b)\<lparr>refcnt := r\<rparr>)) t" and r: "r \<noteq> 0" for r t
  proof -
    have to': "bio_to s (slk s) (disk s) ((bufs s)(b := (bufs s b)\<lparr>b_data := b_data (bufs s b), refcnt := r\<rparr>)) t"
      using to by (simp only: buf_same(1))
    have "cache_at dv p pid t (c\<lparr>view := (view c)(n := b_data (bufs s b)), refs := (refs c)(n := unat r),
        holder := (holder c)(n := if sl_locked (slk s (BufSleep b)) then Some (sl_pid (slk s (BufSleep b))) else None)\<rparr>)"
      using r by (intro cache_at_upd(1) [OF assms to']) simp_all
    then have "cache_at dv p pid t (c\<lparr>refs := (refs c)(n := unat r)\<rparr>)"
      unfolding holder_now [OF assms(1,2)] using B(7) [OF assms(3)] by (simp only: cache_same(2,3))
    moreover have "buf_of (bufs t) dv m = buf_of (bufs s) dv m" for m
      using r by (intro cache_at_upd(2) [OF assms to']) simp_all
    ultimately show ?thesis using bio_to_moved [OF to] bio_to_fields(2) [OF to] by simp
  qed
  show "\<exists>t. bpin b s = Some t \<and> moved s t \<and> disk t = disk s \<and>
      cache_at dv p pid t (c\<lparr>refs := (refs c)(n := refs c n + 1)\<rparr>) \<and> (\<forall>m. buf_of (bufs t) dv m = buf_of (bufs s) dv m)"
    if "refs c n < 2 ^ 32 - 1"
  proof -
    have r: "unat (refcnt (bufs s b) + 1) = refs c n + 1" using that B(1) by (simp add: unat_word_ariths)
    then have "refcnt (bufs s b) + 1 \<noteq> 0" by (metis add_is_0 one_neq_zero unat_0)
    then show ?thesis using bpin_eq(1) [OF q, of b] up unfolding r [symmetric] by blast
  qed
  show "\<exists>t. bunpin b s = Some t \<and> moved s t \<and> disk t = disk s \<and>
      cache_at dv p pid t (c\<lparr>refs := (refs c)(n := refs c n - 1)\<rparr>) \<and> (\<forall>m. buf_of (bufs t) dv m = buf_of (bufs s) dv m)"
    if "1 < refs c n"
  proof -
    have "refcnt (bufs s b) \<noteq> 0" using that B(1) by auto
    then have r: "unat (refcnt (bufs s b) - 1) = refs c n - 1" using B(1) unat_minus_one [of "refcnt (bufs s b)"] by simp
    then have "refcnt (bufs s b) - 1 \<noteq> 0" using that by auto
    then show ?thesis using bpin_eq(2) [OF q, of b] up unfolding r [symmetric] by blast
  qed
qed

lemma brelse_spec:
  assumes "cache_at dv p pid s c" "buf_of (bufs s) dv n = Some b" "holder c n = Some pid"
    and "1 < refs c n \<or> view c n = sectors (disk s) (block_sector n)"
  shows "\<exists>t. brelse b s = Some t \<and> moved s t \<and> disk t = disk s \<and>
    cache_at dv p pid t (c\<lparr>refs := (refs c)(n := refs c n - 1), holder := (holder c)(n := None)\<rparr>) \<and>
    (\<forall>m. buf_of (bufs t) dv m = buf_of (bufs s) dv m)"
proof -
  note B = cache_at_buf [OF assms(1,2)]
  have q: "quiet p s" "p_pid (proc s p) = pid" and ok: "cache_ok dv (slk s) (disk s) (bufs s)"
    and c: "c = cache_of dv (slk s) (disk s) (bufs s)" using assms(1) by (auto simp: cache_at_def)
  have h: "sl_locked (slk s (BufSleep b))" "sl_pid (slk s (BufSleep b)) = pid" "0 < refs c n" using B(6) [OF assms(3)] by auto
  let ?r = "refcnt (bufs s b) - 1"
  let ?x = "(bufs s b)\<lparr>refcnt := ?r\<rparr>" and ?sl = "drop_lock b (slk s)"
  let ?bf = "(bufs s)(b := ?x)"
  have "refcnt (bufs s b) \<noteq> 0" using B(1) h(3) by auto
  then have r: "unat ?r = refs c n - 1" using B(1) unat_minus_one [of "refcnt (bufs s b)"] by simp
  have x: "b_dev ?x = dv" "blockno ?x = n" "b_prev ?x = b_prev (bufs s b)" "b_next ?x = b_next (bufs s b)" "valid_b ?x" "\<not> b_disk ?x"
    using B h(3) by simp_all
  have sl: "k \<noteq> b \<Longrightarrow> ?sl (BufSleep k) = slk s (BufSleep k)" "\<not> sl_locked (?sl (BufSleep b))" for k by (simp_all add: drop_lock_def)
  have z: "\<not> sl_locked (?sl (BufSleep b)) \<and> b_data ?x = sectors (disk s) (block_sector n)" if "refcnt ?x = 0"
    using that r assms(4) B(7) [OF h(3)] sl(2) by auto
  have U1: "cache_ok dv ?sl (disk s) ?bf" by (rule cache_upd(1) [OF ok assms(2) x], erule sl, rule refl, erule z)
  have U2: "cache_of dv ?sl (disk s) ?bf = c\<lparr>refs := (refs c)(n := refs c n - 1), holder := (holder c)(n := None)\<rparr>"
  proof -
    have "cache_of dv ?sl (disk s) ?bf = c\<lparr>view := (view c)(n := b_data ?x), refs := (refs c)(n := unat (refcnt ?x)),
        holder := (holder c)(n := if sl_locked (?sl (BufSleep b)) then Some (sl_pid (?sl (BufSleep b))) else None)\<rparr>"
      unfolding c by (rule cache_upd(2) [OF ok assms(2) x], erule sl, rule refl, erule z)
    also have "\<dots> = c\<lparr>view := (view c)(n := view c n), refs := (refs c)(n := refs c n - 1), holder := (holder c)(n := None)\<rparr>"
      using B(7) [OF h(3)] r sl(2) by simp
    finally show ?thesis by (simp only: cache_same(2))
  qed
  have U3: "buf_of ?bf dv m = buf_of (bufs s) dv m" for m by (rule cache_upd(3) [OF ok assms(2) x], erule sl, rule refl, erule z)
  obtain bs where bs: "lru ?bf bs" using U1 by (auto simp: cache_ok_def)
  have R: "\<exists>bs. lru (release_buf b (bufs s)) bs" "core (release_buf b (bufs s) i) = core (?bf i)" for i
    using bs lru_move [OF bs B(4)] by (auto simp: release_buf_def Let_def)
  obtain bs' where bs': "lru (release_buf b (bufs s)) bs'" using R(1) by blast
  note K = cache_ok_core [where bf = ?bf and bf' = "release_buf b (bufs s)", OF U1 R(2) bs']
  obtain t where t: "brelse b s = Some t" "bio_to s ?sl (disk s) (release_buf b (bufs s)) t"
    using brelse_eq [OF q(1) h(1)] h(2) q(2) by auto
  show ?thesis using t(1) bio_to_moved [OF t(2)] bio_to_fields(2,3) [OF t(2)] cache_atI [OF assms(1) t(2) K(1)] K(2,3) U2 U3
    by (intro exI [of _ t]) (simp del: fun_upd_apply)
qed

section \<open>The cache after booting\<close>

lemma init_fields [simp]:
  "cpus (initlock lk nm s) = cpus s" "hart (initlock lk nm s) = hart s" "cpu_proc (initlock lk nm r) = cpu_proc r"
  "proc (initlock lk nm r) = proc r" "slk (initlock lk nm r) = slk r" "vd (initlock lk nm u) = vd u"
  "device (initlock lk nm u) = device u" "disk (initlock lk nm u) = disk u" "bufs (initlock lk nm u) = bufs u"
  "free l s \<Longrightarrow> free l (initlock lk nm s)"
  by (auto simp: initlock_def free_def)

lemma initsleep_fields [simp]:
  "cpus (initsleeplock i nm s) = cpus s" "hart (initsleeplock i nm s) = hart s" "cpu_proc (initsleeplock i nm s) = cpu_proc s"
  "proc (initsleeplock i nm s) = proc s" "slk (initsleeplock i nm s) = (slk s)(i := \<lparr>sl_locked = False, sl_name = nm, sl_pid = 0\<rparr>)"
  "vd (initsleeplock i nm u) = vd u" "device (initsleeplock i nm u) = device u" "disk (initsleeplock i nm u) = disk u"
  "bufs (initsleeplock i nm u) = bufs u" "free l s \<Longrightarrow> free l (initsleeplock i nm s)"
  by (auto simp: initsleeplock_def upd_slk_def)

lemma quiet_cong:
  "cpus t = cpus s \<Longrightarrow> hart t = hart s \<Longrightarrow> cpu_proc t = cpu_proc s \<Longrightarrow> vd t = vd s \<Longrightarrow> device t = device s \<Longrightarrow>
   (\<And>l. free l s \<Longrightarrow> free l t) \<Longrightarrow> quiet p s \<Longrightarrow> quiet p t"
  by (simp add: quiet_def cpu_ok_def mycpu_def)

text \<open>\<open>binit\<close> builds the ring: the buffers from the last to the first, nothing locked.\<close>

lemma binit_loop_ring:
  assumes "dll (links (bufs s)) HEAD xs" "distinct bs" "set bs \<inter> set xs = {}" "HEAD \<notin> set bs"
  shows "dll (links (bufs (binit_loop bs s))) HEAD (rev bs @ xs) \<and> (\<forall>i. core (bufs (binit_loop bs s) i) = core (bufs s i)) \<and>
    (\<forall>b\<in>set bs. \<not> sl_locked (slk (binit_loop bs s) (BufSleep b))) \<and>
    (\<forall>b. b \<notin> set bs \<longrightarrow> slk (binit_loop bs s) (BufSleep b) = slk s (BufSleep b)) \<and>
    (\<forall>p. quiet p s \<longrightarrow> quiet p (binit_loop bs s)) \<and> proc (binit_loop bs s) = proc s \<and> disk (binit_loop bs s) = disk s"
  using assms
proof (induction bs arbitrary: s xs)
  case (Cons b bs)
  let ?t = "bpush b (initsleeplock (BufSleep b) ''buffer'' s)"
  have b: "b \<noteq> HEAD" "b \<notin> set xs" using Cons.prems by auto
  have d: "seg (links (bufs s)) HEAD xs HEAD" "distinct xs" "HEAD \<notin> set xs" using Cons.prems(1) by (auto simp: dll_def)
  have n: "nxt (links (bufs s)) HEAD = hd (xs @ [HEAD])" using seg_first [OF d(1)] .
  then have "b \<noteq> nxt (links (bufs s)) HEAD" using b by (cases xs) auto
  then have "links (bufs ?t) = list_add_between b (last (HEAD # [])) (hd (xs @ [HEAD])) (links (bufs s))"
    using links_push [OF b(1)] n by (simp add: bpush_eq)
  then have "dll (links (bufs ?t)) HEAD (b # xs)"
    using add_between_seg [of "links (bufs s)" HEAD "[]" xs HEAD b] d b by (auto simp: dll_def)
  moreover have "quiet p ?t" if "quiet p s" for p
    using that by (auto simp: bpush_eq intro: quiet_cong [of _ s])
  ultimately show ?case
    using Cons.IH [of ?t "b # xs"] Cons.prems by (simp add: bpush_eq)
qed simp

definition fresh :: "'a disks_scheme \<Rightarrow> bool" where
  "fresh s \<longleftrightarrow> (\<forall>b<NBUF. b_dev (bufs s b) = 0 \<and> refcnt (bufs s b) = 0 \<and> \<not> b_disk (bufs s b))"

lemma binit_cache:
  assumes "quiet p s" "fresh s" "dv \<noteq> 0"
  shows "cache_at dv p (p_pid (proc s p)) (binit s)
    \<lparr>view = (\<lambda>n. if small n then sectors (disk s) (block_sector n) else (\<lambda>_. 0)), refs = (\<lambda>_. 0), holder = (\<lambda>_. None)\<rparr>"
    "disk (binit s) = disk s"
proof -
  define s0 where "s0 = upd_buf HEAD (b_next_update (\<lambda>_. HEAD)) (upd_buf HEAD (b_prev_update (\<lambda>_. HEAD)) (initlock BcacheLock ''bcache'' s))"
  have "dll (links (bufs s0)) HEAD []" by (simp add: dll_def s0_def upd_buf_def links_def)
  then have R: "dll (links (bufs (binit s))) HEAD (rev [0..<NBUF]) \<and> (\<forall>i. core (bufs (binit s) i) = core (bufs s0 i)) \<and>
      (\<forall>b<NBUF. \<not> sl_locked (slk (binit s) (BufSleep b))) \<and> (\<forall>p. quiet p s0 \<longrightarrow> quiet p (binit s)) \<and>
      proc (binit s) = proc s0 \<and> disk (binit s) = disk s0"
    using binit_loop_ring [of s0 "[]" "[0..<NBUF]"] by (simp add: binit_def s0_def [symmetric] Let_def)
  have s0: "quiet p s0" "proc s0 = proc s" "disk s0 = disk s" "i < NBUF \<Longrightarrow> bufs s0 i = bufs s i" for i
    using assms(1) by (auto simp: s0_def upd_buf_def intro: quiet_cong [of _ s])
  have f: "b_dev (bufs (binit s) b) = 0" "refcnt (bufs (binit s) b) = 0" "\<not> b_disk (bufs (binit s) b)" if "b < NBUF" for b
    using assms(2) that R s0(4) core_fields [of "bufs (binit s) b" "bufs s0 b"] by (auto simp: fresh_def)
  have "lru (bufs (binit s)) (rev [0..<NBUF])" using R by (auto simp: lru_def)
  then have ok: "cache_ok dv (slk (binit s)) (disk s) (bufs (binit s))"
    using f R assms(3) unfolding cache_ok_def slot_ok_def by auto
  have "buf_of (bufs (binit s)) dv n = None" for n
    using f assms(3) by (auto simp: buf_of_def find_None_iff is_blk_def)
  then have "cache_of dv (slk (binit s)) (disk s) (bufs (binit s)) =
      \<lparr>view = (\<lambda>n. if small n then sectors (disk s) (block_sector n) else (\<lambda>_. 0)), refs = (\<lambda>_. 0), holder = (\<lambda>_. None)\<rparr>"
    by (auto simp: cache_of_def)
  then show "cache_at dv p (p_pid (proc s p)) (binit s)
    \<lparr>view = (\<lambda>n. if small n then sectors (disk s) (block_sector n) else (\<lambda>_. 0)), refs = (\<lambda>_. 0), holder = (\<lambda>_. None)\<rparr>"
    using R s0 ok by (simp add: cache_at_def)
  show "disk (binit s) = disk s" using R s0 by simp
qed

section \<open>The contract\<close>


definition fsample :: disks where
  "fsample = vsample\<lparr>bufs := (\<lambda>_. sample_buf\<lparr>b_dev := 0, refcnt := 0\<rparr>)\<rparr>"

lemma fsample_quiet: "quiet 0 fsample" "fresh fsample" "disk fsample = \<lparr>sectors = (\<lambda>_ _. 9), writes = []\<rparr>"
  by (simp_all add: fsample_def quiet_def fresh_def sample_buf_def)


end
