(* ===== verification/Recovery.thy ===== *)
theory Recovery
  imports Log Cache
begin

text \<open>
  What the log promises. Every operation is followed on the abstract cache of Cache; the writes that
  reach the disk during a commit are determined, and a crash after any prefix of them is repaired by
  \<open>initlog\<close>: all blocks of the transaction are old, or all are new.
\<close>

section \<open>One block copied\<close>

declare write_log_loop.simps [simp del] install_loop.simps [simp del]

lemma moved_log [simp]: "moved s t \<Longrightarrow> log_st t = log_st s"
proof -
  assume "moved s t"
  then obtain pr m v where "t = (settle s)\<lparr>proc := pr, slk := slk t, mmio_st := m, vd := v, disk := disk t, bufs := bufs t\<rparr>"
    by (auto simp: moved_def bio_to_def)
  then have "log_st t = log_st \<dots>" by (rule arg_cong)
  then show ?thesis by simp
qed

definition spare :: "nat \<Rightarrow> cache \<Rightarrow> bool" where
  "spare k c \<longleftrightarrow> card {n. 0 < refs c n} + k \<le> NBUF"

lemma spare_room: "spare k c \<Longrightarrow> 0 < k \<Longrightarrow> room c"
  by (simp add: spare_def room_def)

lemma spare_Suc: "spare (Suc k) c \<Longrightarrow> refs c' = (refs c)(n := m) \<Longrightarrow> spare k c'"
proof -
  assume a: "spare (Suc k) c" "refs c' = (refs c)(n := m)"
  have "card {x. 0 < refs c' x} \<le> card (insert n {x. 0 < refs c x})" using a(2) by (intro card_mono) auto
  also have "\<dots> \<le> Suc (card {x. 0 < refs c x})" by (rule card_insert_le_m1) simp_all
  finally show ?thesis using a(1) by (simp add: spare_def)
qed

definition put :: "uint \<Rightarrow> bytes \<Rightarrow> platter \<Rightarrow> platter" where
  "put n v d = d\<lparr>sectors := (sectors d)(block_sector n := v), writes := writes d @ [(block_sector n, v)]\<rparr>"

text \<open>
  The body of the loop of \<open>write_log\<close>: the current contents of the home block go to the log block, in
  the cache and on the disk.
\<close>

lemma log_step:
  fixes s :: "'a logs_scheme" and i :: nat
  defines "lb \<equiv> log_data_block i s" and "hb \<equiv> log_block s i" and "dv \<equiv> l_dev (log_st s)"
  assumes at: "cache_at dv p pid s c" and lb: "small lb" "refs c lb = 0" and hb: "small hb" "holder c hb = None" "0 < refs c hb"
    and ne: "lb \<noteq> hb" and room: "room c" and big: "refs c hb < 2 ^ 32 - 1" and i: "i < n"
  shows "\<exists>t. write_log_loop i n s = write_log_loop (Suc i) n t \<and> moved s t \<and>
    cache_at dv p pid t (c\<lparr>view := (view c)(lb := view c hb)\<rparr>) \<and> disk t = put lb (view c hb) (disk s)"
proof -
  have h0: "holder c lb = None" using cache_at_unused(1) [OF at lb(2)] .
  define c1 where "c1 = c\<lparr>refs := (refs c)(lb := 1), holder := (holder c)(lb := Some pid)\<rparr>"
  obtain to t1 where t1: "bread dv lb s = Some (to, t1)" "moved s t1" "disk t1 = disk s" "cache_at dv p pid t1 c1"
    "buf_of (bufs t1) dv lb = Some to"
    using bread_spec [OF at lb(1) h0] lb(2) room by (auto simp: c1_def)
  have "holder c1 hb = None" "refs c1 hb = refs c hb" "0 < refs c1 lb" "view c1 = view c" using hb ne by (simp_all add: c1_def)
  note 1 = this
  define c2 where "c2 = c1\<lparr>refs := (refs c1)(hb := refs c hb + 1), holder := (holder c1)(hb := Some pid)\<rparr>"
  obtain from_b t2 where t2: "bread dv hb t1 = Some (from_b, t2)" "moved t1 t2" "disk t2 = disk t1" "cache_at dv p pid t2 c2"
    "buf_of (bufs t2) dv hb = Some from_b" "b_data (bufs t2 from_b) = view c hb" "buf_of (bufs t2) dv lb = Some to"
    using bread_spec [OF t1(4) hb(1) 1(1)] 1 hb(3) big t1(5) by (auto simp: c2_def)
  have 2: "0 < refs c2 lb" "holder c2 lb = Some pid" "view c2 = view c" using ne by (simp_all add: c2_def c1_def)
  define t3 where "t3 = set_data to (view c hb) t2"
  define c3 where "c3 = c2\<lparr>view := (view c)(lb := view c hb)\<rparr>"
  have t3: "moved t2 t3" "cache_at dv p pid t3 c3" "buf_of (bufs t3) dv m = buf_of (bufs t2) dv m" "disk t3 = disk t2" for m
    using data_spec [OF t2(4,7) 2(1) moved_settled [OF t2(2)], of "view c hb"] 2(3) by (simp_all add: t3_def set_data_def c3_def upd_buf_def)
  have b3: "buf_of (bufs t3) dv lb = Some to" "holder c3 lb = Some pid" "view c3 lb = view c hb" using t3(3) t2(7) 2(2) by (simp_all add: c3_def)
  obtain t4 where t4: "bwrite to t3 = Some t4" "moved t3 t4" "cache_at dv p pid t4 c3" "bufs t4 = bufs t3" "disk t4 = put lb (view c hb) (disk t3)"
    using bwrite_spec [OF t3(2) b3(1,2)] b3(3) by (auto simp: put_def)
  have 4: "buf_of (bufs t4) dv hb = Some from_b" "holder c3 hb = Some pid" "1 < refs c3 hb" "refs c3 hb = refs c hb + 1"
    using t4(4) t3(3) t2(5) hb(3) by (simp_all add: c3_def c2_def)
  define c5 where "c5 = c3\<lparr>refs := (refs c3)(hb := refs c hb), holder := (holder c3)(hb := None)\<rparr>"
  obtain t5 where t5: "brelse from_b t4 = Some t5" "moved t4 t5" "disk t5 = disk t4" "cache_at dv p pid t5 c5" "buf_of (bufs t5) dv lb = Some to"
    using brelse_spec [OF t4(3) 4(1,2) disjI1 [OF 4(3)]] t4(4) b3(1) 4(4) by (auto simp: c5_def)
  have 5: "holder c5 lb = Some pid" "view c5 lb = sectors (disk t5) (block_sector lb)"
    using ne b3(2) t5(3) t4(5) by (simp_all add: c5_def c3_def put_def)
  obtain t6 where t6: "brelse to t5 = Some t6" "moved t5 t6" "disk t6 = disk t5"
    "cache_at dv p pid t6 (c5\<lparr>refs := (refs c5)(lb := refs c5 lb - 1), holder := (holder c5)(lb := None)\<rparr>)"
    using brelse_spec [OF t5(4,5) 5(1) disjI2 [OF 5(2)]] by blast
  have "c5\<lparr>refs := (refs c5)(lb := refs c5 lb - 1), holder := (holder c5)(lb := None)\<rparr> = c\<lparr>view := (view c)(lb := view c hb)\<rparr>"
    using ne lb(2) h0 hb(2) by (intro cache.equality) (auto simp: c5_def c3_def c2_def c1_def fun_eq_iff)
  then have c6: "cache_at dv p pid t6 (c\<lparr>view := (view c)(lb := view c hb)\<rparr>)" using t6(4) by simp
  have l: "log_st t1 = log_st s" using t1(2) by simp
  have "write_log_loop i n s = write_log_loop (Suc i) n t6"
    apply (subst write_log_loop.simps)
    using i t1(1) t2(1,6) t4(1) t5(1) t6(1) l by (simp add: t3_def lb_def hb_def dv_def)
  moreover have "moved s t6"
    using t1(2) t2(2) t3(1) t4(2) t5(2) t6(2) by (blast intro: moved_trans)
  ultimately show ?thesis using c6 t1(3) t2(3) t3(4) t4(5) t5(3) t6(3) by auto
qed

text \<open>
  The body of the loop of \<open>install_trans\<close>: the log block goes to the home block; after a commit the pin
  that \<open>log_write\<close> took is dropped.
\<close>

lemma install_step:
  fixes s :: "'a logs_scheme" and i :: nat
  defines "lb \<equiv> log_data_block i s" and "hb \<equiv> log_block s i" and "dv \<equiv> l_dev (log_st s)"
  assumes at: "cache_at dv p pid s c" and lb: "small lb" "refs c lb = 0" and hb: "small hb" "holder c hb = None"
    and ne: "lb \<noteq> hb" and room: "spare 1 c" "\<not> r \<longrightarrow> 0 < refs c hb" "r \<longrightarrow> spare 2 c"
    and big: "refs c hb < 2 ^ 32 - 1" and i: "i < n"
  shows "\<exists>t. install_loop r i n s = install_loop r (Suc i) n t \<and> moved s t \<and>
    cache_at dv p pid t (c\<lparr>view := (view c)(hb := view c lb), refs := (refs c)(hb := if r then refs c hb else refs c hb - 1)\<rparr>) \<and>
    disk t = put hb (view c lb) (disk s)"
proof -
  have h0: "holder c lb = None" using cache_at_unused(1) [OF at lb(2)] .
  define c1 where "c1 = c\<lparr>refs := (refs c)(lb := 1), holder := (holder c)(lb := Some pid)\<rparr>"
  obtain l_b t1 where t1: "bread dv lb s = Some (l_b, t1)" "moved s t1" "disk t1 = disk s" "cache_at dv p pid t1 c1"
    "buf_of (bufs t1) dv lb = Some l_b"
    using bread_spec [OF at lb(1) h0] lb(2) spare_room [OF room(1)] by (auto simp: c1_def)
  have 1: "holder c1 hb = None" "refs c1 hb = refs c hb" "0 < refs c1 lb" "view c1 = view c" using hb ne by (simp_all add: c1_def)
  have r1: "0 < refs c1 hb \<or> room c1"
  proof (cases r)
    case True
    then have "spare (Suc 1) c" using room(3) by (simp add: numeral_2_eq_2)
    then have "spare 1 c1" by (rule spare_Suc) (simp add: c1_def)
    then show ?thesis using spare_room [of 1] by simp
  qed (use room(2) 1(2) in simp)
  define c2 where "c2 = c1\<lparr>refs := (refs c1)(hb := refs c hb + 1), holder := (holder c1)(hb := Some pid)\<rparr>"
  obtain d_b t2 where t2: "bread dv hb t1 = Some (d_b, t2)" "moved t1 t2" "disk t2 = disk t1" "cache_at dv p pid t2 c2"
    "buf_of (bufs t2) dv hb = Some d_b" "buf_of (bufs t2) dv lb = Some l_b"
    using bread_spec [OF t1(4) hb(1) 1(1) _ r1] 1 big t1(5) by (auto simp: c2_def)
  have 2: "0 < refs c2 hb" "0 < refs c2 lb" "view c2 = view c" using ne by (simp_all add: c2_def c1_def)
  have d2: "b_data (bufs t2 l_b) = view c lb" using cache_at_buf(7) [OF t2(4,6) 2(2)] 2(3) by simp
  define t3 where "t3 = set_data d_b (view c lb) t2"
  define c3 where "c3 = c2\<lparr>view := (view c)(hb := view c lb)\<rparr>"
  have t3: "moved t2 t3" "cache_at dv p pid t3 c3" "buf_of (bufs t3) dv m = buf_of (bufs t2) dv m" "disk t3 = disk t2" for m
    using data_spec [OF t2(4,5) 2(1) moved_settled [OF t2(2)], of "view c lb"] 2(3) by (simp_all add: t3_def set_data_def c3_def upd_buf_def)
  have b3: "buf_of (bufs t3) dv hb = Some d_b" "holder c3 hb = Some pid" "view c3 hb = view c lb"
    using t3(3) t2(5) by (simp_all add: c3_def c2_def)
  obtain t4 where t4: "bwrite d_b t3 = Some t4" "moved t3 t4" "cache_at dv p pid t4 c3" "bufs t4 = bufs t3" "disk t4 = put hb (view c lb) (disk t3)"
    using bwrite_spec [OF t3(2) b3(1,2)] b3(3) by (auto simp: put_def)
  have b4: "buf_of (bufs t4) dv hb = Some d_b" "buf_of (bufs t4) dv lb = Some l_b" "refs c3 hb = refs c hb + 1"
    using b3(1) t3(3) t2(6) t4(4) by (simp_all add: c3_def c2_def)
  define c5 where "c5 = c3\<lparr>refs := (refs c3)(hb := if r then refs c hb + 1 else refs c hb)\<rparr>"
  obtain t5 where t5: "(if r then Some t4 else bunpin d_b t4) = Some t5" "moved s t5" "disk t5 = disk t4" "cache_at dv p pid t5 c5"
    "buf_of (bufs t5) dv m = buf_of (bufs t4) dv m" for m
  proof (cases r)
    case True
    have "moved s t4" using t1(2) t2(2) t3(1) t4(2) by (blast intro: moved_trans)
    moreover have "c5 = c3" using True b4(3) by (intro cache.equality) (auto simp: c5_def)
    ultimately show thesis using that [of t4] t4(3) True by simp
  next
    case False
    then have "1 < refs c3 hb" "0 < refs c3 hb" using room(2) b4(3) by simp_all
    then obtain t5 where x: "bunpin d_b t4 = Some t5" "moved t4 t5" "disk t5 = disk t4"
      "cache_at dv p pid t5 (c3\<lparr>refs := (refs c3)(hb := refs c3 hb - 1)\<rparr>)" "\<forall>m. buf_of (bufs t5) dv m = buf_of (bufs t4) dv m"
      using pin_spec(2) [OF t4(3) b4(1)] by blast
    have "moved s t5" using t1(2) t2(2) t3(1) t4(2) x(2) by (blast intro: moved_trans)
    then show thesis using that [of t5] x False b4(3) by (simp add: c5_def)
  qed
  have 5: "holder c5 lb = Some pid" "view c5 lb = view c lb" "refs c5 lb = 1" "holder c5 hb = Some pid" "view c5 hb = view c lb"
    using ne by (simp_all add: c5_def c3_def c2_def c1_def)
  have ns: "block_sector lb \<noteq> block_sector hb" using block_sector_inj [OF lb(1) hb(1)] ne by blast
  have "view c5 lb = sectors (disk t5) (block_sector lb)"
    using 5(2) cache_at_unused(2) [OF at lb(2,1)] ns t1(3) t2(3) t3(4) t4(5) t5(3) by (simp add: put_def)
  note clean = this
  define c6 where "c6 = c5\<lparr>refs := (refs c5)(lb := 0), holder := (holder c5)(lb := None)\<rparr>"
  have b5: "buf_of (bufs t5) dv lb = Some l_b" "buf_of (bufs t5) dv hb = Some d_b" using t5(5) b4 by simp_all
  obtain t6 where t6: "brelse l_b t5 = Some t6" "moved t5 t6" "disk t6 = disk t5" "cache_at dv p pid t6 c6" "buf_of (bufs t6) dv hb = Some d_b"
    using brelse_spec [OF t5(4) b5(1) 5(1) disjI2 [OF clean]] b5(2) 5(3) by (auto simp: c6_def)
  have 6: "holder c6 hb = Some pid" "view c6 hb = sectors (disk t6) (block_sector hb)"
    using ne 5(4,5) t6(3) t5(3) t4(5) by (simp_all add: c6_def put_def)
  obtain t7 where t7: "brelse d_b t6 = Some t7" "moved t6 t7" "disk t7 = disk t6"
    "cache_at dv p pid t7 (c6\<lparr>refs := (refs c6)(hb := refs c6 hb - 1), holder := (holder c6)(hb := None)\<rparr>)"
    using brelse_spec [OF t6(4,5) 6(1) disjI2 [OF 6(2)]] by blast
  have "c6\<lparr>refs := (refs c6)(hb := refs c6 hb - 1), holder := (holder c6)(hb := None)\<rparr> =
    c\<lparr>view := (view c)(hb := view c lb), refs := (refs c)(hb := if r then refs c hb else refs c hb - 1)\<rparr>"
    using ne lb(2) h0 hb(2) by (intro cache.equality) (auto simp: c6_def c5_def c3_def c2_def c1_def fun_eq_iff)
  then have c7: "cache_at dv p pid t7 (c\<lparr>view := (view c)(hb := view c lb), refs := (refs c)(hb := if r then refs c hb else refs c hb - 1)\<rparr>)"
    using t7(4) by simp
  have l: "log_st t1 = log_st s" using t1(2) by simp
  have "install_loop r i n s = install_loop r (Suc i) n t7"
    apply (subst install_loop.simps)
    using i t1(1) t2(1) d2 t4(1) t5(1) t6(1) t7(1) l by (simp add: t3_def lb_def hb_def dv_def)
  moreover have "moved s t7"
    using t5(2) t6(2) t7(2) by (blast intro: moved_trans)
  ultimately show ?thesis using c7 t1(3) t2(3) t3(4) t4(5) t5(3) t6(3) t7(3) by auto
qed

section \<open>The layout of the log\<close>

text \<open>Block \<open>i\<close> of the log region and the home block whose contents it holds.\<close>

definition log_at :: "log \<Rightarrow> nat \<Rightarrow> uint" where
  "log_at l i = l_start l + of_nat i + 1"

abbreviation home_of :: "log \<Rightarrow> nat \<Rightarrow> uint" where
  "home_of l \<equiv> lh_block (l_lh l)"

definition in_log :: "uint \<Rightarrow> uint \<Rightarrow> bool" where
  "in_log st m \<longleftrightarrow> unat st \<le> unat m \<and> unat m \<le> unat st + LOGSIZE"

definition log_geom :: "log \<Rightarrow> nat \<Rightarrow> bool" where
  "log_geom l n \<longleftrightarrow> n \<le> LOGSIZE \<and> unat (l_start l) + LOGSIZE < 2 ^ 31 \<and>
     (\<forall>i<n. small (home_of l i) \<and> \<not> in_log (l_start l) (home_of l i)) \<and> inj_on (home_of l) {..<n}"

lemma log_data_block_at: "log_data_block i s = log_at (log_st s) i"
  by (simp add: log_data_block_def log_at_def)

lemma unat_log_at:
  assumes "unat (l_start l) + LOGSIZE < 2 ^ 31" "i < LOGSIZE"
  shows "unat (log_at l i) = unat (l_start l) + i + 1"
proof -
  have "log_at l i = of_nat (unat (l_start l) + i + 1)" by (simp add: log_at_def)
  then have "unat (log_at l i) = (unat (l_start l) + i + 1) mod 2 ^ 32" by (simp only: unat_of_nat take_bit_eq_mod) simp
  then show ?thesis using assms by simp
qed

lemma log_at_facts:
  assumes "unat (l_start l) + LOGSIZE < 2 ^ 31" "i < LOGSIZE"
  shows "small (log_at l i)" "in_log (l_start l) (log_at l i)" "log_at l i \<noteq> l_start l" "small (l_start l)" "in_log (l_start l) (l_start l)"
proof -
  note u = unat_log_at [OF assms]
  show "small (log_at l i)" "in_log (l_start l) (log_at l i)" "log_at l i \<noteq> l_start l" "small (l_start l)" "in_log (l_start l) (l_start l)"
    using u assms by (auto simp: small_def in_log_def word_less_nat_alt)
qed

lemma log_at_inj:
  assumes "unat (l_start l) + LOGSIZE < 2 ^ 31" "i < LOGSIZE" "j < LOGSIZE"
  shows "log_at l i = log_at l j \<longleftrightarrow> i = j"
proof
  assume "log_at l i = log_at l j"
  then have "unat (log_at l i) = unat (log_at l j)" by (rule arg_cong)
  then show "i = j" unfolding unat_log_at [OF assms(1,2)] unat_log_at [OF assms(1,3)] by simp
qed (rule arg_cong)

lemma log_geom_at:
  assumes "log_geom l n" "i < n"
  shows "small (log_at l i)" "in_log (l_start l) (log_at l i)" "log_at l i \<noteq> l_start l" "small (home_of l i)"
    "\<not> in_log (l_start l) (home_of l i)" "home_of l i \<noteq> l_start l" "j < n \<Longrightarrow> log_at l j \<noteq> home_of l i"
    "j < n \<Longrightarrow> log_at l j = log_at l i \<longleftrightarrow> j = i" "j < n \<Longrightarrow> home_of l j = home_of l i \<longleftrightarrow> j = i" "small (l_start l)"
proof -
  have n: "i < LOGSIZE" "j < n \<Longrightarrow> j < LOGSIZE" and st: "unat (l_start l) + LOGSIZE < 2 ^ 31" using assms by (auto simp: log_geom_def)
  note f = log_at_facts [OF st]
  show "small (log_at l i)" "in_log (l_start l) (log_at l i)" "log_at l i \<noteq> l_start l" "small (l_start l)" using f n(1) by blast+
  show h: "small (home_of l i)" "\<not> in_log (l_start l) (home_of l i)" using assms by (simp_all add: log_geom_def)
  show "home_of l i \<noteq> l_start l" using h f(5) n(1) by metis
  show "j < n \<Longrightarrow> log_at l j \<noteq> home_of l i" using h f(2) n(2) by metis
  show "j < n \<Longrightarrow> log_at l j = log_at l i \<longleftrightarrow> j = i" using log_at_inj [OF st] n by blast
  show "j < n \<Longrightarrow> home_of l j = home_of l i \<longleftrightarrow> j = i" using assms by (auto simp: log_geom_def inj_on_def)
qed

section \<open>Sequences of writes\<close>

primrec puts :: "(uint \<times> bytes) list \<Rightarrow> platter \<Rightarrow> platter" where
  "puts [] d = d"
| "puts (w # ws) d = puts ws (put (fst w) (snd w) d)"

primrec views :: "(uint \<times> bytes) list \<Rightarrow> (uint \<Rightarrow> bytes) \<Rightarrow> uint \<Rightarrow> bytes" where
  "views [] f = f"
| "views (w # ws) f = views ws (f(fst w := snd w))"

lemma puts_append [simp]: "puts (ws @ ws') d = puts ws' (puts ws d)" "views (ws @ ws') f = views ws' (views ws f)"
  by (induction ws arbitrary: d f) simp_all

lemma puts_writes: "writes (puts ws d) = writes d @ map (\<lambda>(m, v). (block_sector m, v)) ws"
  by (induction ws arbitrary: d) (auto simp: put_def case_prod_beta)

lemma views_other: "m \<notin> fst ` set ws \<Longrightarrow> views ws f m = f m"
  by (induction ws arbitrary: f) auto

lemma views_map: "distinct (map g is) \<Longrightarrow> i \<in> set is \<Longrightarrow> views (map (\<lambda>j. (g j, h j)) is) f (g i) = h i"
proof (induction "is" arbitrary: f)
  case (Cons j js)
  show ?case
  proof (cases "i \<in> set js")
    case False
    then have ij: "i = j" "g i \<notin> fst ` set (map (\<lambda>j. (g j, h j)) js)" using Cons.prems by (auto simp: image_iff)
    show ?thesis using views_other [OF ij(2), of "f(g j := h j)"] ij(1) by simp
  qed (use Cons in simp)
qed simp

lemma views_in: "m \<in> fst ` set ws \<Longrightarrow> views ws f m = views ws g m"
proof (induction ws arbitrary: f g)
  case (Cons w ws)
  show ?case
  proof (cases "m \<in> fst ` set ws")
    case False
    then show ?thesis using Cons.prems by (cases w) (auto simp: views_other)
  qed (use Cons.IH in simp)
qed simp

lemma puts_sectors:
  "\<forall>m\<in>fst ` set ws. small m \<Longrightarrow> small n \<Longrightarrow>
    sectors (puts ws d) (block_sector n) = views ws (\<lambda>m. sectors d (block_sector m)) n"
proof (induction ws arbitrary: d)
  case (Cons w ws)
  define m v where w: "m = fst w" "v = snd w"
  have "sectors (puts ws (put m v d)) (block_sector n) = views ws (\<lambda>x. sectors (put m v d) (block_sector x)) n" using Cons by simp
  also have "\<dots> = views ws ((\<lambda>x. sectors d (block_sector x))(m := v)) n"
  proof (cases "n \<in> fst ` set ws")
    case False
    have "block_sector n = block_sector m \<longleftrightarrow> n = m" using Cons.prems w by (intro block_sector_inj) simp_all
    then show ?thesis using False by (simp add: views_other put_def)
  next
    case True
    then show ?thesis by (rule views_in)
  qed
  finally show ?case by (simp add: w)
qed simp

section \<open>The loops\<close>

text \<open>The pairs a loop writes: \<open>dst j\<close> gets the contents of \<open>src j\<close>.\<close>

definition copies :: "(nat \<Rightarrow> uint) \<Rightarrow> (nat \<Rightarrow> bytes) \<Rightarrow> nat \<Rightarrow> nat \<Rightarrow> (uint \<times> bytes) list" where
  "copies dst v i n = map (\<lambda>j. (dst j, v j)) [i..<n]"

lemma copies_Cons: "i < n \<Longrightarrow> copies dst v i n = (dst i, v i) # copies dst v (Suc i) n"
  by (simp add: copies_def upt_conv_Cons)

lemma copies_none: "\<not> i < n \<Longrightarrow> copies dst v i n = []"
  by (simp add: copies_def)

lemma copies_cong: "(\<And>j. i \<le> j \<Longrightarrow> j < n \<Longrightarrow> v j = v' j) \<Longrightarrow> copies dst v i n = copies dst v' i n"
  by (simp add: copies_def)

definition log_idle :: "log \<Rightarrow> cache \<Rightarrow> bool" where
  "log_idle l c \<longleftrightarrow> refs c (l_start l) = 0 \<and> (\<forall>j<LOGSIZE. refs c (log_at l j) = 0)"

lemma write_log_loop_spec:
  assumes "log_geom L n" "cache_at (l_dev L) p pid s c" "log_st s = L" "log_idle L c" "room c"
    "\<forall>j<n. holder c (home_of L j) = None \<and> 0 < refs c (home_of L j) \<and> refs c (home_of L j) < 2 ^ 32 - 1"
  shows "\<exists>t. write_log_loop i n s = Some t \<and> log_st t = L \<and>
    cache_at (l_dev L) p pid t (c\<lparr>view := views (copies (log_at L) (\<lambda>j. view c (home_of L j)) i n) (view c)\<rparr>) \<and>
    disk t = puts (copies (log_at L) (\<lambda>j. view c (home_of L j)) i n) (disk s)"
  using assms
proof (induction "n - i" arbitrary: i s c)
  case 0
  then show ?case by (subst write_log_loop.simps) (simp add: copies_none)
next
  case (Suc k)
  then have i: "i < n" by simp
  note g = log_geom_at [OF Suc.prems(1) i]
  let ?lb = "log_at L i" and ?hb = "home_of L i"
  let ?c = "c\<lparr>view := (view c)(?lb := view c ?hb)\<rparr>"
  have li: "refs c ?lb = 0" using Suc.prems(1,4) i by (simp add: log_idle_def log_geom_def)
  obtain t where t: "write_log_loop i n s = write_log_loop (Suc i) n t" "moved s t" "cache_at (l_dev L) p pid t ?c"
    "disk t = put ?lb (view c ?hb) (disk s)"
    using log_step [where s = s and i = i and n = n and c = c and p = p and pid = pid] Suc.prems g(1,4) g(7) [OF i] li i
    by (auto simp: log_data_block_at)
  have "k = n - Suc i" using Suc.hyps(2) by simp
  then obtain u where u: "write_log_loop (Suc i) n t = Some u" "log_st u = L"
    "cache_at (l_dev L) p pid u (?c\<lparr>view := views (copies (log_at L) (\<lambda>j. view ?c (home_of L j)) (Suc i) n) (view ?c)\<rparr>)"
    "disk u = puts (copies (log_at L) (\<lambda>j. view ?c (home_of L j)) (Suc i) n) (disk t)"
    using Suc.hyps(1) [of "Suc i" t ?c] Suc.prems t(2,3) by (auto simp: log_idle_def room_def)
  have "copies (log_at L) (\<lambda>j. view ?c (home_of L j)) (Suc i) n = copies (log_at L) (\<lambda>j. view c (home_of L j)) (Suc i) n"
  proof (rule copies_cong)
    fix j assume "Suc i \<le> j" "j < n"
    then have "log_at L i \<noteq> home_of L j" using log_geom_at(7) [OF Suc.prems(1) _ i] by blast
    then show "view ?c (home_of L j) = view c (home_of L j)" by simp
  qed
  then show ?case using u t(1,4) by (simp add: copies_Cons [OF i])
qed

lemma spare_mono: "spare k c \<Longrightarrow> (\<And>m. refs c' m \<le> refs c m) \<Longrightarrow> spare k c'"
proof -
  assume a: "spare k c" "\<And>m. refs c' m \<le> refs c m"
  have "{m. 0 < refs c' m} \<subseteq> {m. 0 < refs c m}" using a(2) by (auto intro: less_le_trans)
  then have "card {m. 0 < refs c' m} \<le> card {m. 0 < refs c m}" by (intro card_mono) simp_all
  then show ?thesis using a(1) by (simp add: spare_def)
qed

definition unpinned :: "bool \<Rightarrow> uint set \<Rightarrow> (uint \<Rightarrow> nat) \<Rightarrow> uint \<Rightarrow> nat" where
  "unpinned r A f m = (if \<not> r \<and> m \<in> A then f m - 1 else f m)"

lemma install_loop_spec:
  assumes "log_geom L n" "cache_at (l_dev L) p pid s c" "log_st s = L" "log_idle L c" "spare (if r then 2 else 1) c"
    "\<forall>j<n. i \<le> j \<longrightarrow> holder c (home_of L j) = None \<and> (\<not> r \<longrightarrow> 0 < refs c (home_of L j)) \<and> refs c (home_of L j) < 2 ^ 32 - 1"
  shows "\<exists>t. install_loop r i n s = Some t \<and> log_st t = L \<and>
    cache_at (l_dev L) p pid t (c\<lparr>view := views (copies (home_of L) (\<lambda>j. view c (log_at L j)) i n) (view c),
      refs := unpinned r (home_of L ` {i..<n}) (refs c)\<rparr>) \<and>
    disk t = puts (copies (home_of L) (\<lambda>j. view c (log_at L j)) i n) (disk s)"
  using assms
proof (induction "n - i" arbitrary: i s c)
  case 0
  then have "unpinned r (home_of L ` {i..<n}) (refs c) = refs c" by (simp add: unpinned_def fun_eq_iff)
  then show ?case using 0 by (subst install_loop.simps) (simp add: copies_none)
next
  case (Suc k)
  then have i: "i < n" by simp
  note g = log_geom_at [OF Suc.prems(1) i]
  let ?lb = "log_at L i" and ?hb = "home_of L i"
  let ?c = "c\<lparr>view := (view c)(?hb := view c ?lb), refs := (refs c)(?hb := if r then refs c ?hb else refs c ?hb - 1)\<rparr>"
  have li: "refs c ?lb = 0" using Suc.prems(1,4) i by (simp add: log_idle_def log_geom_def)
  have sp: "spare 1 c" "r \<longrightarrow> spare 2 c" using Suc.prems(5) by (auto simp: spare_def split: if_splits)
  obtain t where t: "install_loop r i n s = install_loop r (Suc i) n t" "moved s t" "cache_at (l_dev L) p pid t ?c"
    "disk t = put ?hb (view c ?lb) (disk s)"
    using install_step [where s = s and i = i and n = n and c = c and p = p and pid = pid and r = r] Suc.prems g(1,4) g(7) [OF i] li i sp
    by (auto simp: log_data_block_at)
  have "k = n - Suc i" using Suc.hyps(2) by simp
  moreover have "log_idle L ?c" using Suc.prems(1,4) log_at_facts(2) g(5,6) by (auto simp: log_idle_def log_geom_def)
  moreover have "spare (if r then 2 else 1) ?c"
    using Suc.prems(5) by (rule spare_mono) auto
  moreover have "\<forall>j<n. Suc i \<le> j \<longrightarrow> holder ?c (home_of L j) = None \<and> (\<not> r \<longrightarrow> 0 < refs ?c (home_of L j)) \<and> refs ?c (home_of L j) < 2 ^ 32 - 1"
    using Suc.prems(6) g(9) by auto
  ultimately obtain u where u: "install_loop r (Suc i) n t = Some u" "log_st u = L"
    "cache_at (l_dev L) p pid u (?c\<lparr>view := views (copies (home_of L) (\<lambda>j. view ?c (log_at L j)) (Suc i) n) (view ?c),
      refs := unpinned r (home_of L ` {Suc i..<n}) (refs ?c)\<rparr>)"
    "disk u = puts (copies (home_of L) (\<lambda>j. view ?c (log_at L j)) (Suc i) n) (disk t)"
    using Suc.hyps(1) [of "Suc i" t ?c] Suc.prems(1,3) t(2,3) by auto
  have 1: "copies (home_of L) (\<lambda>j. view ?c (log_at L j)) (Suc i) n = copies (home_of L) (\<lambda>j. view c (log_at L j)) (Suc i) n"
    using g(7) by (intro copies_cong) simp
  have "?hb \<notin> home_of L ` {Suc i..<n}" using g(9) by fastforce
  moreover have "{i..<n} = insert i {Suc i..<n}" using i by auto
  then have "home_of L ` {i..<n} = insert ?hb (home_of L ` {Suc i..<n})" by simp
  ultimately have 2: "unpinned r (home_of L ` {Suc i..<n}) (refs ?c) = unpinned r (home_of L ` {i..<n}) (refs c)"
    by (auto simp: unpinned_def fun_eq_iff)
  show ?case using u t(1,4) 1 2 by (simp add: copies_Cons [OF i])
qed

section \<open>The header\<close>

lemma write_head_spec:
  assumes "cache_at (l_dev L) p pid s c" "log_st s = L" "small (l_start L)" "refs c (l_start L) = 0" "room c"
  defines "v \<equiv> head_bytes (l_lh L) (view c (l_start L))"
  shows "\<exists>t. write_head s = Some t \<and> log_st t = L \<and> cache_at (l_dev L) p pid t (c\<lparr>view := (view c)(l_start L := v)\<rparr>) \<and>
    disk t = put (l_start L) v (disk s)"
proof -
  let ?n = "l_start L" and ?dv = "l_dev L"
  have h0: "holder c ?n = None" using cache_at_unused(1) [OF assms(1,4)] .
  define c1 where "c1 = c\<lparr>refs := (refs c)(?n := 1), holder := (holder c)(?n := Some pid)\<rparr>"
  obtain b t1 where t1: "bread ?dv ?n s = Some (b, t1)" "moved s t1" "disk t1 = disk s" "cache_at ?dv p pid t1 c1"
    "buf_of (bufs t1) ?dv ?n = Some b" "b_data (bufs t1 b) = view c ?n"
    using bread_spec [OF assms(1,3) h0] assms(4,5) by (auto simp: c1_def)
  define t2 where "t2 = set_data b v t1"
  define c2 where "c2 = c1\<lparr>view := (view c)(?n := v)\<rparr>"
  have 1: "0 < refs c1 ?n" "view c1 = view c" by (simp_all add: c1_def)
  have t2: "moved t1 t2" "cache_at ?dv p pid t2 c2" "buf_of (bufs t2) ?dv m = buf_of (bufs t1) ?dv m" "disk t2 = disk t1" for m
    using data_spec [OF t1(4,5) 1(1) moved_settled [OF t1(2)], of v] 1(2) by (simp_all add: t2_def set_data_def c2_def upd_buf_def)
  have b2: "buf_of (bufs t2) ?dv ?n = Some b" "holder c2 ?n = Some pid" "view c2 ?n = v" using t2(3) t1(5) by (simp_all add: c2_def c1_def)
  obtain t3 where t3: "bwrite b t2 = Some t3" "moved t2 t3" "cache_at ?dv p pid t3 c2" "bufs t3 = bufs t2" "disk t3 = put ?n v (disk t2)"
    using bwrite_spec [OF t2(2) b2(1,2)] b2(3) by (auto simp: put_def)
  have b3: "buf_of (bufs t3) ?dv ?n = Some b" "view c2 ?n = sectors (disk t3) (block_sector ?n)" using t3(4,5) b2 by (simp_all add: put_def)
  obtain t4 where t4: "brelse b t3 = Some t4" "moved t3 t4" "disk t4 = disk t3"
    "cache_at ?dv p pid t4 (c2\<lparr>refs := (refs c2)(?n := refs c2 ?n - 1), holder := (holder c2)(?n := None)\<rparr>)"
    using brelse_spec [OF t3(3) b3(1) b2(2) disjI2 [OF b3(2)]] by blast
  have "c2\<lparr>refs := (refs c2)(?n := refs c2 ?n - 1), holder := (holder c2)(?n := None)\<rparr> = c\<lparr>view := (view c)(?n := v)\<rparr>"
    using assms(4) h0 by (intro cache.equality) (auto simp: c2_def c1_def fun_eq_iff)
  then have c4: "cache_at ?dv p pid t4 (c\<lparr>view := (view c)(?n := v)\<rparr>)" using t4(4) by simp
  have l: "log_st t1 = L" "log_st t4 = L" using t1(2) t2(1) t3(2) t4(2) assms(2) by simp_all
  have "write_head s = Some t4" using t1(1,6) t3(1) t4(1) l assms(2) by (simp add: write_head_def t2_def v_def)
  then show ?thesis using c4 l(2) t4(3) t3(5) t2(4) t1(3) by simp
qed

lemma cache_at_upd_log [simp]: "cache_at dv p pid (upd_log f s) c = cache_at dv p pid s c" "disk (upd_log f s) = disk s"
  "log_st (upd_log f s) = f (log_st s)" "bufs (upd_log f s) = bufs s"
  by (simp_all add: upd_log_def cache_at_def quiet_def)

lemma read_head_spec:
  assumes "cache_at (l_dev L) p pid s c" "log_st s = L" "small (l_start L)" "refs c (l_start L) = 0" "room c"
    and "sint (get32 (view c (l_start L)) 0) \<le> int LOGSIZE"
  shows "\<exists>t. read_head s = Some t \<and> log_st t = L\<lparr>l_lh := head_of (view c (l_start L)) (l_lh L)\<rparr> \<and>
    cache_at (l_dev L) p pid t c \<and> disk t = disk s"
proof -
  let ?n = "l_start L" and ?dv = "l_dev L"
  have h0: "holder c ?n = None" using cache_at_unused(1) [OF assms(1,4)] .
  define c1 where "c1 = c\<lparr>refs := (refs c)(?n := 1), holder := (holder c)(?n := Some pid)\<rparr>"
  obtain b t1 where t1: "bread ?dv ?n s = Some (b, t1)" "moved s t1" "disk t1 = disk s" "cache_at ?dv p pid t1 c1"
    "buf_of (bufs t1) ?dv ?n = Some b" "b_data (bufs t1 b) = view c ?n"
    using bread_spec [OF assms(1,3) h0] assms(4,5) by (auto simp: c1_def)
  define t2 where "t2 = upd_log (\<lambda>l. l\<lparr>l_lh := head_of (view c ?n) (l_lh l)\<rparr>) t1"
  have l1: "log_st t1 = L" using t1(2) assms(2) by simp
  have t2: "cache_at ?dv p pid t2 c1" "buf_of (bufs t2) ?dv ?n = Some b" "holder c1 ?n = Some pid" "disk t2 = disk s"
    "view c1 ?n = sectors (disk t2) (block_sector ?n)" "log_st t2 = L\<lparr>l_lh := head_of (view c ?n) (l_lh L)\<rparr>"
    using t1(3,4,5) cache_at_unused(2) [OF assms(1,4,3)] l1 by (simp_all add: t2_def c1_def)
  obtain t3 where t3: "brelse b t2 = Some t3" "moved t2 t3" "disk t3 = disk t2"
    "cache_at ?dv p pid t3 (c1\<lparr>refs := (refs c1)(?n := refs c1 ?n - 1), holder := (holder c1)(?n := None)\<rparr>)"
    using brelse_spec [OF t2(1,2,3) disjI2 [OF t2(5)]] by blast
  have "c1\<lparr>refs := (refs c1)(?n := refs c1 ?n - 1), holder := (holder c1)(?n := None)\<rparr> = c"
    using assms(4) h0 by (intro cache.equality) (auto simp: c1_def fun_eq_iff)
  moreover have "read_head s = Some t3" using t1(1,6) t3(1) assms(2,6) by (simp add: read_head_def t2_def)
  ultimately show ?thesis using t3 t2(4,6) by auto
qed

lemma get32_put_blocks:
  "\<forall>i\<in>set is. off + 4 \<le> 4 + 4 * i \<or> 8 + 4 * i \<le> off \<Longrightarrow> get32 (put_blocks is bl d) off = get32 d off"
  by (induction "is" arbitrary: d) (auto simp: get32_put32_other)

lemma put_blocks_at: "distinct is \<Longrightarrow> i \<in> set is \<Longrightarrow> get32 (put_blocks is bl d) (4 + 4 * i) = bl i"
proof (induction "is" arbitrary: d)
  case (Cons j js)
  then show ?case
  proof (cases "i = j")
    case True
    have "4 + 4 * i + 4 \<le> 4 + 4 * k \<or> 8 + 4 * k \<le> 4 + 4 * i" if "k \<in> set js" for k
    proof -
      have "k \<noteq> i" using Cons.prems(1) True that by auto
      then show ?thesis by presburger
    qed
    then show ?thesis using True by (simp add: get32_put_blocks)
  qed auto
qed simp

lemma head_of_bytes:
  assumes "lh_n lh = int n" "n \<le> LOGSIZE"
  shows "sint (get32 (head_bytes lh d) 0) = int n" "i < n \<Longrightarrow> get32 (head_bytes lh d) (4 + 4 * i) = lh_block lh i"
proof -
  have "get32 (head_bytes lh d) 0 = of_nat n" using assms(1) by (simp add: head_bytes_def get32_put_blocks)
  then show "sint (get32 (head_bytes lh d) 0) = int n" using assms(2) by (simp add: LOGSIZE_def signed_of_nat signed_take_bit_int_eq_self MAXOPBLOCKS_def)
  show "i < n \<Longrightarrow> get32 (head_bytes lh d) (4 + 4 * i) = lh_block lh i" using assms(1) by (simp add: head_bytes_def put_blocks_at)
qed

section \<open>Commit\<close>

definition commit_head :: "log \<Rightarrow> cache \<Rightarrow> bytes" where
  "commit_head l c = head_bytes (l_lh l) (view c (l_start l))"

definition commit_writes :: "log \<Rightarrow> cache \<Rightarrow> nat \<Rightarrow> (uint \<times> bytes) list" where
  "commit_writes l c n = copies (log_at l) (\<lambda>j. view c (home_of l j)) 0 n @ [(l_start l, commit_head l c)] @
     copies (home_of l) (\<lambda>j. view c (home_of l j)) 0 n @ [(l_start l, head_bytes ((l_lh l)\<lparr>lh_n := 0\<rparr>) (commit_head l c))]"

text \<open>A log ready to commit: its blocks are pinned in the cache, nobody holds them, the log region is not in use.\<close>

definition commit_ready :: "uint \<Rightarrow> nat \<Rightarrow> int \<Rightarrow> 'a logs_scheme \<Rightarrow> cache \<Rightarrow> nat \<Rightarrow> bool" where
  "commit_ready dv p pid s c n \<longleftrightarrow> (let l = log_st s in
     l_dev l = dv \<and> cache_at dv p pid s c \<and> lh_n (l_lh l) = int n \<and> 0 < n \<and> log_geom l n \<and> log_idle l c \<and> room c \<and>
     (\<forall>j<n. holder c (home_of l j) = None \<and> 0 < refs c (home_of l j) \<and> refs c (home_of l j) < 2 ^ 32 - 1))"

lemma copies_views:
  assumes "\<And>i j. i < n \<Longrightarrow> j < n \<Longrightarrow> dst i = dst j \<longleftrightarrow> i = j"
  shows "i < n \<Longrightarrow> views (copies dst v 0 n) f (dst i) = v i" "m \<notin> dst ` {..<n} \<Longrightarrow> views (copies dst v 0 n) f m = f m"
proof -
  have "distinct (map dst [0..<n])" using assms by (auto simp: distinct_map inj_on_def)
  then show "i < n \<Longrightarrow> views (copies dst v 0 n) f (dst i) = v i" unfolding copies_def by (rule views_map) simp
  show "m \<notin> dst ` {..<n} \<Longrightarrow> views (copies dst v 0 n) f m = f m"
    by (rule views_other) (auto simp: copies_def image_iff)
qed

lemma commit_spec:
  fixes s :: "'a logs_scheme"
  assumes "commit_ready dv p pid s c n"
  defines "L \<equiv> log_st s"
  shows "\<exists>t. commit s = Some t \<and> disk t = puts (commit_writes L c n) (disk s) \<and>
    cache_at dv p pid t (c\<lparr>view := views (commit_writes L c n) (view c), refs := unpinned False (home_of L ` {0..<n}) (refs c)\<rparr>) \<and>
    log_st t = L\<lparr>l_lh := (l_lh L)\<lparr>lh_n := 0\<rparr>\<rparr>"
proof -
  have a: "l_dev L = dv" "cache_at dv p pid s c" "lh_n (l_lh L) = int n" "0 < n" "log_geom L n" "log_idle L c" "room c"
    "\<forall>j<n. holder c (home_of L j) = None \<and> 0 < refs c (home_of L j) \<and> refs c (home_of L j) < 2 ^ 32 - 1"
    using assms(1) by (simp_all add: commit_ready_def L_def Let_def)
  note g = log_geom_at [OF a(5)]
  let ?w1 = "copies (log_at L) (\<lambda>j. view c (home_of L j)) 0 n" and ?H = "commit_head L c"
  let ?w2 = "copies (home_of L) (\<lambda>j. view c (home_of L j)) 0 n"
  define c1 where "c1 = c\<lparr>view := views ?w1 (view c)\<rparr>"
  obtain t1 where t1: "write_log_loop 0 n s = Some t1" "log_st t1 = L" "cache_at dv p pid t1 c1" "disk t1 = puts ?w1 (disk s)"
    using write_log_loop_spec [OF a(5) _ L_def [THEN meta_eq_to_obj_eq, symmetric] a(6,7,8), of p pid 0, unfolded a(1), OF a(2)] unfolding c1_def by blast
  have la: "views ?w1 f (log_at L j) = view c (home_of L j)" if "j < n" for j f using copies_views(1) g(8) that by blast
  have lo: "views ?w1 f m = f m" if "m \<notin> log_at L ` {..<n}" for m f using copies_views(2) g(8) that by blast
  have st: "l_start L \<notin> log_at L ` {..<n}" "small (l_start L)" "l_start L \<notin> home_of L ` {..<n}" using g(3,6,10) a(4) by fastforce+
  define c2 where "c2 = c1\<lparr>view := (view c1)(l_start L := ?H)\<rparr>"
  have r1: "refs c1 = refs c" "holder c1 = holder c" "view c1 (l_start L) = view c (l_start L)" using lo st by (simp_all add: c1_def)
  have i1: "refs c (l_start L) = 0" "room c1" using a(6,7) r1 by (simp_all add: log_idle_def room_def)
  obtain t2 where t2: "write_head t1 = Some t2" "log_st t2 = L" "cache_at dv p pid t2 c2" "disk t2 = put (l_start L) ?H (disk t1)"
    using write_head_spec [of L p pid t1 c1, unfolded a(1) r1, OF t1(3,2) st(2) i1] unfolding c2_def commit_head_def by blast
  have r2: "refs c2 = refs c" "holder c2 = holder c" by (simp_all add: c2_def r1)
  have v2: "copies (home_of L) (\<lambda>j. view c2 (log_at L j)) 0 n = ?w2"
    using la g(3) by (intro copies_cong) (simp add: c2_def c1_def)
  define c3 where "c3 = c2\<lparr>view := views ?w2 (view c2), refs := unpinned False (home_of L ` {0..<n}) (refs c)\<rparr>"
  have i2: "log_idle L c2" "spare 1 c2" using a(6,7) r2 by (simp_all add: log_idle_def room_def spare_def)
  obtain t3 where t3: "install_loop False 0 n t2 = Some t3" "log_st t3 = L" "cache_at dv p pid t3 c3" "disk t3 = puts ?w2 (disk t2)"
    using install_loop_spec [OF a(5) _ t2(2) i2(1), of p pid False 0, unfolded a(1) r2 v2 if_False, OF t2(3) i2(2)] a(8) unfolding c3_def by blast
  let ?L = "L\<lparr>l_lh := (l_lh L)\<lparr>lh_n := 0\<rparr>\<rparr>"
  have t4: "cache_at dv p pid (set_log_n 0 t3) c3" "log_st (set_log_n 0 t3) = ?L" "disk (set_log_n 0 t3) = disk t3"
    using t3 by (simp_all add: set_log_n_def)
  have "spare 1 c3" using i2(2) by (rule spare_mono) (simp add: c3_def r2 unpinned_def)
  then have r3: "room c3" "refs c3 (l_start L) = 0" using spare_room a(6) by (auto simp: c3_def unpinned_def log_idle_def)
  have v3: "view c3 (l_start L) = ?H" using copies_views(2) [OF g(9) st(3)] by (simp add: c3_def c2_def)
  obtain t5 where "write_head (set_log_n 0 t3) = Some t5" "log_st t5 = ?L"
    "cache_at dv p pid t5 (c3\<lparr>view := (view c3)(l_start L := head_bytes ((l_lh L)\<lparr>lh_n := 0\<rparr>) ?H)\<rparr>)"
    "disk t5 = put (l_start L) (head_bytes ((l_lh L)\<lparr>lh_n := 0\<rparr>) ?H) (disk t3)"
    using write_head_spec [of ?L p pid "set_log_n 0 t3" c3] t4 a(1) st(2) r3 v3 by simp blast
  moreover have "commit s = Some t5"
    using t1(1,2) t2(1,2) t3(1) calculation(1) a(3,4) by (simp add: commit_def write_log_def install_trans_def L_def)
  moreover have "c3\<lparr>view := (view c3)(l_start L := head_bytes ((l_lh L)\<lparr>lh_n := 0\<rparr>) ?H)\<rparr> =
    c\<lparr>view := views (commit_writes L c n) (view c), refs := unpinned False (home_of L ` {0..<n}) (refs c)\<rparr>"
    by (intro cache.equality) (simp_all add: commit_writes_def c3_def c2_def c1_def)
  ultimately show ?thesis using t1(4) t2(4) t3(4) by (simp add: commit_writes_def)
qed

section \<open>Recovery\<close>

lemma recover_spec:
  fixes s :: "'a logs_scheme"
  assumes at: "cache_at dv p pid s c" "l_dev (log_st s) = dv" and idle: "refs c = (\<lambda>_. 0)"
  defines "v \<equiv> view c (l_start (log_st s))" and "n \<equiv> nat (sint (get32 (view c (l_start (log_st s))) 0))"
  defines "L \<equiv> (log_st s)\<lparr>l_lh := head_of (view c (l_start (log_st s))) (l_lh (log_st s))\<rparr>"
  assumes sz: "sint (get32 v 0) \<le> int LOGSIZE" and geom: "log_geom L n"
  shows "\<exists>t. recover_from_log s = Some t \<and> disk t = puts (copies (home_of L) (\<lambda>j. view c (log_at L j)) 0 n @
    [(l_start L, head_bytes ((l_lh L)\<lparr>lh_n := 0\<rparr>) v)]) (disk s)"
proof -
  have st: "small (l_start L)" "l_start L = l_start (log_st s)" "l_dev L = dv"
    using geom at(2) log_at_facts(4) [of L 0] by (auto simp: log_geom_def L_def LOGSIZE_def MAXOPBLOCKS_def)
  have sp: "spare 2 c" "spare 1 c" "room c" "refs c m = 0" "holder c m = None" for m
    using idle cache_at_unused(1) [OF at(1)] by (simp_all add: spare_def room_def NBUF_def MAXOPBLOCKS_def)
  obtain t1 where t1: "read_head s = Some t1" "log_st t1 = L" "cache_at dv p pid t1 c" "disk t1 = disk s"
    using read_head_spec [of "log_st s" p pid s c] at st sp sz by (auto simp: v_def L_def)
  have "log_idle L c" by (simp add: log_idle_def sp)
  then obtain t2 where t2: "install_loop True 0 n t1 = Some t2" "log_st t2 = L"
    "cache_at dv p pid t2 (c\<lparr>view := views (copies (home_of L) (\<lambda>j. view c (log_at L j)) 0 n) (view c),
      refs := unpinned True (home_of L ` {0..<n}) (refs c)\<rparr>)" (is "cache_at _ _ _ _ ?c2")
    "disk t2 = puts (copies (home_of L) (\<lambda>j. view c (log_at L j)) 0 n) (disk t1)"
    using install_loop_spec [OF geom _ t1(2), of p pid c True 0] t1(3) st(3) sp by auto
  let ?L = "L\<lparr>l_lh := (l_lh L)\<lparr>lh_n := 0\<rparr>\<rparr>"
  have t3: "cache_at dv p pid (set_log_n 0 t2) ?c2" "log_st (set_log_n 0 t2) = ?L" "disk (set_log_n 0 t2) = disk t2"
    using t2 by (simp_all add: set_log_n_def)
  have c2: "refs ?c2 (l_start L) = 0" "room ?c2" by (simp_all add: unpinned_def idle room_def NBUF_def MAXOPBLOCKS_def)
  have "l_start L \<notin> home_of L ` {..<n}" using log_geom_at(6) [OF geom] by fastforce
  then have v2: "view ?c2 (l_start L) = v" using copies_views(2) [OF log_geom_at(9) [OF geom]] by (simp add: v_def st(2))
  obtain t4 where "write_head (set_log_n 0 t2) = Some t4" "disk t4 = put (l_start L) (head_bytes ((l_lh L)\<lparr>lh_n := 0\<rparr>) v) (disk t2)"
    using write_head_spec [of ?L p pid "set_log_n 0 t2" ?c2] t3 c2 v2 st by auto
  moreover have "log_n t1 = int n \<or> log_n t1 \<le> 0" "nat (log_n t1) = n" using t1(2) by (auto simp: L_def head_of_def n_def)
  ultimately show ?thesis using t1 t2 by (auto simp: recover_from_log_def install_trans_def)
qed

lemma cache_at_initlock: "cache_at dv p pid s c \<Longrightarrow> cache_at dv p pid (initlock lk nm s) c"
  by (simp add: cache_at_def quiet_def initlock_def free_def cpu_ok_def)

lemma initlog_eq:
  "initlog dv sb s = recover_from_log (upd_log (\<lambda>l. l\<lparr>l_start := sb_logstart sb, l_size := sint (sb_nlog sb), l_dev := dv\<rparr>) (initlock LogLock ''log'' s))"
  by (simp add: initlog_def LOGSIZE_def BSIZE_def MAXOPBLOCKS_def)

text \<open>What a restart finds on the disk decides what \<open>initlog\<close> copies.\<close>

lemma reboot_spec:
  fixes u :: "'a logs_scheme" and sb :: superblock
  assumes u: "quiet q u" "fresh u" "dv \<noteq> 0"
  defines "D \<equiv> \<lambda>m. sectors (disk u) (block_sector m)" and "st \<equiv> sb_logstart sb"
  assumes n: "sint (get32 (D st) 0) = int n" and geom: "log_geom l n" "l_start l = st"
    and blocks: "\<And>i. i < n \<Longrightarrow> get32 (D st) (4 + 4 * i) = home_of l i"
  shows "\<exists>v h. initlog dv sb (binit u) = Some v \<and> get32 h 0 = 0 \<and>
    disk v = puts (copies (home_of l) (\<lambda>j. D (log_at l j)) 0 n @ [(st, h)]) (disk u)"
proof -
  define c where "c = \<lparr>view = (\<lambda>n. if small n then D n else (\<lambda>_. 0)), refs = (\<lambda>_. 0), holder = (\<lambda>_. None)\<rparr>"
  define s where "s = upd_log (\<lambda>l. l\<lparr>l_start := sb_logstart sb, l_size := sint (sb_nlog sb), l_dev := dv\<rparr>) (initlock LogLock ''log'' (binit u))"
  have "cache_at dv q (p_pid (proc u q)) (binit u) c" using binit_cache(1) [OF u] unfolding c_def D_def .
  then have s: "cache_at dv q (p_pid (proc u q)) s c" "disk s = disk u" "l_dev (log_st s) = dv" "l_start (log_st s) = st" "refs c = (\<lambda>_. 0)"
    using binit_cache(2) [OF u] cache_at_initlock by (simp_all add: s_def c_def st_def) (simp add: initlock_def)
  have sm: "small st" using geom log_at_facts(4) [of l 0] by (simp add: log_geom_def LOGSIZE_def MAXOPBLOCKS_def)
  then have v: "view c st = D st" by (simp add: c_def)
  define L where "L = (log_st s)\<lparr>l_lh := head_of (D st) (l_lh (log_st s))\<rparr>"
  have L: "l_start L = st" "log_at L = log_at l" "\<And>i. i < n \<Longrightarrow> home_of L i = home_of l i"
    using s(4) geom(2) n blocks by (simp_all add: L_def log_at_def fun_eq_iff head_of_def)
  have "inj_on (home_of L) {..<n} = inj_on (home_of l) {..<n}" using L(3) by (intro inj_on_cong) simp
  then have gL: "log_geom L n" using geom L by (simp add: log_geom_def)
  have le: "n \<le> LOGSIZE" using geom by (simp add: log_geom_def)
  obtain t where t: "recover_from_log s = Some t" "disk t = puts (copies (home_of L) (\<lambda>j. view c (log_at L j)) 0 n @
    [(st, head_bytes ((l_lh L)\<lparr>lh_n := 0\<rparr>) (D st))]) (disk u)"
    using recover_spec [OF s(1,3,5)] gL le n s(2,4) v by (auto simp: L_def)
  have w: "copies (home_of L) (\<lambda>j. view c (log_at L j)) 0 n = copies (home_of l) (\<lambda>j. D (log_at l j)) 0 n"
    using L log_geom_at(1) [OF geom(1)] by (simp add: copies_def c_def)
  have "get32 (head_bytes ((l_lh L)\<lparr>lh_n := 0\<rparr>) (D st)) 0 = 0" by (simp add: head_bytes_def)
  then show ?thesis using t unfolding initlog_eq s_def [symmetric] w by blast
qed

lemma in_take: "x \<in> set (take k xs) \<Longrightarrow> x \<in> set xs"
  by (rule in_set_takeD)

lemma length_copies [simp]: "length (copies dst v i n) = n - i"
  by (simp add: copies_def)

lemma views_take_other: "m \<notin> dst ` {..<n} \<Longrightarrow> views (take k (copies dst v 0 n)) f m = f m"
  by (rule views_other) (auto simp: copies_def dest!: in_take)

text \<open>The disk after the first \<open>k\<close> writes of a commit.\<close>

lemma crash_points:
  fixes c :: cache
  assumes geom: "log_geom L n"
  defines "V \<equiv> \<lambda>k f. views (take k (commit_writes L c n)) f"
  shows "k \<le> n \<Longrightarrow> m = l_start L \<or> \<not> in_log (l_start L) m \<Longrightarrow> V k f m = f m"
    and "n < k \<Longrightarrow> k < 2 * n + 2 \<Longrightarrow> V k f (l_start L) = commit_head L c"
    and "n < k \<Longrightarrow> k < 2 * n + 2 \<Longrightarrow> i < n \<Longrightarrow> V k f (log_at L i) = view c (home_of L i)"
    and "\<not> in_log (l_start L) m \<Longrightarrow> m \<notin> home_of L ` {..<n} \<Longrightarrow> V k f m = f m"
    and "2 * n + 2 \<le> k \<Longrightarrow> V k f (l_start L) = head_bytes ((l_lh L)\<lparr>lh_n := 0\<rparr>) (commit_head L c)"
    and "2 * n + 2 \<le> k \<Longrightarrow> i < n \<Longrightarrow> V k f (home_of L i) = view c (home_of L i)"
proof -
  let ?w1 = "copies (log_at L) (\<lambda>j. view c (home_of L j)) 0 n" and ?w2 = "copies (home_of L) (\<lambda>j. view c (home_of L j)) 0 n"
  note g = log_geom_at [OF geom]
  have st: "l_start L \<notin> log_at L ` {..<n}" "l_start L \<notin> home_of L ` {..<n}" using g(3,6) by fastforce+
  have lo: "log_at L i \<notin> home_of L ` {..<n}" if "i < n" for i using g(7) that by fastforce
  have nl: "m \<notin> log_at L ` {..<n}" "m \<noteq> l_start L" if "\<not> in_log (l_start L) m" for m
    using g(2) that by (auto simp: in_log_def)
  note c1 = copies_views [OF g(8)] and c2 = copies_views [OF g(9)]
  show "k \<le> n \<Longrightarrow> m = l_start L \<or> \<not> in_log (l_start L) m \<Longrightarrow> V k f m = f m"
    using st(1) nl by (auto simp: V_def commit_writes_def views_take_other)
  have mid: "take k (commit_writes L c n) = ?w1 @ (l_start L, commit_head L c) # take (k - Suc n) ?w2" if "n < k" "k < 2 * n + 2"
  proof -
    obtain j where "k = n + Suc j" using \<open>n < k\<close> less_imp_add_positive by (metis add_Suc_right less_iff_Suc_add)
    then show ?thesis using that by (simp add: commit_writes_def)
  qed
  show "n < k \<Longrightarrow> k < 2 * n + 2 \<Longrightarrow> V k f (l_start L) = commit_head L c" by (simp add: V_def mid views_take_other st)
  show "n < k \<Longrightarrow> k < 2 * n + 2 \<Longrightarrow> i < n \<Longrightarrow> V k f (log_at L i) = view c (home_of L i)"
    using g(3) lo c1(1) by (simp add: V_def mid views_take_other)
  show "V k f m = f m" if "\<not> in_log (l_start L) m" "m \<notin> home_of L ` {..<n}"
    unfolding V_def using that nl [OF that(1)] by (intro views_other) (auto simp: commit_writes_def copies_def dest!: in_take)
  have all: "take k (commit_writes L c n) = commit_writes L c n" if "2 * n + 2 \<le> k" using that by (simp add: commit_writes_def)
  show "2 * n + 2 \<le> k \<Longrightarrow> V k f (l_start L) = head_bytes ((l_lh L)\<lparr>lh_n := 0\<rparr>) (commit_head L c)"
    unfolding V_def by (simp only: all) (simp add: commit_writes_def)
  show "2 * n + 2 \<le> k \<Longrightarrow> i < n \<Longrightarrow> V k f (home_of L i) = view c (home_of L i)"
    unfolding V_def using g(6) c2(1) by (simp only: all) (simp add: commit_writes_def)
qed

section \<open>Crashes\<close>

definition replay :: "(uint64 \<times> bytes) list \<Rightarrow> (uint64 \<Rightarrow> bytes) \<Rightarrow> uint64 \<Rightarrow> bytes" where
  "replay ws S = fold (\<lambda>(a, v) S. S(a := v)) ws S"

lemma replay_puts: "replay (map (\<lambda>(m, v). (block_sector m, v)) ws) (sectors d) = sectors (puts ws d)"
proof (induction ws arbitrary: d)
  case (Cons w ws)
  have "(sectors d)(block_sector (fst w) := snd w) = sectors (put (fst w) (snd w) d)" by (simp add: put_def)
  then show ?case using Cons.IH by (simp add: replay_def case_prod_beta del: fun_upd_apply)
qed (simp add: replay_def)

text \<open>
  The disks a crash can leave: after the first \<open>k\<close> writes \<open>W\<close> of a commit, or after some of the writes
  of a recovery that was itself cut short.
\<close>

inductive crashed :: "uint \<Rightarrow> superblock \<Rightarrow> (uint64 \<times> bytes) list \<Rightarrow> (uint64 \<Rightarrow> bytes) \<Rightarrow> nat \<Rightarrow> (uint64 \<Rightarrow> bytes) \<Rightarrow> bool"
  for dv sb W S k where
  in_commit: "crashed dv sb W S k (replay (take k W) S)"
| in_recovery: "crashed dv sb W S k (sectors (disk u)) \<Longrightarrow> quiet q (u :: logs) \<Longrightarrow> fresh u \<Longrightarrow> initlog dv sb (binit u) = Some v \<Longrightarrow>
    writes (disk v) = writes (disk u) @ R \<Longrightarrow> crashed dv sb W S k (replay (take j R) (sectors (disk u)))"

definition blocks :: "(uint64 \<Rightarrow> bytes) \<Rightarrow> uint \<Rightarrow> bytes" where
  "blocks S m = S (block_sector m)"

lemma blocks_puts:
  "\<forall>m\<in>fst ` set ws. small m \<Longrightarrow> small n \<Longrightarrow> blocks (sectors (puts ws d)) n = views ws (blocks (sectors d)) n"
  using puts_sectors [of ws n d] by (simp add: blocks_def [abs_def])

definition disk_old :: "log \<Rightarrow> (uint \<Rightarrow> bytes) \<Rightarrow> (uint \<Rightarrow> bytes) \<Rightarrow> bool" where
  "disk_old l old D \<longleftrightarrow> get32 (D (l_start l)) 0 = 0 \<and> (\<forall>m. small m \<longrightarrow> \<not> in_log (l_start l) m \<longrightarrow> D m = old m)"

definition disk_logged :: "log \<Rightarrow> nat \<Rightarrow> (uint \<Rightarrow> bytes) \<Rightarrow> (uint \<Rightarrow> bytes) \<Rightarrow> bool" where
  "disk_logged l n new D \<longleftrightarrow> sint (get32 (D (l_start l)) 0) = int n \<and>
     (\<forall>i<n. get32 (D (l_start l)) (4 + 4 * i) = home_of l i \<and> D (log_at l i) = new (home_of l i)) \<and>
     (\<forall>m. small m \<longrightarrow> \<not> in_log (l_start l) m \<longrightarrow> m \<notin> home_of l ` {..<n} \<longrightarrow> D m = new m)"

lemma commit_writes_small: "log_geom l n \<Longrightarrow> 0 < n \<Longrightarrow> \<forall>m\<in>fst ` set (take k (commit_writes l c n)). small m"
  using log_geom_at(1,4,10) by (auto simp: commit_writes_def copies_def dest!: in_take)

lemma commit_crash:
  assumes "log_geom l n" "0 < n" "lh_n (l_lh l) = int n" "get32 (old (l_start l)) 0 = 0"
    and D: "\<And>m. small m \<Longrightarrow> D m = views (take k (commit_writes l c n)) old m"
  defines "new \<equiv> \<lambda>m. if m \<in> home_of l ` {..<n} then view c m else old m"
  shows "if k \<le> n then disk_old l old D else disk_logged l n new D \<or> disk_old l new D"
proof -
  note cp = crash_points [OF assms(1), where c = c] and g = log_geom_at [OF assms(1)]
  have st: "small (l_start l)" using g(10) assms(2) by blast
  have le: "n \<le> LOGSIZE" using assms(1) by (simp add: log_geom_def)
  consider "k \<le> n" | "n < k" "k < 2 * n + 2" | "2 * n + 2 \<le> k" by linarith
  then show ?thesis
  proof cases
    case 1
    then show ?thesis using cp(1) st assms(4) by (simp add: disk_old_def D)
  next
    case 2
    have "disk_logged l n new D"
      using cp(2,3) [OF 2] cp(4) st g(1) head_of_bytes [OF assms(3) le]
      by (auto simp: disk_logged_def D commit_head_def new_def)
    then show ?thesis using 2 by simp
  next
    case 3
    have "D m = new m" if "small m" "\<not> in_log (l_start l) m" for m
      using cp(4) [OF that(2)] cp(6) [OF 3] that(1) by (auto simp: new_def D)
    then have "disk_old l new D" using cp(5) [OF 3] st by (simp add: disk_old_def D head_bytes_def)
    then show ?thesis using 3 by simp
  qed
qed

abbreviation disk_good :: "log \<Rightarrow> nat \<Rightarrow> (uint \<Rightarrow> bytes) \<Rightarrow> (uint \<Rightarrow> bytes) \<Rightarrow> bool" where
  "disk_good l n new D \<equiv> disk_logged l n new D \<or> disk_old l new D"

lemma disk_good_0: "disk_good l 0 new D = disk_old l new D"
proof -
  have "sint (x :: uint) = 0 \<longleftrightarrow> x = 0" for x using signed_word_eqI [of x 0, where 'a = int] by auto
  then show ?thesis by (auto simp: disk_logged_def disk_old_def)
qed

lemma log_geom_0: "log_geom l n \<Longrightarrow> log_geom l 0"
  by (simp add: log_geom_def)

lemma log_geom_start: "log_geom l n \<Longrightarrow> small (l_start l)"
  using log_at_facts(4) [of l 0] by (simp add: log_geom_def LOGSIZE_def MAXOPBLOCKS_def)

text \<open>Every prefix of what recovery writes keeps the disk repairable, and the whole of it repairs it.\<close>

lemma recovery_prefix:
  assumes geom: "log_geom l n" and h: "get32 h 0 = 0" and D: "disk_good l n new D"
    and R: "R = (if disk_old l new D then [] else copies (home_of l) (\<lambda>j. new (home_of l j)) 0 n) @ [(l_start l, h)]"
    and E: "\<And>m. small m \<Longrightarrow> E m = views (take j R) D m"
  shows "disk_good l n new E" "length R \<le> j \<Longrightarrow> disk_old l new E"
proof -
  note g = log_geom_at [OF geom] and sm = log_geom_start [OF geom]
  have notst: "m \<noteq> l_start l" if "\<not> in_log (l_start l) m" for m using that by (auto simp: in_log_def)
  have st: "l_start l \<notin> home_of l ` {..<n}" using g(6) by fastforce
  consider (old) "disk_old l new D" | (part) "\<not> disk_old l new D" "disk_logged l n new D" "j \<le> n"
    | (all) "\<not> disk_old l new D" "disk_logged l n new D" "n < j" using D by fastforce
  then have "disk_good l n new E \<and> (length R \<le> j \<longrightarrow> disk_old l new E)"
  proof cases
    case old
    then have "disk_old l new E" using h sm notst by (cases j) (auto simp: disk_old_def E R)
    then show ?thesis by blast
  next
    case part
    have lo: "log_at l i \<notin> home_of l ` {..<n}" if "i < n" for i using g(7) that by fastforce
    have "disk_logged l n new E"
      using part(2) sm g(1) lo st by (simp add: disk_logged_def E R part views_take_other)
    then show ?thesis using part by (simp add: R)
  next
    case all
    then have "take j R = R" by (simp add: R)
    moreover have "views R D m = new m" if m: "small m" "\<not> in_log (l_start l) m" for m
    proof (cases "m \<in> home_of l ` {..<n}")
      case True
      then show ?thesis using copies_views(1) [OF g(9)] notst [OF m(2)] all by (auto simp: R)
    next
      case False
      then have "D m = new m" using all(2) m by (simp add: disk_logged_def)
      then show ?thesis using copies_views(2) [OF g(9) False] notst [OF m(2)] all by (simp add: R)
    qed
    ultimately have "disk_old l new E" using h sm all by (simp add: disk_old_def E) (simp add: R)
    then show ?thesis by blast
  qed
  then show "disk_good l n new E" "length R \<le> j \<Longrightarrow> disk_old l new E" by blast+
qed

lemma recovery_spec:
  fixes u :: "'a logs_scheme"
  assumes u: "quiet q u" "fresh u" "dv \<noteq> 0" and geom: "log_geom l n" "sb_logstart sb = l_start l"
    and D: "disk_good l n new (blocks (sectors (disk u)))"
  shows "\<exists>v R. initlog dv sb (binit u) = Some v \<and> writes (disk v) = writes (disk u) @ R \<and>
    (\<forall>j. disk_good l n new (blocks (replay (take j R) (sectors (disk u))))) \<and> disk_old l new (blocks (sectors (disk v)))"
proof -
  let ?D = "blocks (sectors (disk u))"
  define ws where "ws h = (if disk_old l new ?D then [] else copies (home_of l) (\<lambda>j. new (home_of l j)) 0 n) @ [(l_start l, h)]" for h
  obtain v h where v: "initlog dv sb (binit u) = Some v" "get32 h 0 = 0" "disk v = puts (ws h) (disk u)"
  proof (cases "disk_old l new ?D")
    case True
    have "\<exists>v h. initlog dv sb (binit u) = Some v \<and> get32 h 0 = 0 \<and> disk v = puts (copies (home_of l) (\<lambda>j. ?D (log_at l j)) 0 0 @ [(l_start l, h)]) (disk u)"
      unfolding blocks_def geom(2) [symmetric]
    proof (rule reboot_spec [OF u])
      show "sint (get32 (sectors (disk u) (block_sector (sb_logstart sb))) 0) = int 0"
        using True geom(2) by (simp add: disk_old_def blocks_def)
    qed (simp_all add: geom(2) log_geom_0 [OF geom(1)])
    then show thesis using that True by (auto simp: ws_def copies_def)
  next
    case False
    then have lg: "disk_logged l n new ?D" using D by blast
    have "\<exists>v h. initlog dv sb (binit u) = Some v \<and> get32 h 0 = 0 \<and> disk v = puts (copies (home_of l) (\<lambda>j. ?D (log_at l j)) 0 n @ [(l_start l, h)]) (disk u)"
      unfolding blocks_def geom(2) [symmetric]
      using lg geom by (intro reboot_spec [OF u]) (simp_all add: disk_logged_def blocks_def)
    moreover have "copies (home_of l) (\<lambda>j. ?D (log_at l j)) 0 n = copies (home_of l) (\<lambda>j. new (home_of l j)) 0 n"
      using lg by (intro copies_cong) (simp add: disk_logged_def)
    ultimately show thesis using that False by (auto simp: ws_def)
  qed
  have sm: "\<forall>m\<in>fst ` set (take j (ws h)). small m" for j
    using log_geom_at(4) [OF geom(1)] log_geom_start [OF geom(1)] by (auto simp: ws_def copies_def dest!: in_take split: if_splits)
  define R where "R = map (\<lambda>(m, v). (block_sector m, v)) (ws h)"
  have E: "replay (take j R) (sectors (disk u)) = sectors (puts (take j (ws h)) (disk u))" for j
    unfolding R_def take_map by (rule replay_puts)
  have rp: "disk_good l n new (blocks (sectors (puts (take j (ws h)) (disk u))))"
    "length (ws h) \<le> j \<Longrightarrow> disk_old l new (blocks (sectors (puts (take j (ws h)) (disk u))))" for j
    by (rule recovery_prefix [OF geom(1) v(2) D ws_def], rule blocks_puts [OF sm], assumption)+
  have "disk_old l new (blocks (sectors (disk v)))" using rp(2) [of "length (ws h)"] v(3) by simp
  then show ?thesis using v(1,3) rp(1) E puts_writes by (auto simp: R_def [symmetric])
qed

lemma crashed_good:
  assumes "crashed dv sb W S k E" and "dv \<noteq> 0" "log_geom l n" "sb_logstart sb = l_start l"
    and start: "disk_good l n new (blocks (replay (take k W) S))"
  shows "disk_good l n new (blocks E)"
  using assms(1)
proof (induction rule: crashed.induct)
  case in_commit
  show ?case by (rule start)
next
  case (in_recovery u q v R j)
  obtain R' where "writes (disk v) = writes (disk u) @ R'" "\<forall>j. disk_good l n new (blocks (replay (take j R') (sectors (disk u))))"
    using recovery_spec [OF in_recovery.hyps(2,3) assms(2-4) in_recovery.IH] in_recovery.hyps(4) by auto
  then show ?case using in_recovery.hyps(5) by simp
qed

text \<open>
  C1. The log makes a transaction atomic across crashes. Take a log ready to commit (its blocks modified and
  pinned in the cache, the header on the disk empty). \<open>commit\<close> returns, and stop the machine after any number
  \<open>k\<close> of its disk writes, and again during any number of recoveries. Then the next restart recovers:
  \<open>initlog\<close> returns, and outside the log region the disk is as before the transaction when the header had not
  been written (\<open>k \<le> n\<close>), and otherwise has every block of the transaction and is unchanged elsewhere.
\<close>

theorem log_crash_safe:
  fixes s :: "'a logs_scheme"
  assumes "commit_ready dv p pid s c n" "dv \<noteq> 0" "sb_logstart sb = l_start (log_st s)"
    and "get32 (blocks (sectors (disk s)) (l_start (log_st s))) 0 = 0"
  shows "\<exists>t W. commit s = Some t \<and> writes (disk t) = writes (disk s) @ W \<and> sectors (disk t) = replay W (sectors (disk s)) \<and>
    (\<forall>k q (u :: logs). crashed dv sb W (sectors (disk s)) k (sectors (disk u)) \<and> quiet q u \<and> fresh u \<longrightarrow>
      (\<exists>v. initlog dv sb (binit u) = Some v \<and> (\<forall>m. small m \<and> \<not> in_log (l_start (log_st s)) m \<longrightarrow>
        blocks (sectors (disk v)) m =
          (if n < k \<and> m \<in> lh_block (l_lh (log_st s)) ` {..<n} then view c m else blocks (sectors (disk s)) m))))"
proof -
  let ?l = "log_st s" and ?old = "blocks (sectors (disk s))"
  define new where "new = (\<lambda>m. if m \<in> home_of ?l ` {..<n} then view c m else ?old m)"
  define W where "W = map (\<lambda>(m, v). (block_sector m, v)) (commit_writes ?l c n)"
  have r: "log_geom ?l n" "0 < n" "lh_n (l_lh ?l) = int n" using assms(1) by (simp_all add: commit_ready_def Let_def)
  obtain t where t: "commit s = Some t" "disk t = puts (commit_writes ?l c n) (disk s)" using commit_spec [OF assms(1)] by blast
  have "replay (take k W) (sectors (disk s)) = sectors (puts (take k (commit_writes ?l c n)) (disk s))" for k
    unfolding W_def take_map by (rule replay_puts)
  then have start: "if k \<le> n then disk_old ?l ?old (blocks (replay (take k W) (sectors (disk s))))
    else disk_good ?l n new (blocks (replay (take k W) (sectors (disk s))))" for k
    unfolding new_def by (simp only:) (rule commit_crash [where old = ?old, OF r assms(4)], rule blocks_puts [OF commit_writes_small [OF r(1,2)]])
  have "\<exists>v. initlog dv sb (binit u) = Some v \<and> disk_old ?l (if n < k then new else ?old) (blocks (sectors (disk v)))"
    if u: "crashed dv sb W (sectors (disk s)) k (sectors (disk u))" "quiet q u" "fresh u" for k q and u :: logs
  proof (cases "k \<le> n")
    case True
    then have "disk_good ?l 0 ?old (blocks (sectors (disk u)))"
      using crashed_good [OF u(1) assms(2) log_geom_0 [OF r(1)] assms(3)] start [of k] by (simp add: disk_good_0)
    then show ?thesis using recovery_spec [OF u(2,3) assms(2) log_geom_0 [OF r(1)] assms(3)] True by auto
  next
    case False
    then have "disk_good ?l n new (blocks (sectors (disk u)))"
      using crashed_good [OF u(1) assms(2) r(1) assms(3)] start [of k] by simp
    then show ?thesis using recovery_spec [OF u(2,3) assms(2) r(1) assms(3)] False by auto
  qed
  moreover have "writes (disk t) = writes (disk s) @ W" "sectors (disk t) = replay W (sectors (disk s))"
    unfolding t(2) W_def by (simp_all add: puts_writes replay_puts)
  ultimately show ?thesis using t(1) by (intro exI [of _ t] exI [of _ W]) (fastforce simp: disk_old_def new_def)
qed

lemma binit_log: "log_st (binit s) = log_st s"
proof -
  have "log_st (binit_loop bs t) = log_st t" for bs and t :: "'a logs_scheme"
    by (induction bs arbitrary: t) (simp_all add: bpush_def upd_buf_def initsleeplock_def upd_slk_def initlock_def Let_def)
  then show ?thesis by (simp add: binit_def Let_def initlock_def upd_buf_def)
qed

text \<open>A transaction of one block: block 100 filled with sevens and pinned, the log region at block 2.\<close>

definition lsample :: logs where
  "lsample = disks.extend (fsample\<lparr>disk := \<lparr>sectors = (\<lambda>_ _. 0), writes = []\<rparr>\<rparr>) (logs.fields
     \<lparr>l_start = 2, l_size = 30, l_outstanding = 0, l_committing = True, l_dev = 1, l_lh = \<lparr>lh_n = 1, lh_block = (\<lambda>_. 100)\<rparr>\<rparr>)"

lemma lsample_fields [simp]:
  "quiet 0 lsample" "fresh lsample" "disk lsample = \<lparr>sectors = (\<lambda>_ _. 0), writes = []\<rparr>"
  "log_st lsample = \<lparr>l_start = 2, l_size = 30, l_outstanding = 0, l_committing = True, l_dev = 1, l_lh = \<lparr>lh_n = 1, lh_block = (\<lambda>_. 100)\<rparr>\<rparr>"
  using fsample_quiet vsample_ok
  by (simp_all add: lsample_def fsample_def disks.defs logs.defs quiet_def fresh_def cpu_ok_def free_def mycpu_def)

definition dirtied :: "logs option" where
  "dirtied = do { (b, s) \<leftarrow> bread 1 100 (binit lsample); s \<leftarrow> bpin b (set_data b (\<lambda>_. 7) s); brelse b s }"

abbreviation dirty_cache :: cache where
  "dirty_cache \<equiv> \<lparr>view = (\<lambda>m. if m = 100 then (\<lambda>_. 7) else (\<lambda>_. 0)), refs = (\<lambda>_. 0)(100 := 1), holder = (\<lambda>_. None)\<rparr>"

lemma dirtied_ready:
  "\<exists>s. dirtied = Some s \<and> commit_ready 1 0 (p_pid (proc lsample 0)) s dirty_cache 1 \<and> log_st s = log_st lsample \<and> disk s = disk lsample"
proof -
  let ?pid = "p_pid (proc lsample 0)"
  define c where "c = \<lparr>view = (\<lambda>_ _. 0), refs = (\<lambda>_. 0), holder = (\<lambda>_. None)\<rparr>"
  have "cache_at 1 0 ?pid (binit lsample) c" "disk (binit lsample) = disk lsample"
    using binit_cache [of 0 lsample 1, unfolded lsample_fields(3) platter.simps if_cancel] by (simp_all add: c_def)
  note b = this
  have sm: "small 100" by (simp add: small_def)
  obtain b t1 where t1: "bread 1 100 (binit lsample) = Some (b, t1)" "moved (binit lsample) t1" "disk t1 = disk lsample"
    "cache_at 1 0 ?pid t1 (c\<lparr>refs := (refs c)(100 := 1), holder := (holder c)(100 := Some ?pid)\<rparr>)" (is "cache_at _ _ _ _ ?c1")
    "buf_of (bufs t1) 1 100 = Some b"
    using bread_spec [OF b(1) sm] b(2) by (auto simp: c_def room_def NBUF_def MAXOPBLOCKS_def)
  have p1: "0 < refs ?c1 100" by simp
  note d = data_spec [OF t1(4,5) p1 moved_settled [OF t1(2)], of "\<lambda>_. 7", folded set_data_def]
  let ?t2 = "set_data b (\<lambda>_. 7) t1" and ?c2 = "?c1\<lparr>view := (view ?c1)(100 := (\<lambda>_. 7))\<rparr>"
  have p2: "0 < refs ?c2 100" "refs ?c2 100 < 2 ^ 32 - 1" "buf_of (bufs ?t2) 1 100 = Some b" using d(3) t1(5) by simp_all
  let ?c3 = "?c2\<lparr>refs := (refs ?c2)(100 := refs ?c2 100 + 1)\<rparr>"
  obtain t3 where t3: "bpin b ?t2 = Some t3" "moved ?t2 t3" "disk t3 = disk ?t2" "cache_at 1 0 ?pid t3 ?c3" "buf_of (bufs t3) 1 100 = Some b"
    using pin_spec(1) [OF d(2) p2(3,1,2)] p2(3) by metis
  have p3: "holder ?c3 100 = Some ?pid" "1 < refs ?c3 100" by simp_all
  let ?c4 = "?c3\<lparr>refs := (refs ?c3)(100 := refs ?c3 100 - 1), holder := (holder ?c3)(100 := None)\<rparr>"
  obtain t4 where t4: "brelse b t3 = Some t4" "moved t3 t4" "disk t4 = disk t3" "cache_at 1 0 ?pid t4 ?c4"
    using brelse_spec [OF t3(4,5) p3(1) disjI1 [OF p3(2)]] by blast
  have c4: "?c4 = dirty_cache" by (intro cache.equality) (auto simp: c_def fun_eq_iff)
  have "log_st t4 = log_st (binit lsample)" using t1(2) d(1) t3(2) t4(2) by simp
  then have l: "log_st t4 = log_st lsample" "disk t4 = disk lsample" using t1(3) t3(3) t4(3) by (simp_all add: set_data_def upd_buf_def binit_log)
  have d: "dirtied = Some t4" using t1(1) t3(1) t4(1) by (simp add: dirtied_def)
  have "{x::uint. x = 100} = {100}" by simp
  moreover have "log_at (log_st lsample) j \<noteq> 100" if "j < LOGSIZE" for j
    using unat_log_at [of "log_st lsample" j] that by (auto simp: LOGSIZE_def MAXOPBLOCKS_def)
  ultimately have "commit_ready 1 0 ?pid t4 dirty_cache 1"
    using t4(4) sm unfolding c4
    by (auto simp: commit_ready_def l log_geom_def log_idle_def in_log_def inj_on_def room_def NBUF_def LOGSIZE_def MAXOPBLOCKS_def Let_def)
  then show ?thesis using d l by blast
qed

abbreviation sample_sb :: superblock where
  "sample_sb \<equiv> \<lparr>sb_magic = 0, sb_size = 0, sb_nblocks = 0, sb_ninodes = 0, sb_nlog = 30, sb_logstart = 2, sb_inodestart = 0, sb_bmapstart = 0\<rparr>"

theorem log_crash_safe_witness:
  "\<exists>s t W. dirtied = Some s \<and> commit s = Some t \<and> writes (disk t) = W \<and>
    (\<forall>k. \<exists>v. initlog 1 sample_sb (binit (lsample\<lparr>disk := \<lparr>sectors = replay (take k W) (\<lambda>_ _. 0), writes = []\<rparr>\<rparr>)) = Some v \<and>
      blocks (sectors (disk v)) 100 = (if 1 < k then (\<lambda>_. 7) else (\<lambda>_. 0)))"
proof -
  obtain s where s: "dirtied = Some s" "commit_ready 1 0 (p_pid (proc lsample 0)) s dirty_cache 1" "log_st s = log_st lsample" "disk s = disk lsample"
    using dirtied_ready by blast
  have z: "get32 (\<lambda>_. 0) 0 = 0" "blocks (\<lambda>_ _. 0) = (\<lambda>_ _. 0)" "m \<in> (\<lambda>_. 100) ` {..<1 :: nat} \<longleftrightarrow> m = (100 :: uint)" for m
    by (auto simp: get32_def numeral_eq_Suc blocks_def)
  obtain t W where t: "commit s = Some t" "writes (disk t) = W"
    "\<And>k q u. crashed 1 sample_sb W (\<lambda>_ _. 0) k (sectors (disk u)) \<Longrightarrow> quiet q (u :: logs) \<Longrightarrow> fresh u \<Longrightarrow>
      (\<exists>v. initlog 1 sample_sb (binit u) = Some v \<and> (\<forall>m. small m \<and> \<not> in_log 2 m \<longrightarrow>
        blocks (sectors (disk v)) m = (if 1 < k \<and> m = 100 then view dirty_cache m else (\<lambda>_. 0))))"
    using log_crash_safe [OF s(2), of sample_sb] unfolding s(3,4) lsample_fields log.simps logheader.simps platter.simps superblock.simps z
    by (simp del: One_nat_def) blast
  have m: "small 100" "\<not> in_log 2 100" by (simp_all add: small_def in_log_def LOGSIZE_def MAXOPBLOCKS_def)
  let ?u = "\<lambda>k. lsample\<lparr>disk := \<lparr>sectors = replay (take k W) (\<lambda>_ _. 0), writes = []\<rparr>\<rparr>"
  have u: "quiet 0 (?u k)" "fresh (?u k)" "crashed 1 sample_sb W (\<lambda>_ _. 0) k (sectors (disk (?u k)))" for k
    using lsample_fields(1,2) by (simp_all add: quiet_def fresh_def crashed.in_commit)
  have "\<exists>v. initlog 1 sample_sb (binit (?u k)) = Some v \<and> blocks (sectors (disk v)) 100 = (if 1 < k then (\<lambda>_. 7) else (\<lambda>_. 0))" for k
    using t(3) [OF u(3,1,2), of k] m by auto
  then show ?thesis using s(1) t(1,2) by blast
qed

end
