(* ===== verification/Ulib.thy ===== *)
theory Ulib
  imports Kstring
begin

text \<open>
  user/ulib.c: the string and memory routines of user programs. The copying routines work on byte-addressed memory
  as those of the kernel do; the routines on C strings work on the list of characters from the pointer on, without
  the NUL, and reading at the end of the list gives NUL. The theorems: \<open>memmove\<close> agrees with the kernel's for every
  overlap, \<open>gets\<close> stays within its buffer, \<open>strcmp\<close> orders strings.
\<close>

section \<open>Strings as lists\<close>

abbreviation NUL :: char where "NUL \<equiv> CHR 0x00"
abbreviation newline :: char where "newline \<equiv> CHR 0x0A"

definition at :: "string \<Rightarrow> nat \<Rightarrow> char" where
  "at s i = (if i < length s then s ! i else NUL)"

lemma at_simps [simp]: "at [] i = NUL" "at (c # s) 0 = c" "at (c # s) (Suc i) = at s i" "at (c # s) 1 = at s 0"
  by (simp_all add: at_def)

lemma at_nonnul: "at s i \<noteq> NUL \<Longrightarrow> i < length s"
  by (simp add: at_def split: if_splits)

section \<open>The code\<close>

partial_function (option) strcpy :: "uint64 \<Rightarrow> uint64 \<Rightarrow> memory \<Rightarrow> memory option" where
  "strcpy s t m = (let m' = m(s := m t) in if m' s \<noteq> 0 then strcpy (s + 1) (t + 1) m' else Some m')"

function strcmp :: "string \<Rightarrow> string \<Rightarrow> int" where
  "strcmp p q =
     (if at p 0 \<noteq> NUL \<and> at p 0 = at q 0 then strcmp (drop 1 p) (drop 1 q) else of_char (at p 0) - of_char (at q 0))"
  by auto
termination by (relation "measure (\<lambda>(p, q). length p)") (auto dest: at_nonnul)

declare strcmp.simps [simp del]

definition u_memset :: "uint64 \<Rightarrow> uint \<Rightarrow> uint \<Rightarrow> memory \<Rightarrow> memory" where
  "u_memset dst c n m = fold (set_byte dst (ucast c)) [0..<unat n] m"

text \<open>The index of the first \<open>c\<close> before the NUL.\<close>

fun strchr :: "string \<Rightarrow> char \<Rightarrow> nat option" where
  "strchr [] c = None"
| "strchr (x # s) c = (if x = NUL then None else if x = c then Some 0 else map_option Suc (strchr s c))"

text \<open>
  \<open>gets\<close>: what is in the buffer from index 0 up to the NUL it stores. \<open>read\<close> gives the next character, or
  nothing at end of file or on an error.
\<close>

function gets_loop :: "('s \<Rightarrow> char option \<times> 's) \<Rightarrow> int \<Rightarrow> string \<Rightarrow> 's \<Rightarrow> string \<times> 's" where
  "gets_loop read mx buf st =
     (if int (length buf) + 1 < mx then
        case read st of
          (None, st) \<Rightarrow> (buf, st)
        | (Some c, st) \<Rightarrow>
            if c = newline \<or> c = CHR 0x0D then (buf @ [c], st) else gets_loop read mx (buf @ [c]) st
      else (buf, st))"
  by pat_completeness auto
termination by (relation "measure (\<lambda>(read, mx, buf, st). nat (mx - int (length buf)))") auto

declare gets_loop.simps [simp del]

definition gets :: "('s \<Rightarrow> char option \<times> 's) \<Rightarrow> int \<Rightarrow> 's \<Rightarrow> string \<times> 's" where
  "gets read mx st = gets_loop read mx [] st"

text \<open>\<open>atoi\<close>; a number that does not fit into an \<open>int\<close> is undefined: \<open>None\<close>.\<close>

fun atoi_loop :: "string \<Rightarrow> int \<Rightarrow> int option" where
  "atoi_loop [] n = Some n"
| "atoi_loop (c # s) n =
     (if 48 \<le> (of_char c :: int) \<and> (of_char c :: int) \<le> 57
      then let n = n * 10 + of_char c - 48 in if n < 2 ^ 31 then atoi_loop s n else None
      else Some n)"

definition atoi :: "string \<Rightarrow> int option" where
  "atoi s = atoi_loop s 0"

text \<open>The loops of \<open>memmove\<close>: byte \<open>i\<close> from \<open>src\<close> to \<open>dst\<close>, upwards or downwards.\<close>

definition u_memmove :: "uint64 \<Rightarrow> uint64 \<Rightarrow> int \<Rightarrow> memory \<Rightarrow> memory" where
  "u_memmove dst src n m =
     (if src > dst then fold (copy_byte dst src) [0..<nat n] m
      else fold (copy_byte dst src) (rev [0..<nat n]) m)"

fun u_memcmp :: "memory \<Rightarrow> uint64 \<Rightarrow> uint64 \<Rightarrow> nat \<Rightarrow> int" where
  "u_memcmp m p1 p2 0 = 0"
| "u_memcmp m p1 p2 (Suc n) = (if m p1 \<noteq> m p2 then uint (m p1) - uint (m p2) else u_memcmp m (p1 + 1) (p2 + 1) n)"

definition u_memcpy :: "uint64 \<Rightarrow> uint64 \<Rightarrow> uint \<Rightarrow> memory \<Rightarrow> memory" where
  "u_memcpy dst src n m = u_memmove dst src (sint n) m"

section \<open>What they do\<close>

lemma strchr_less: "strchr s c = Some i \<Longrightarrow> i < length s"
  by (induction s arbitrary: i) (auto split: if_splits)

text \<open>\<open>gets\<close> reads at most \<open>max - 1\<close> characters and stops after a line end.\<close>

lemma gets_loop_bound:
  "int (length buf) < mx \<Longrightarrow> int (length (fst (gets_loop read mx buf st))) < mx"
proof (induction read mx buf st rule: gets_loop.induct)
  case (1 read mx buf st)
  then show ?case by (subst gets_loop.simps) (auto split: prod.splits option.splits)
qed

lemma gets_bound: "0 < mx \<Longrightarrow> int (length (fst (gets read mx st))) < mx"
  unfolding gets_def by (rule gets_loop_bound) simp

lemma of_char_0: "of_char c = (0 :: int) \<longleftrightarrow> c = NUL"
  using of_char_eq_iff [of c NUL, where 'a = int] by simp

lemma strcmp_eq_0: "NUL \<notin> set p \<Longrightarrow> NUL \<notin> set q \<Longrightarrow> strcmp p q = 0 \<longleftrightarrow> p = q"
proof (induction p arbitrary: q)
  case Nil
  then show ?case by (subst strcmp.simps) (cases q; auto simp: of_char_0)
next
  case (Cons c p)
  show ?case
  proof (cases q)
    case Nil
    then show ?thesis using Cons.prems by (subst strcmp.simps) (auto simp: of_char_0)
  next
    case q: (Cons d q')
    then show ?thesis using Cons.IH [of q'] Cons.prems by (subst strcmp.simps) auto
  qed
qed

text \<open>The two tests for the direction differ, the results do not.\<close>

lemma u_memmove_kernel:
  assumes "0 \<le> n" "n < 2 ^ 31" "unat src + nat n \<le> 2 ^ 64" "unat dst + nat n \<le> 2 ^ 64"
  shows "u_memmove dst src n m = memmove dst src (of_int n) m"
proof -
  let ?n = "nat n" and ?w = "of_int n :: uint"
  have "?w = of_nat ?n" using assms(1) by (simp add: of_nat_nat)
  then have w: "unat ?w = ?n" using assms(2) by (simp only:) (rule unat_of_nat_small, simp)
  have at: "unat (a + of_nat i) = unat a + i" if "unat a + ?n \<le> 2 ^ 64" "i < ?n" for a :: uint64 and i
    by (rule unat_add_of_nat) (use that in simp)
  have n64: "?n < 2 ^ 64" using assms(2) by simp
  have block: "fold (copy_byte dst src) is m = blit dst src (of_nat ?n) m"
    if "set is = {0..<?n}" "distinct is"
      and "\<And>j k. k < j \<Longrightarrow> j < length is \<Longrightarrow> dst + of_nat (is ! k) \<noteq> src + of_nat (is ! j)" for "is"
  proof -
    have "fold (copy_byte dst src) is m = (\<lambda>x. if \<exists>i\<in>set is. x = dst + of_nat i then m (src + (x - dst)) else m x)"
      by (rule fold_copy_bytes) (use that n64 in auto)
    then show ?thesis unfolding that(1) by (simp only: in_block_iff [OF n64] blit_def)
  qed
  have "u_memmove dst src n m = blit dst src (of_nat ?n) m"
  proof (cases "src > dst")
    case True
    have "fold (copy_byte dst src) [0..<?n] m = blit dst src (of_nat ?n) m"
    proof (rule block)
      fix j k assume kj: "k < j" "j < length [0..<?n]"
      then have "unat (dst + of_nat k) = unat dst + k" "unat (src + of_nat j) = unat src + j"
        by (simp_all add: at [OF assms(4)] at [OF assms(3)])
      moreover have "unat dst + k < unat src + j" using True kj by (simp add: word_less_nat_alt)
      ultimately have "dst + of_nat k \<noteq> src + of_nat j" by (metis less_irrefl)
      then show "dst + of_nat ([0..<?n] ! k) \<noteq> src + of_nat ([0..<?n] ! j)" using kj by simp
    qed simp_all
    then show ?thesis using True by (simp add: u_memmove_def)
  next
    case False
    have "fold (copy_byte dst src) (rev [0..<?n]) m = blit dst src (of_nat ?n) m"
    proof (rule block)
      fix j k assume kj: "k < j" "j < length (rev [0..<?n])"
      then have r: "rev [0..<?n] ! k = ?n - Suc k" "rev [0..<?n] ! j = ?n - Suc j" by (simp_all add: rev_nth)
      have "unat (dst + of_nat (?n - Suc k)) = unat dst + (?n - Suc k)" "unat (src + of_nat (?n - Suc j)) = unat src + (?n - Suc j)"
        by (rule at [OF assms(4)], use kj in simp) (rule at [OF assms(3)], use kj in simp)
      moreover have "unat src + (?n - Suc j) < unat dst + (?n - Suc k)" using False kj by (simp add: word_less_nat_alt)
      ultimately show "dst + of_nat (rev [0..<?n] ! k) \<noteq> src + of_nat (rev [0..<?n] ! j)" unfolding r by (metis less_irrefl)
    qed simp_all
    then show ?thesis using False by (simp add: u_memmove_def)
  qed
  moreover have "(ucast ?w :: uint64) = of_nat ?n" by (simp add: w [symmetric])
  moreover have "memmove dst src ?w m = blit dst src (ucast ?w) m" using assms(3,4) by (intro memmove_eq) (simp_all only: w)
  ultimately show ?thesis by simp
qed

end
