(* ===== verification/Grep.thy ===== *)
theory Grep
  imports Ulib
begin

text \<open>
  user/grep.c: the matcher for \<open>^ . * $\<close> and the loop that prints the matching lines. A C string is the list
  of its characters from the pointer on, without the NUL; reading at its end gives NUL. The theorems: the
  matcher decides the declarative meaning of a pattern, and \<open>grep\<close> prints exactly the matching lines.
\<close>

section \<open>The code\<close>

function (sequential) matchhere :: "string \<Rightarrow> string \<Rightarrow> bool" and matchstar :: "char \<Rightarrow> string \<Rightarrow> string \<Rightarrow> bool" where
  "matchhere re text =
     (if at re 0 = NUL then True
      else if at re 1 = CHR ''*'' then matchstar (at re 0) (drop 2 re) text
      else if at re 0 = CHR ''$'' \<and> at re 1 = NUL then at text 0 = NUL
      else if at text 0 \<noteq> NUL \<and> (at re 0 = CHR ''.'' \<or> at re 0 = at text 0) then matchhere (drop 1 re) (drop 1 text)
      else False)"
| "matchstar c re text =
     (if matchhere re text then True
      else if at text 0 \<noteq> NUL \<and> (at text 0 = c \<or> c = CHR ''.'') then matchstar c re (drop 1 text)
      else False)"
  by pat_completeness auto
termination
  by (relation "measures [\<lambda>x. case x of Inl (re, text) \<Rightarrow> length re | Inr (c, re, text) \<Rightarrow> length re,
       \<lambda>x. case x of Inl (re, text) \<Rightarrow> length text | Inr (c, re, text) \<Rightarrow> length text,
       \<lambda>x. case x of Inl _ \<Rightarrow> 0 | Inr _ \<Rightarrow> 1]")
    (auto dest: at_nonnul)

declare matchhere.simps [simp del] matchstar.simps [simp del]

function match_loop :: "string \<Rightarrow> string \<Rightarrow> bool" where
  "match_loop re text =
     (if matchhere re text then True else if at text 0 \<noteq> NUL then match_loop re (drop 1 text) else False)"
  by auto
termination by (relation "measure (\<lambda>(re, text). length text)") (auto dest: at_nonnul)

declare match_loop.simps [simp del]

definition match :: "string \<Rightarrow> string \<Rightarrow> bool" where
  "match re text = (if at re 0 = CHR ''^'' then matchhere (drop 1 re) text else match_loop re text)"

text \<open>The loop over the lines of the buffer, from \<open>p\<close> on: what is left, and the output.\<close>

function lines_loop :: "string \<Rightarrow> string \<Rightarrow> string \<Rightarrow> string \<times> string" where
  "lines_loop pattern p out =
     (case strchr p newline of
        None \<Rightarrow> (p, out)
      | Some q \<Rightarrow> lines_loop pattern (drop (q + 1) p)
          (if match pattern (take q p) then out @ take (q + 1) p else out))"
  by auto
termination by (relation "measure (\<lambda>(pat, p, out). length p)") (auto dest: strchr_less)

declare lines_loop.simps [simp del]

text \<open>
  \<open>read\<close> is a parameter: the bytes it stores and the state of the file after it, none at end of file or
  on an error. \<open>b\<close> is the part of \<open>buf\<close> that holds data.
\<close>

definition BUFSIZE :: nat where "BUFSIZE = 1024"

partial_function (option) grep_loop :: "(nat \<Rightarrow> 's \<Rightarrow> string \<times> 's) \<Rightarrow> string \<Rightarrow> string \<Rightarrow> 's \<Rightarrow> string \<Rightarrow> (string \<times> 's) option" where
  "grep_loop read pattern b st out =
     (case read (BUFSIZE - length b - 1) st of (d, st) \<Rightarrow>
        if d = [] then Some (out, st)
        else case lines_loop pattern (b @ d) out of (b, out) \<Rightarrow> grep_loop read pattern b st out)"

definition grep :: "(nat \<Rightarrow> 's \<Rightarrow> string \<times> 's) \<Rightarrow> string \<Rightarrow> 's \<Rightarrow> (string \<times> 's) option" where
  "grep read pattern st = grep_loop read pattern [] st []"

section \<open>The meaning of a pattern\<close>

datatype item = One char | Star char | End

fun items :: "string \<Rightarrow> item list" where
  "items [] = []"
| "items (c # r) =
     (if at r 0 = CHR ''*'' then Star c # items (drop 1 r)
      else if c = CHR ''$'' \<and> r = [] then [End] else One c # items r)"

definition fits :: "char \<Rightarrow> char \<Rightarrow> bool" where
  "fits c x \<longleftrightarrow> c = CHR ''.'' \<or> x = c"

text \<open>Matching from the start of the text: what follows the matched part is free unless \<open>$\<close> ends the pattern.\<close>

inductive matches :: "item list \<Rightarrow> string \<Rightarrow> bool" where
  rest: "matches [] w"
| at_end: "matches [End] []"
| one: "fits c x \<Longrightarrow> matches r w \<Longrightarrow> matches (One c # r) (x # w)"
| star: "(\<forall>x\<in>set u. fits c x) \<Longrightarrow> matches r w \<Longrightarrow> matches (Star c # r) (u @ w)"

inductive_cases matches_oneE: "matches (One c # r) w"
inductive_cases matches_starE: "matches (Star c # r) w"
inductive_simps matches_end [simp]: "matches [End] w"
inductive_simps matches_nil [simp]: "matches [] w"

lemma matches_one: "matches (One c # r) w \<longleftrightarrow> (\<exists>x v. w = x # v \<and> fits c x \<and> matches r v)"
  by (auto elim: matches_oneE intro: matches.one)

lemma matches_star:
  "matches (Star c # r) w \<longleftrightarrow> matches r w \<or> (\<exists>x v. w = x # v \<and> fits c x \<and> matches (Star c # r) v)"
proof
  assume "matches (Star c # r) w"
  then obtain u v where u: "w = u @ v" "\<forall>x\<in>set u. fits c x" "matches r v" by (rule matches_starE)
  show "matches r w \<or> (\<exists>x v. w = x # v \<and> fits c x \<and> matches (Star c # r) v)"
    using u by (cases u) (auto intro: matches.star)
next
  assume "matches r w \<or> (\<exists>x v. w = x # v \<and> fits c x \<and> matches (Star c # r) v)"
  then show "matches (Star c # r) w"
  proof
    assume "matches r w"
    then show ?thesis using matches.star [of "[]" c r w] by simp
  next
    assume "\<exists>x v. w = x # v \<and> fits c x \<and> matches (Star c # r) v"
    then obtain x u v where "w = x # u @ v" "fits c x" "\<forall>x\<in>set u. fits c x" "matches r v" by (auto elim: matches_starE)
    then show ?thesis using matches.star [of "x # u" c r v] by simp
  qed
qed

lemma at_0_nul: "NUL \<notin> set s \<Longrightarrow> at s 0 = NUL \<longleftrightarrow> s = []"
  by (cases s) auto

lemma matchhere_matches:
  "NUL \<notin> set re \<Longrightarrow> NUL \<notin> set tx \<Longrightarrow> matchhere re tx \<longleftrightarrow> matches (items re) tx"
  "NUL \<notin> set re \<Longrightarrow> NUL \<notin> set tx \<Longrightarrow> matchstar c re tx \<longleftrightarrow> matches (Star c # items re) tx"
proof (induction re tx and c re tx rule: matchhere_matchstar.induct)
  case (1 re tx)
  show ?case
  proof (cases re)
    case Nil
    then show ?thesis by (simp add: matchhere.simps)
  next
    case (Cons c r)
    have r: "NUL \<notin> set r" "c \<noteq> NUL" "NUL \<notin> set (drop 1 r)" "NUL \<notin> set (drop 1 tx)"
      using 1(3,4) Cons by (auto dest: in_set_dropD)
    consider "at r 0 = CHR ''*''" | "at r 0 \<noteq> CHR ''*''" "c = CHR ''$''" "r = []"
      | "at r 0 \<noteq> CHR ''*''" "\<not> (c = CHR ''$'' \<and> r = [])" by blast
    then show ?thesis
    proof cases
      case 1
      then show ?thesis using "1.IH"(1) Cons r "1.prems"(2) by (subst matchhere.simps) simp
    next
      case 2
      then show ?thesis using Cons at_0_nul "1.prems"(2) by (subst matchhere.simps) simp
    next
      case 3
      then have "matchhere re tx = (at tx 0 \<noteq> NUL \<and> (c = CHR ''.'' \<or> c = at tx 0) \<and> matchhere r (drop 1 tx))"
        using Cons r at_0_nul [OF r(1)] by (subst matchhere.simps) auto
      also have "\<dots> = matches (One c # items r) tx"
        using "1.IH"(2) 3 Cons r at_0_nul [OF r(1)] at_0_nul [OF "1.prems"(2)]
        by (cases tx) (auto simp: matches_one fits_def)
      finally show ?thesis using 3 Cons by auto
    qed
  qed
next
  case (2 c re tx)
  then show ?case
    using at_0_nul [of tx]
    by (subst matchstar.simps, subst matches_star) (cases tx; auto simp: fits_def)
qed

text \<open>
  C16. The matcher of grep decides what its pattern means: with the pattern read as a sequence of characters
  (\<open>.\<close> any), starred characters and a final \<open>$\<close>, \<open>match\<close> holds exactly when the pattern fits at some place
  of the tx, or at its start when the pattern begins with \<open>^\<close>.
\<close>

theorem match_correct:
  assumes "NUL \<notin> set re" "NUL \<notin> set tx"
  shows "match re tx \<longleftrightarrow> (if at re 0 = CHR ''^'' then matches (items (tl re)) tx
    else (\<exists>u w. tx = u @ w \<and> matches (items re) w))"
proof (cases "at re 0 = CHR ''^''")
  case True
  then have "NUL \<notin> set (tl re)" using assms(1) by (cases re) auto
  then show ?thesis using True assms matchhere_matches(1) [of "tl re" tx] by (simp add: match_def drop_Suc)
next
  case False
  have "match_loop re tx \<longleftrightarrow> (\<exists>u w. tx = u @ w \<and> matches (items re) w)"
    using assms
  proof (induction tx)
    case Nil
    then show ?case by (subst match_loop.simps) (simp add: matchhere_matches)
  next
    case (Cons x tx)
    have "match_loop re (x # tx) \<longleftrightarrow> matches (items re) (x # tx) \<or> match_loop re tx"
      using Cons.prems by (subst match_loop.simps) (auto simp: matchhere_matches)
    also have "match_loop re tx \<longleftrightarrow> (\<exists>u w. tx = u @ w \<and> matches (items re) w)" using Cons by simp
    finally show ?case by (metis append_Cons append_Nil append_eq_Cons_conv)
  qed
  then show ?thesis using False by (simp add: match_def)
qed

theorem match_correct_witness:
  "match ''a.*c$'' ''xxabbc'' \<longleftrightarrow> (\<exists>u w. ''xxabbc'' = u @ w \<and> matches (items ''a.*c$'') w)"
  using match_correct [of "''a.*c$''" "''xxabbc''"] by (simp del: items.simps)

section \<open>What grep prints\<close>

text \<open>The complete lines of a text, and what follows the last newline.\<close>

fun text_lines :: "string \<Rightarrow> string list \<times> string" where
  "text_lines [] = ([], [])"
| "text_lines (c # s) = (case text_lines s of (ls, r) \<Rightarrow>
     if c = newline then ([] # ls, r) else (case ls of [] \<Rightarrow> ([], c # r) | l # ls \<Rightarrow> ((c # l) # ls, r)))"

definition selected :: "string \<Rightarrow> string list \<Rightarrow> string" where
  "selected pattern ls = concat (map (\<lambda>l. l @ [newline]) (filter (match pattern) ls))"

text \<open>What successive reads find: each chunk is what one \<open>read\<close> can get, the rest of it stays for the next.\<close>

fun read_chunk :: "nat \<Rightarrow> string list \<Rightarrow> string \<times> string list" where
  "read_chunk k [] = ([], [])"
| "read_chunk k (c # cs) = (take k c, if length c \<le> k then cs else drop k c # cs)"

lemma text_lines_none: "newline \<notin> set s \<Longrightarrow> text_lines s = ([], s)"
  by (induction s) auto

lemma text_lines_line: "newline \<notin> set l \<Longrightarrow> text_lines (l @ newline # r) = (l # fst (text_lines r), snd (text_lines r))"
  by (induction l) (auto split: prod.splits)

lemma text_lines_append:
  "text_lines (s @ t) = (case text_lines s of (ls, r) \<Rightarrow> case text_lines (r @ t) of (ls', r') \<Rightarrow> (ls @ ls', r'))"
proof (induction s)
  case (Cons c s)
  obtain ls r where s: "text_lines s = (ls, r)" by fastforce
  obtain ls' r' where t: "text_lines (r @ t) = (ls', r')" by fastforce
  show ?case using Cons.IH s t by (cases ls; cases ls') auto
qed (simp split: prod.splits)

lemma text_lines_rest: "newline \<notin> set (snd (text_lines s))"
  by (induction s) (auto split: prod.splits list.splits)

lemma text_lines_set: "set (snd (text_lines s)) \<subseteq> set s" "x \<in> set (fst (text_lines s)) \<Longrightarrow> set x \<subseteq> set s"
  by (induction s arbitrary: x) (auto split: prod.splits list.splits if_splits, blast+)

lemma strchr_newline:
  assumes "NUL \<notin> set s"
  shows "case strchr s newline of None \<Rightarrow> newline \<notin> set s
    | Some q \<Rightarrow> q < length s \<and> s = take q s @ newline # drop (q + 1) s \<and> newline \<notin> set (take q s)"
  using assms by (induction s) (auto split: option.splits)

lemma lines_loop_eq:
  "NUL \<notin> set p \<Longrightarrow> lines_loop pattern p out = (snd (text_lines p), out @ selected pattern (fst (text_lines p)))"
proof (induction pattern p out rule: lines_loop.induct)
  case (1 pattern p out)
  note sc = strchr_newline [OF "1.prems"]
  show ?case
  proof (cases "strchr p newline")
    case None
    then show ?thesis using sc by (subst lines_loop.simps) (simp add: text_lines_none selected_def)
  next
    case (Some q)
    let ?l = "take q p" and ?r = "drop (q + 1) p"
    have p: "p = ?l @ newline # ?r" "newline \<notin> set ?l" using sc Some by auto
    have tl: "text_lines p = (?l # fst (text_lines ?r), snd (text_lines ?r))"
      using text_lines_line [OF p(2), of ?r] p(1) by metis
    have "NUL \<notin> set ?r" using "1.prems" by (auto dest: in_set_dropD)
    moreover have "p ! q = newline" using sc Some p(1) by (metis length_take min.absorb4 nth_append_length option.case(2))
    then have "take (q + 1) p = ?l @ [newline]" using sc Some by (simp add: take_Suc_conv_app_nth)
    ultimately show ?thesis
      using "1.IH" [OF Some] Some by (subst lines_loop.simps) (auto simp: tl selected_def)
  qed
qed

lemma text_lines_prefix:
  "newline \<notin> set b \<Longrightarrow> text_lines (b @ t) = (case text_lines t of (ls, r) \<Rightarrow> case ls of [] \<Rightarrow> ([], b @ r) | l # ls \<Rightarrow> ((b @ l) # ls, r))"
  by (induction b) (auto split: prod.splits list.splits)

definition short_lines :: "string \<Rightarrow> bool" where
  "short_lines s \<longleftrightarrow> (\<forall>l\<in>set (fst (text_lines s)). length l + 1 < BUFSIZE) \<and> length (snd (text_lines s)) + 1 < BUFSIZE"

lemma short_lines_prefix: "newline \<notin> set b \<Longrightarrow> short_lines (b @ t) \<Longrightarrow> length b + 1 < BUFSIZE"
  by (auto simp: short_lines_def text_lines_prefix split: prod.splits list.splits)

lemma grep_loop_chunks:
  assumes "\<forall>c\<in>set cs. c \<noteq> [] \<and> NUL \<notin> set c" "NUL \<notin> set b" "newline \<notin> set b" "short_lines (b @ concat cs)"
  shows "grep_loop read_chunk pattern b cs out = Some (out @ selected pattern (fst (text_lines (b @ concat cs))), [])"
  using assms
proof (induction "length (concat cs)" arbitrary: cs b out rule: less_induct)
  case less
  show ?case
  proof (cases cs)
    case Nil
    then show ?thesis using less.prems(3) by (subst grep_loop.simps) (simp add: text_lines_none selected_def)
  next
    case (Cons c cs')
    define k where "k = BUFSIZE - length b - 1"
    have k: "0 < k" using short_lines_prefix [OF less.prems(3,4)] by (simp add: k_def)
    obtain d st where r: "read_chunk k cs = (d, st)" by fastforce
    then have d: "d \<noteq> []" "concat cs = d @ concat st" "NUL \<notin> set d" "\<forall>c\<in>set st. c \<noteq> [] \<and> NUL \<notin> set c"
      using Cons k less.prems(1) by (auto split: if_splits dest: in_set_takeD in_set_dropD)
    obtain ls rest where t: "text_lines (b @ d) = (ls, rest)" by fastforce
    obtain ls' rest' where t': "text_lines (rest @ concat st) = (ls', rest')" by fastforce
    have all: "text_lines (b @ concat cs) = (ls @ ls', rest')"
      using text_lines_append [of "b @ d" "concat st"] t t' d(2) by simp
    have "NUL \<notin> set rest" "newline \<notin> set rest"
      using text_lines_set(1) [of "b @ d"] text_lines_rest [of "b @ d"] t d(3) less.prems(2) by auto
    moreover have "short_lines (rest @ concat st)" using less.prems(4) by (auto simp: short_lines_def all t')
    moreover have "length (concat st) < length (concat cs)" using d(1,2) by simp
    ultimately have "grep_loop read_chunk pattern rest st (out @ selected pattern ls) = Some ((out @ selected pattern ls) @ selected pattern ls', [])"
      using less.hyps [of st rest] d(4) t' by simp
    moreover have "lines_loop pattern (b @ d) out = (rest, out @ selected pattern ls)"
      using lines_loop_eq [of "b @ d"] t d(3) less.prems(2) by simp
    ultimately show ?thesis
      using r [unfolded k_def] d(1) by (subst grep_loop.simps) (simp add: all selected_def)
  qed
qed



end
