(* ===== verification/Shell.thy ===== *)
theory Shell
  imports Grep Sysfile
begin

text \<open>
  user/sh.c: the parser of the shell and what a process does with a parsed command. Pointers into the command
  line \<open>buf\<close> are indices, \<open>es\<close> is its length. A call of \<open>panic\<close> ends the process: \<open>Panic\<close>. The four mutually
  recursive functions carry a depth bound, \<open>NoFuel\<close> when it is exceeded; \<open>parsecmd\<close> starts them with a bound that
  is proved to be enough. Allocation of the command nodes does not fail in the model. The theorems: parsing
  ends on every line, and the words of the result are NUL-terminated pieces of the line.
\<close>

section \<open>The code\<close>

definition whitespace :: string where
  "whitespace = [CHR '' '', CHR 0x09, CHR 0x0D, CHR 0x0A, CHR 0x0B]"

definition symbols :: string where
  "symbols = ''<|>&;()''"

definition MAXARGS :: nat where "MAXARGS = 10"

type_synonym token = "nat \<times> nat"

datatype cmd =
  Execcmd "token list"
| Redircmd cmd nat nat int int
| Pipecmd cmd cmd
| Listcmd cmd cmd
| Backcmd cmd

datatype 'a presult = Parsed 'a | Panic string | NoFuel

fun pbind :: "'a presult \<Rightarrow> ('a \<Rightarrow> 'b presult) \<Rightarrow> 'b presult" where
  "pbind (Parsed x) f = f x"
| "pbind (Panic m) f = Panic m"
| "pbind NoFuel f = NoFuel"

text \<open>\<open>strchr(toks, c)\<close> as a condition; it finds no NUL.\<close>

definition among :: "string \<Rightarrow> char \<Rightarrow> bool" where
  "among toks c \<longleftrightarrow> strchr toks c \<noteq> None"

function skip_ws :: "string \<Rightarrow> nat \<Rightarrow> nat" where
  "skip_ws buf s = (if s < length buf \<and> among whitespace (at buf s) then skip_ws buf (s + 1) else s)"
  by auto
termination by (relation "measure (\<lambda>(buf, s). length buf - s)") auto

function skip_word :: "string \<Rightarrow> nat \<Rightarrow> nat" where
  "skip_word buf s =
     (if s < length buf \<and> \<not> among whitespace (at buf s) \<and> \<not> among symbols (at buf s) then skip_word buf (s + 1) else s)"
  by auto
termination by (relation "measure (\<lambda>(buf, s). length buf - s)") auto

declare skip_ws.simps [simp del] skip_word.simps [simp del]

text \<open>The token's kind, its bounds \<open>q\<close> and \<open>eq\<close>, and the new position.\<close>

definition gettoken :: "string \<Rightarrow> nat \<Rightarrow> char \<times> nat \<times> nat \<times> nat" where
  "gettoken buf s =
     (let s = skip_ws buf s;
          q = s;
          c = at buf s;
          (ret, s) =
            (if c = NUL then (c, s)
             else if c \<in> set ''|();&<'' then (c, s + 1)
             else if c = CHR ''>'' then (if at buf (s + 1) = CHR ''>'' then (CHR ''+'', s + 2) else (c, s + 1))
             else (CHR ''a'', skip_word buf s))
      in (ret, q, s, skip_ws buf s))"

definition peek :: "string \<Rightarrow> nat \<Rightarrow> string \<Rightarrow> bool \<times> nat" where
  "peek buf s toks = (let s = skip_ws buf s in (at buf s \<noteq> NUL \<and> among toks (at buf s), s))"

section \<open>Scanning\<close>

lemma among_iff: "NUL \<notin> set toks \<Longrightarrow> among toks c \<longleftrightarrow> c \<in> set toks"
  unfolding among_def by (induction toks) auto

abbreviation word_char :: "char \<Rightarrow> bool" where
  "word_char c \<equiv> \<not> among whitespace c \<and> \<not> among symbols c"

lemma drop_at: "s < length buf \<Longrightarrow> drop s buf = at buf s # drop (Suc s) buf"
  by (simp add: at_def Cons_nth_drop_Suc)

lemma skip_ws_eq: "skip_ws buf s = s + length (takeWhile (among whitespace) (drop s buf))"
proof (induction buf s rule: skip_ws.induct)
  case (1 buf s)
  then show ?case by (cases "s < length buf") (subst skip_ws.simps, simp add: drop_at)+
qed

lemma skip_word_eq: "skip_word buf s = s + length (takeWhile word_char (drop s buf))"
proof (induction buf s rule: skip_word.induct)
  case (1 buf s)
  then show ?case by (cases "s < length buf") (subst skip_word.simps, simp add: drop_at)+
qed

lemma scan_bounds:
  assumes "e = s + length (takeWhile P (drop s buf))"
  shows "s \<le> e" "s \<le> length buf \<Longrightarrow> e \<le> length buf" "e < length buf \<Longrightarrow> \<not> P (at buf e)" "s \<le> i \<Longrightarrow> i < e \<Longrightarrow> P (at buf i)"
proof -
  have le: "length (takeWhile P (drop s buf)) \<le> length buf - s" using length_takeWhile_le [of P "drop s buf"] by simp
  show "s \<le> e" "s \<le> length buf \<Longrightarrow> e \<le> length buf" using assms le by simp_all
  show "\<not> P (at buf e)" if "e < length buf"
    using nth_length_takeWhile [of P "drop s buf"] that assms by (simp add: at_def)
  show "P (at buf i)" if "s \<le> i" "i < e"
  proof -
    have "i - s < length (takeWhile P (drop s buf))" using that assms by simp
    then have "P (takeWhile P (drop s buf) ! (i - s))" "takeWhile P (drop s buf) ! (i - s) = drop s buf ! (i - s)"
      by (meson nth_mem set_takeWhileD, rule takeWhile_nth)
    moreover have "i < length buf" using that assms le by simp
    ultimately show ?thesis using that(1) by (simp add: at_def)
  qed
qed

lemmas skip_ws_bounds = scan_bounds [OF skip_ws_eq] and skip_word_bounds = scan_bounds [OF skip_word_eq]

lemma ws_nul: "\<not> among whitespace NUL" "\<not> among symbols NUL"
  by (simp_all add: among_def whitespace_def symbols_def)

lemma skip_ws_at: "\<not> among whitespace (at buf (skip_ws buf s))"
  using skip_ws_bounds(3) [where s = s and buf = buf] ws_nul by (cases "skip_ws buf s < length buf") (auto simp: at_def)

lemma skip_ws_stay: "\<not> among whitespace (at buf s) \<Longrightarrow> skip_ws buf s = s"
  by (subst skip_ws.simps) simp

lemma symbol_chars: "among symbols c \<longleftrightarrow> c \<in> set ''<|>&;()''"
  by (simp add: among_iff symbols_def)

text \<open>A word: a maximal piece of characters that are neither blank nor symbol.\<close>

definition delim :: "char \<Rightarrow> bool" where
  "delim c \<longleftrightarrow> c = NUL \<or> among whitespace c \<or> among symbols c"

definition is_word :: "string \<Rightarrow> token \<Rightarrow> bool" where
  "is_word buf = (\<lambda>(q, eq). q < eq \<and> eq \<le> length buf \<and> (\<forall>i. q \<le> i \<and> i < eq \<longrightarrow> \<not> delim (at buf i)) \<and> delim (at buf eq))"

lemma gettoken_cases:
  assumes "gettoken buf s = (tok, q, eq, s')"
  obtains (nul) "tok = NUL" "at buf q = NUL" "eq = q" "q = skip_ws buf s" "s' = skip_ws buf eq"
    | (symbol) "tok \<noteq> NUL" "tok \<noteq> CHR ''a''" "at buf q \<noteq> NUL" "at buf (eq - 1) \<noteq> NUL" "q < eq" "q = skip_ws buf s" "s' = skip_ws buf eq"
    | (word) "tok = CHR ''a''" "at buf q \<noteq> NUL" "\<not> delim (at buf q)" "eq = skip_word buf q" "q = skip_ws buf s" "s' = skip_ws buf eq"
proof -
  let ?q = "skip_ws buf s"
  let ?c = "at buf ?q"
  note ws = skip_ws_at [of buf s]
  consider "?c = NUL" | "?c \<noteq> NUL" "?c \<in> set ''|();&<''" | "?c = CHR ''>''"
    | "?c \<noteq> NUL" "?c \<notin> set ''|();&<''" "?c \<noteq> CHR ''>''" by blast
  then show thesis
  proof cases
    case 1
    then show thesis using assms by (intro nul) (auto simp: gettoken_def Let_def)
  next
    case 2
    then have "tok = ?c" "q = ?q" "eq = ?q + 1" "s' = skip_ws buf eq" using assms by (auto simp: gettoken_def Let_def)
    then show thesis using 2 by (intro symbol) auto
  next
    case 3
    then have "tok \<in> {CHR ''>'', CHR ''+''}" "q = ?q" "eq = ?q + 1 \<or> eq = ?q + 2 \<and> at buf (?q + 1) = CHR ''>''" "s' = skip_ws buf eq"
      using assms by (auto simp: gettoken_def Let_def split: if_splits)
    then show thesis using 3 by (intro symbol) auto
  next
    case 4
    then have "\<not> among symbols ?c" by (auto simp: symbol_chars)
    moreover have "tok = CHR ''a''" "q = ?q" "eq = skip_word buf ?q" "s' = skip_ws buf eq" using 4 assms by (auto simp: gettoken_def Let_def)
    ultimately show thesis using 4 ws by (intro word) (auto simp: delim_def)
  qed
qed

lemma gettoken_bounds:
  assumes "gettoken buf s = (tok, q, eq, s')"
  shows "s \<le> s'" "s \<le> length buf \<Longrightarrow> s' \<le> length buf" "tok \<noteq> NUL \<Longrightarrow> s < s' \<and> s < length buf" "tok = NUL \<Longrightarrow> at buf s' = NUL"
    "tok = CHR ''a'' \<Longrightarrow> NUL \<notin> set buf \<Longrightarrow> is_word buf (q, eq)"
proof -
  note b = skip_ws_bounds(1,2) [where s = s and buf = buf] skip_ws_bounds(1,2) [where s = eq and buf = buf]
  have "s \<le> s' \<and> (s \<le> length buf \<longrightarrow> s' \<le> length buf) \<and> (tok \<noteq> NUL \<longrightarrow> s < s' \<and> s < length buf) \<and> (tok = NUL \<longrightarrow> at buf s' = NUL) \<and>
    (tok = CHR ''a'' \<longrightarrow> NUL \<notin> set buf \<longrightarrow> is_word buf (q, eq))"
    using assms
  proof (cases rule: gettoken_cases)
    case nul
    have "skip_ws buf (skip_ws buf s) = skip_ws buf s"
      using nul skip_ws_bounds(4) [where s = "skip_ws buf s" and i = "skip_ws buf s" and buf = buf] skip_ws_bounds(1) [where s = "skip_ws buf s" and buf = buf] ws_nul by fastforce
    then show ?thesis using nul b by simp
  next
    case symbol
    have "q < length buf" "eq - 1 < length buf" using at_nonnul symbol by blast+
    then show ?thesis using symbol b by auto
  next
    case word
    have q: "q < length buf" using at_nonnul word by blast
    note w = skip_word_bounds [where s = q and buf = buf, folded word(4)]
    have "q < eq" using word(3) q drop_at [OF q] by (simp add: word(4) skip_word_eq delim_def)
    moreover have "delim (at buf eq)"
    proof (cases "eq < length buf")
      case True
      then show ?thesis using skip_word_bounds(3) [where s = q and buf = buf] word(4) by (auto simp: delim_def)
    qed (simp add: delim_def at_def)
    moreover have "\<not> delim (at buf i)" if "NUL \<notin> set buf" "q \<le> i" "i < eq" for i
    proof -
      have "i < length buf" using that(3) w(2) q by simp
      then have "at buf i \<noteq> NUL" using that(1) by (auto simp: at_def dest: nth_mem)
      then show ?thesis using w(4) [of i] that by (simp add: delim_def)
    qed
    ultimately show ?thesis using word b q w by (auto simp: is_word_def)
  qed
  then show "s \<le> s'" "s \<le> length buf \<Longrightarrow> s' \<le> length buf" "tok \<noteq> NUL \<Longrightarrow> s < s' \<and> s < length buf" "tok = NUL \<Longrightarrow> at buf s' = NUL"
    "tok = CHR ''a'' \<Longrightarrow> NUL \<notin> set buf \<Longrightarrow> is_word buf (q, eq)" by blast+
qed

lemma peek_bounds:
  assumes "peek buf s toks = (b, s')"
  shows "s \<le> s'" "s \<le> length buf \<Longrightarrow> s' \<le> length buf" "b \<Longrightarrow> s' < length buf" "b \<Longrightarrow> at buf s' \<in> set toks \<and> at buf s' \<noteq> NUL"
    "\<not> among whitespace (at buf s')"
proof -
  have s': "s' = skip_ws buf s" "b \<longleftrightarrow> at buf s' \<noteq> NUL \<and> among toks (at buf s')" using assms by (auto simp: peek_def Let_def)
  have "among toks c \<Longrightarrow> c \<in> set toks" for c unfolding among_def by (induction toks) (auto split: if_splits)
  then show "s \<le> s'" "s \<le> length buf \<Longrightarrow> s' \<le> length buf" "b \<Longrightarrow> s' < length buf" "b \<Longrightarrow> at buf s' \<in> set toks \<and> at buf s' \<noteq> NUL"
    "\<not> among whitespace (at buf s')"
    using s' skip_ws_bounds(1,2) [where s = s and buf = buf] at_nonnul [of buf s'] skip_ws_at by auto
qed

section \<open>The parser\<close>

definition redir :: "char \<Rightarrow> cmd \<Rightarrow> nat \<Rightarrow> nat \<Rightarrow> cmd" where
  "redir tok c q eq =
     (if tok = CHR ''<'' then Redircmd c q eq O_RDONLY 0
      else if tok = CHR ''>'' then Redircmd c q eq (O_WRONLY OR O_CREATE OR O_TRUNC) 1
      else if tok = CHR ''+'' then Redircmd c q eq (O_WRONLY OR O_CREATE) 1
      else c)"

lemma redirs_progress:
  assumes "peek buf s toks = (b, s1)" "gettoken buf s1 = (tok, q1, e1, s2)" "gettoken buf s2 = (CHR ''a'', q, eq, s3)"
  shows "length buf - s3 < length buf - s"
  using peek_bounds(1) [OF assms(1)] gettoken_bounds(1) [OF assms(2)] gettoken_bounds(3) [OF assms(3)] by auto

function parseredirs :: "string \<Rightarrow> cmd \<Rightarrow> nat \<Rightarrow> (cmd \<times> nat) presult" where
  "parseredirs buf c s =
     (case peek buf s ''<>'' of (b, s) \<Rightarrow>
        if b then
          case gettoken buf s of (tok, _, _, s) \<Rightarrow>
          case gettoken buf s of (tok2, q, eq, s) \<Rightarrow>
            if tok2 \<noteq> CHR ''a'' then Panic ''missing file for redirection''
            else parseredirs buf (redir tok c q eq) s
        else Parsed (c, s))"
  by auto
termination
  by (relation "measure (\<lambda>(buf, c, s). length buf - s)") (simp, clarsimp, rule redirs_progress, erule sym, erule sym, erule sym)

declare parseredirs.simps [simp del]

text \<open>
  Storing the words in the \<open>execcmd\<close> that \<open>cmd\<close> points to: the innermost node of \<open>ret\<close>, which redirections
  may have wrapped.
\<close>

fun fill_args :: "token list \<Rightarrow> cmd \<Rightarrow> cmd" where
  "fill_args argv (Execcmd _) = Execcmd argv"
| "fill_args argv (Redircmd c q eq mode fd) = Redircmd (fill_args argv c) q eq mode fd"
| "fill_args argv c = c"

lemma parseredirs_bounds:
  "parseredirs buf c s = Parsed (c', s') \<Longrightarrow> s \<le> s' \<and> (s \<le> length buf \<longrightarrow> s' \<le> length buf)"
proof (induction buf c s rule: parseredirs.induct)
  case (1 buf c s)
  obtain b s1 where p: "peek buf s ''<>'' = (b, s1)" by fastforce
  obtain tok q1 e1 s2 where g1: "gettoken buf s1 = (tok, q1, e1, s2)" by (metis prod_cases4)
  obtain tok2 q eq s3 where g2: "gettoken buf s2 = (tok2, q, eq, s3)" by (metis prod_cases4)
  note bd = peek_bounds(1,2) [OF p] gettoken_bounds(1,2) [OF g1] gettoken_bounds(1,2) [OF g2]
  show ?case
  proof (cases b)
    case True
    then have "tok2 = CHR ''a''" "parseredirs buf (redir tok c q eq) s3 = Parsed (c', s')"
      using "1.prems" p g1 g2 by (subst (asm) parseredirs.simps, simp split: if_splits)+
    then have "s3 \<le> s' \<and> (s3 \<le> length buf \<longrightarrow> s' \<le> length buf)" using "1.IH" p g1 g2 True by simp
    then show ?thesis using bd by auto
  next
    case False
    then show ?thesis using "1.prems" p bd by (subst (asm) parseredirs.simps) simp
  qed
qed

text \<open>The loop of \<open>parseexec\<close> over the words; \<open>argv\<close> holds those found so far.\<close>

lemma args_progress:
  assumes "peek buf s toks = (b, s1)" "gettoken buf s1 = (CHR ''a'', q, eq, s2)" "parseredirs buf c s2 = Parsed (c', s3)"
  shows "length buf - s3 < length buf - s"
  using peek_bounds(1) [OF assms(1)] gettoken_bounds(3) [OF assms(2)] parseredirs_bounds [OF assms(3)] by auto

function args_loop :: "string \<Rightarrow> token list \<Rightarrow> cmd \<Rightarrow> nat \<Rightarrow> (cmd \<times> nat) presult" where
  "args_loop buf argv ret s =
     (case peek buf s ''|)&;'' of (b, s) \<Rightarrow>
        if b then Parsed (fill_args argv ret, s)
        else case gettoken buf s of (tok, q, eq, s) \<Rightarrow>
          if tok = NUL then Parsed (fill_args argv ret, s)
          else if tok \<noteq> CHR ''a'' then Panic ''syntax''
          else if length argv + 1 \<ge> MAXARGS then Panic ''too many args''
          else case parseredirs buf ret s of
            Parsed (ret, s) \<Rightarrow> args_loop buf (argv @ [(q, eq)]) ret s
          | Panic m \<Rightarrow> Panic m
          | NoFuel \<Rightarrow> NoFuel)"
  by auto
termination
  by (relation "measure (\<lambda>(buf, argv, ret, s). length buf - s)")
    (simp, clarsimp, rule args_progress, erule sym, erule sym, assumption)

declare args_loop.simps [simp del]

lemma gettoken_nul: "gettoken buf s = (tok, q, eq, s') \<Longrightarrow> tok = NUL \<Longrightarrow> at buf (skip_ws buf s) = NUL"
  by (erule gettoken_cases) auto

lemma back_progress:
  assumes "peek buf s toks = (True, s1)" "gettoken buf s1 = (tok, q, eq, s2)"
  shows "length buf - s2 < length buf - s"
proof -
  have "skip_ws buf s1 = s1" using peek_bounds(5) [OF assms(1)] by (rule skip_ws_stay)
  then have "tok \<noteq> NUL" using gettoken_nul [OF assms(2)] peek_bounds(4) [OF assms(1)] by auto
  then show ?thesis using peek_bounds(1) [OF assms(1)] gettoken_bounds(3) [OF assms(2)] by auto
qed

function back_loop :: "string \<Rightarrow> cmd \<Rightarrow> nat \<Rightarrow> cmd \<times> nat" where
  "back_loop buf c s =
     (case peek buf s ''&'' of (b, s) \<Rightarrow>
        if b then case gettoken buf s of (_, _, _, s) \<Rightarrow> back_loop buf (Backcmd c) s
        else (c, s))"
  by auto
termination
  by (relation "measure (\<lambda>(buf, c, s). length buf - s)") (simp, clarsimp, rule back_progress, erule sym, erule sym)

declare back_loop.simps [simp del]

fun parseline :: "nat \<Rightarrow> string \<Rightarrow> nat \<Rightarrow> (cmd \<times> nat) presult"
  and parsepipe :: "nat \<Rightarrow> string \<Rightarrow> nat \<Rightarrow> (cmd \<times> nat) presult"
  and parseexec :: "nat \<Rightarrow> string \<Rightarrow> nat \<Rightarrow> (cmd \<times> nat) presult"
  and parseblock :: "nat \<Rightarrow> string \<Rightarrow> nat \<Rightarrow> (cmd \<times> nat) presult" where
  "parseline 0 buf s = NoFuel"
| "parseline (Suc n) buf s =
     pbind (parsepipe n buf s) (\<lambda>(c, s).
       case back_loop buf c s of (c, s) \<Rightarrow>
       case peek buf s '';'' of (b, s) \<Rightarrow>
         if b then case gettoken buf s of (_, _, _, s) \<Rightarrow>
           pbind (parseline n buf s) (\<lambda>(c2, s). Parsed (Listcmd c c2, s))
         else Parsed (c, s))"
| "parsepipe 0 buf s = NoFuel"
| "parsepipe (Suc n) buf s =
     pbind (parseexec n buf s) (\<lambda>(c, s).
       case peek buf s ''|'' of (b, s) \<Rightarrow>
         if b then case gettoken buf s of (_, _, _, s) \<Rightarrow>
           pbind (parsepipe n buf s) (\<lambda>(c2, s). Parsed (Pipecmd c c2, s))
         else Parsed (c, s))"
| "parseexec 0 buf s = NoFuel"
| "parseexec (Suc n) buf s =
     (case peek buf s ''('' of (b, s) \<Rightarrow>
        if b then parseblock n buf s
        else pbind (parseredirs buf (Execcmd []) s) (\<lambda>(ret, s). args_loop buf [] ret s))"
| "parseblock 0 buf s = NoFuel"
| "parseblock (Suc n) buf s =
     (case peek buf s ''('' of (b, s) \<Rightarrow>
        if \<not> b then Panic ''parseblock''
        else case gettoken buf s of (_, _, _, s) \<Rightarrow>
          pbind (parseline n buf s) (\<lambda>(c, s).
            case peek buf s '')'' of (b, s) \<Rightarrow>
              if \<not> b then Panic ''syntax - missing )''
              else case gettoken buf s of (_, _, _, s) \<Rightarrow> parseredirs buf c s))"

text \<open>\<open>*p = 0\<close> at each end of a word; at the end of the line the NUL is there already.\<close>

fun nulterminate :: "cmd \<Rightarrow> string \<Rightarrow> string" where
  "nulterminate (Execcmd argv) buf = fold (\<lambda>(q, eq) buf. buf[eq := NUL]) argv buf"
| "nulterminate (Redircmd c q eq mode fd) buf = (nulterminate c buf)[eq := NUL]"
| "nulterminate (Pipecmd l r) buf = nulterminate r (nulterminate l buf)"
| "nulterminate (Listcmd l r) buf = nulterminate r (nulterminate l buf)"
| "nulterminate (Backcmd c) buf = nulterminate c buf"

definition parsecmd :: "string \<Rightarrow> (cmd \<times> string) presult" where
  "parsecmd buf =
     pbind (parseline (4 * length buf + 4) buf 0) (\<lambda>(c, s).
       case peek buf s [] of (_, s) \<Rightarrow>
         if s \<noteq> length buf then Panic ''syntax'' else Parsed (c, nulterminate c buf))"

section \<open>Positions and depth\<close>

lemma pbind_Parsed: "pbind r f = Parsed x \<longleftrightarrow> (\<exists>y. r = Parsed y \<and> f y = Parsed x)"
  by (cases r) auto

lemma pbind_NoFuel: "pbind r f = NoFuel \<longleftrightarrow> r = NoFuel \<or> (\<exists>y. r = Parsed y \<and> f y = NoFuel)"
  by (cases r) auto

definition within :: "string \<Rightarrow> nat \<Rightarrow> nat \<Rightarrow> bool" where
  "within buf s s' \<longleftrightarrow> s \<le> s' \<and> (s \<le> length buf \<longrightarrow> s' \<le> length buf)"

lemma within_refl [simp]: "within buf s s"
  by (simp add: within_def)

lemma within_trans: "within buf s t \<Longrightarrow> within buf t u \<Longrightarrow> within buf s u"
  by (auto simp: within_def)

lemma within_peek: "peek buf s toks = (b, s') \<Longrightarrow> within buf s s'"
  using peek_bounds(1,2) by (auto simp: within_def)

lemma within_gettoken: "gettoken buf s = (tok, q, eq, s') \<Longrightarrow> within buf s s'"
  using gettoken_bounds(1,2) by (auto simp: within_def)

lemma within_redirs: "parseredirs buf c s = Parsed (c', s') \<Longrightarrow> within buf s s'"
  using parseredirs_bounds by (auto simp: within_def)

lemma parseredirs_fuel: "parseredirs buf c s \<noteq> NoFuel"
proof (induction buf c s rule: parseredirs.induct)
  case (1 buf c s)
  then show ?case by (subst parseredirs.simps) (auto split: prod.splits)
qed

text \<open>The ways \<open>args_loop\<close> and \<open>back_loop\<close> go on.\<close>

lemma args_loop_cases:
  assumes "args_loop buf argv ret s = Parsed (c', s')" "peek buf s ''|)&;'' = (b, s1)" "gettoken buf s1 = (tok, q, eq, s2)"
  obtains (stop) "b" "c' = fill_args argv ret" "s' = s1"
    | (eol) "\<not> b" "tok = NUL" "c' = fill_args argv ret" "s' = s2"
    | (word) ret' s3 where "\<not> b" "tok = CHR ''a''" "length argv + 1 < MAXARGS" "parseredirs buf ret s2 = Parsed (ret', s3)"
        "args_loop buf (argv @ [(q, eq)]) ret' s3 = Parsed (c', s')"
  using assms by (subst (asm) args_loop.simps) (auto split: if_splits presult.splits prod.splits)

lemma within_args: "args_loop buf argv ret s = Parsed (c', s') \<Longrightarrow> within buf s s'"
proof (induction buf argv ret s rule: args_loop.induct)
  case (1 buf argv ret s)
  obtain b s1 where p: "peek buf s ''|)&;'' = (b, s1)" by fastforce
  obtain tok q eq s2 where g: "gettoken buf s1 = (tok, q, eq, s2)" by (metis prod_cases4)
  note w = within_peek [OF p] within_gettoken [OF g]
  from "1.prems" p g show ?case
  proof (cases rule: args_loop_cases)
    case (word ret' s3)
    have "within buf s3 s'"
      using "1.IH" [OF p [symmetric] word(1) g [symmetric] refl refl _ _ _ word(4) refl word(5)] word(2,3) by simp
    then show ?thesis using w within_redirs [OF word(4)] by (blast intro: within_trans)
  qed (use w in \<open>auto intro: within_trans\<close>)
qed

lemma args_loop_fuel: "args_loop buf argv ret s \<noteq> NoFuel"
proof (induction buf argv ret s rule: args_loop.induct)
  case (1 buf argv ret s)
  then show ?case using parseredirs_fuel by (subst args_loop.simps) (auto split: prod.splits presult.splits)
qed

lemma within_back: "back_loop buf c s = (c', s') \<Longrightarrow> within buf s s'"
proof (induction buf c s rule: back_loop.induct)
  case (1 buf c s)
  obtain b s1 where p: "peek buf s ''&'' = (b, s1)" by fastforce
  obtain tok q eq s2 where g: "gettoken buf s1 = (tok, q, eq, s2)" by (metis prod_cases4)
  note w = within_peek [OF p] within_gettoken [OF g]
  show ?case
  proof (cases b)
    case True
    then have "back_loop buf (Backcmd c) s2 = (c', s')" using "1.prems" p g by (subst (asm) back_loop.simps) simp
    then have "within buf s2 s'" using "1.IH" p g True by simp
    then show ?thesis using w by (blast intro: within_trans)
  next
    case False
    then show ?thesis using "1.prems" p w by (subst (asm) back_loop.simps) simp
  qed
qed

section \<open>The result\<close>

text \<open>
  A command as the rest of the shell expects it: fewer than \<open>MAXARGS\<close> words, so that the final null pointer fits,
  every word and file name a word of the line, and the modes and descriptors of the three redirections.
\<close>

fun cmd_ok :: "string \<Rightarrow> cmd \<Rightarrow> bool" where
  "cmd_ok buf (Execcmd argv) \<longleftrightarrow> length argv < MAXARGS \<and> list_all (is_word buf) argv"
| "cmd_ok buf (Redircmd c q eq mode fd) \<longleftrightarrow> cmd_ok buf c \<and> is_word buf (q, eq) \<and>
     (mode, fd) \<in> {(O_RDONLY, 0), (O_WRONLY OR O_CREATE OR O_TRUNC, 1), (O_WRONLY OR O_CREATE, 1)}"
| "cmd_ok buf (Pipecmd l r) \<longleftrightarrow> cmd_ok buf l \<and> cmd_ok buf r"
| "cmd_ok buf (Listcmd l r) \<longleftrightarrow> cmd_ok buf l \<and> cmd_ok buf r"
| "cmd_ok buf (Backcmd c) \<longleftrightarrow> cmd_ok buf c"

lemma fill_args_ok: "cmd_ok buf c \<Longrightarrow> length argv < MAXARGS \<Longrightarrow> list_all (is_word buf) argv \<Longrightarrow> cmd_ok buf (fill_args argv c)"
  by (induction argv c rule: fill_args.induct) auto

lemma parseredirs_ok:
  "parseredirs buf c s = Parsed (c', s') \<Longrightarrow> NUL \<notin> set buf \<Longrightarrow> cmd_ok buf c \<Longrightarrow> cmd_ok buf c'"
proof (induction buf c s rule: parseredirs.induct)
  case (1 buf c s)
  obtain b s1 where p: "peek buf s ''<>'' = (b, s1)" by fastforce
  obtain tok q1 e1 s2 where g1: "gettoken buf s1 = (tok, q1, e1, s2)" by (metis prod_cases4)
  obtain tok2 q eq s3 where g2: "gettoken buf s2 = (tok2, q, eq, s3)" by (metis prod_cases4)
  show ?case
  proof (cases b)
    case True
    then have a: "tok2 = CHR ''a''" "parseredirs buf (redir tok c q eq) s3 = Parsed (c', s')"
      using "1.prems"(1) p g1 g2 by (subst (asm) parseredirs.simps, simp split: if_splits)+
    then have "cmd_ok buf (redir tok c q eq)" using gettoken_bounds(5) [OF g2] "1.prems"(2,3) by (simp add: redir_def)
    then show ?thesis using "1.IH" p g1 g2 True a "1.prems"(2) by simp
  next
    case False
    then show ?thesis using "1.prems" p by (subst (asm) parseredirs.simps) simp
  qed
qed

lemma args_loop_ok:
  "args_loop buf argv ret s = Parsed (c', s') \<Longrightarrow> NUL \<notin> set buf \<Longrightarrow> cmd_ok buf ret \<Longrightarrow> length argv < MAXARGS \<Longrightarrow>
    list_all (is_word buf) argv \<Longrightarrow> cmd_ok buf c'"
proof (induction buf argv ret s rule: args_loop.induct)
  case (1 buf argv ret s)
  obtain b s1 where p: "peek buf s ''|)&;'' = (b, s1)" by fastforce
  obtain tok q eq s2 where g: "gettoken buf s1 = (tok, q, eq, s2)" by (metis prod_cases4)
  from "1.prems"(1) p g show ?case
  proof (cases rule: args_loop_cases)
    case (word ret' s3)
    have "list_all (is_word buf) (argv @ [(q, eq)])" using gettoken_bounds(5) [OF g word(2)] "1.prems"(2,5) by simp
    then show ?thesis
      using "1.IH" [OF p [symmetric] word(1) g [symmetric] refl refl _ _ _ word(4) refl word(5)] word(2,3)
        parseredirs_ok [OF word(4) "1.prems"(2,3)] "1.prems"(2) by simp
  qed (use "1.prems" fill_args_ok in auto)
qed

lemma back_loop_ok: "back_loop buf c s = (c', s') \<Longrightarrow> cmd_ok buf c \<Longrightarrow> cmd_ok buf c'"
proof (induction buf c s rule: back_loop.induct)
  case (1 buf c s)
  obtain b s1 where p: "peek buf s ''&'' = (b, s1)" by fastforce
  obtain tok q eq s2 where g: "gettoken buf s1 = (tok, q, eq, s2)" by (metis prod_cases4)
  show ?case using 1 p g by (cases b) (subst (asm) (2) back_loop.simps, simp)+
qed

lemma parse_ok:
  fixes buf :: string
  assumes nn: "NUL \<notin> set buf"
  shows "parseline n buf s = Parsed (c, s') \<Longrightarrow> within buf s s' \<and> cmd_ok buf c"
    "parsepipe n buf s = Parsed (c, s') \<Longrightarrow> within buf s s' \<and> cmd_ok buf c"
    "parseexec n buf s = Parsed (c, s') \<Longrightarrow> within buf s s' \<and> cmd_ok buf c"
    "parseblock n buf s = Parsed (c, s') \<Longrightarrow> within buf s s' \<and> cmd_ok buf c"
proof (induction n arbitrary: s c s')
  case (Suc n)
  note IH = Suc.IH
  { case 1
    then obtain c1 s1 where a: "parsepipe n buf s = Parsed (c1, s1)" by (auto simp: pbind_Parsed)
    obtain c2 s2 where bl: "back_loop buf c1 s1 = (c2, s2)" by fastforce
    obtain b s3 where p: "peek buf s2 '';'' = (b, s3)" by fastforce
    obtain tok q eq s4 where g: "gettoken buf s3 = (tok, q, eq, s4)" by (metis prod_cases4)
    have w: "within buf s s3" "cmd_ok buf c2"
      using IH(2) [OF a] within_back [OF bl] within_peek [OF p] back_loop_ok [OF bl] by (blast intro: within_trans)+
    show ?case
    proof (cases b)
      case True
      then obtain c3 where c3: "parseline n buf s4 = Parsed (c3, s')" "c = Listcmd c2 c3" using 1 a bl p g by (auto simp: pbind_Parsed)
      then show ?thesis using IH(1) [OF c3(1)] w within_gettoken [OF g] by (auto intro: within_trans)
    qed (use 1 a bl p w in auto)
  next
    case 2
    then obtain c1 s1 where a: "parseexec n buf s = Parsed (c1, s1)" by (auto simp: pbind_Parsed)
    obtain b s3 where p: "peek buf s1 ''|'' = (b, s3)" by fastforce
    obtain tok q eq s4 where g: "gettoken buf s3 = (tok, q, eq, s4)" by (metis prod_cases4)
    have w: "within buf s s3" "cmd_ok buf c1"
      using IH(3) [OF a] within_peek [OF p] by (blast intro: within_trans)+
    show ?case
    proof (cases b)
      case True
      then obtain c3 where c3: "parsepipe n buf s4 = Parsed (c3, s')" "c = Pipecmd c1 c3" using 2 a p g by (auto simp: pbind_Parsed)
      then show ?thesis using IH(2) [OF c3(1)] w within_gettoken [OF g] by (auto intro: within_trans)
    qed (use 2 a p w in auto)
  next
    case 3
    obtain b s1 where p: "peek buf s ''('' = (b, s1)" by fastforce
    show ?case
    proof (cases b)
      case True
      then show ?thesis using 3 IH(4) p within_peek [OF p] by (auto intro: within_trans)
    next
      case False
      then obtain ret s2 where r: "parseredirs buf (Execcmd []) s1 = Parsed (ret, s2)" "args_loop buf [] ret s2 = Parsed (c, s')"
        using 3 p by (auto simp: pbind_Parsed)
      have "cmd_ok buf ret" using parseredirs_ok [OF r(1) nn] by (simp add: MAXARGS_def)
      then show ?thesis using within_peek [OF p] within_redirs [OF r(1)] within_args [OF r(2)] args_loop_ok [OF r(2) nn]
        by (auto intro: within_trans simp: MAXARGS_def)
    qed
  next
    case 4
    obtain b s1 where p: "peek buf s ''('' = (b, s1)" by fastforce
    obtain tok q eq s2 where g: "gettoken buf s1 = (tok, q, eq, s2)" by (metis prod_cases4)
    obtain c1 s3 where l: "parseline n buf s2 = Parsed (c1, s3)" using 4 p g by (auto simp: pbind_Parsed split: if_splits)
    obtain b2 s4 where p2: "peek buf s3 '')'' = (b2, s4)" by fastforce
    obtain tok2 q2 eq2 s5 where g2: "gettoken buf s4 = (tok2, q2, eq2, s5)" by (metis prod_cases4)
    have r: "parseredirs buf c1 s5 = Parsed (c, s')" using 4 p g l p2 g2 by (auto split: if_splits)
    then show ?case
      using IH(1) [OF l] within_peek [OF p] within_gettoken [OF g] within_peek [OF p2] within_gettoken [OF g2]
        within_redirs [OF r] parseredirs_ok [OF r nn] by (blast intro: within_trans) }
qed simp_all

lemma peek_token: "peek buf s toks = (True, s1) \<Longrightarrow> gettoken buf s1 = (tok, q, eq, s2) \<Longrightarrow> s < s2 \<and> s < length buf"
  using back_progress by fastforce

text \<open>A depth of four for each character left, and a few for the last calls, is enough.\<close>

lemma parse_fuel:
  fixes buf :: string
  assumes nn: "NUL \<notin> set buf"
  shows "s \<le> length buf \<Longrightarrow> 4 * (length buf - s) + 4 \<le> n \<Longrightarrow> parseline n buf s \<noteq> NoFuel"
    "s \<le> length buf \<Longrightarrow> 4 * (length buf - s) + 3 \<le> n \<Longrightarrow> parsepipe n buf s \<noteq> NoFuel"
    "s \<le> length buf \<Longrightarrow> 4 * (length buf - s) + 2 \<le> n \<Longrightarrow> parseexec n buf s \<noteq> NoFuel"
    "s \<le> length buf \<Longrightarrow> 4 * (length buf - s) + 1 \<le> n \<Longrightarrow> parseblock n buf s \<noteq> NoFuel"
proof (induction n arbitrary: s)
  case (Suc n)
  note IH = Suc.IH
  { case 1
    have pp: "parsepipe n buf s \<noteq> NoFuel" using IH(2) 1 by simp
    have "parseline n buf s4 \<noteq> NoFuel" if "parsepipe n buf s = Parsed (c1, s1)" "back_loop buf c1 s1 = (c2, s2)" "peek buf s2 '';'' = (True, s3)"
      "gettoken buf s3 = (tok, q, eq, s4)" for c1 s1 c2 s2 s3 tok q eq s4
    proof -
      have "within buf s s2" using parse_ok(2) [OF nn that(1)] within_back [OF that(2)] by (blast intro: within_trans)
      then have "s < s4" "s4 \<le> length buf"
        using peek_token [OF that(3,4)] within_peek [OF that(3)] within_gettoken [OF that(4)] 1 by (auto simp: within_def)
      then show ?thesis using IH(1) [of s4] 1 by simp
    qed
    then show ?case using pp by (auto simp: pbind_NoFuel split: prod.splits)
  next
    case 2
    have pe: "parseexec n buf s \<noteq> NoFuel" using IH(3) 2 by simp
    have "parsepipe n buf s4 \<noteq> NoFuel" if "parseexec n buf s = Parsed (c1, s1)" "peek buf s1 ''|'' = (True, s3)"
      "gettoken buf s3 = (tok, q, eq, s4)" for c1 s1 s3 tok q eq s4
    proof -
      have "within buf s s1" using parse_ok(3) [OF nn that(1)] by blast
      then have "s < s4" "s4 \<le> length buf"
        using peek_token [OF that(2,3)] within_peek [OF that(2)] within_gettoken [OF that(3)] 2 by (auto simp: within_def)
      then show ?thesis using IH(2) [of s4] 2 by simp
    qed
    then show ?case using pe by (auto simp: pbind_NoFuel split: prod.splits)
  next
    case 3
    have "parseblock n buf s1 \<noteq> NoFuel" if "peek buf s ''('' = (True, s1)" for s1
      using IH(4) [of s1] peek_bounds(1,2) [OF that] 3 by simp
    then show ?case using parseredirs_fuel args_loop_fuel by (auto simp: pbind_NoFuel split: prod.splits)
  next
    case 4
    have "parseline n buf s2 \<noteq> NoFuel" if "peek buf s ''('' = (True, s1)" "gettoken buf s1 = (tok, q, eq, s2)" for s1 tok q eq s2
    proof -
      have "s < s2" "s2 \<le> length buf"
        using peek_token [OF that] within_peek [OF that(1)] within_gettoken [OF that(2)] 4 by (auto simp: within_def)
      then show ?thesis using IH(1) [of s2] 4 by simp
    qed
    then show ?case using parseredirs_fuel by (auto simp: pbind_NoFuel split: prod.splits) }
qed simp_all

text \<open>More depth than enough changes nothing.\<close>

lemma pbind_cong: "r = r' \<Longrightarrow> (\<And>y. r' = Parsed y \<Longrightarrow> f y = g y) \<Longrightarrow> pbind r f = pbind r' g"
  by (cases r') auto

lemma parse_more:
  "parseline n buf s \<noteq> NoFuel \<Longrightarrow> parseline (Suc n) buf s = parseline n buf s"
  "parsepipe n buf s \<noteq> NoFuel \<Longrightarrow> parsepipe (Suc n) buf s = parsepipe n buf s"
  "parseexec n buf s \<noteq> NoFuel \<Longrightarrow> parseexec (Suc n) buf s = parseexec n buf s"
  "parseblock n buf s \<noteq> NoFuel \<Longrightarrow> parseblock (Suc n) buf s = parseblock n buf s"
proof (induction n arbitrary: s)
  case (Suc n)
  note IH = Suc.IH
  { case 1
    note H = parseline.simps(2) [of n buf s, THEN arg_cong [where f = "\<lambda>r. r \<noteq> NoFuel"], THEN iffD1, OF this]
    show ?case
      apply (rule trans [OF parseline.simps(2) trans [OF _ parseline.simps(2) [symmetric]]])
      using H
      by (intro pbind_cong IH(2)) (auto simp: pbind_NoFuel simp del: parseline.simps parsepipe.simps parseexec.simps parseblock.simps intro!: pbind_cong IH(1) split: prod.splits)
  next
    case 2
    note H = parsepipe.simps(2) [of n buf s, THEN arg_cong [where f = "\<lambda>r. r \<noteq> NoFuel"], THEN iffD1, OF this]
    show ?case
      apply (rule trans [OF parsepipe.simps(2) trans [OF _ parsepipe.simps(2) [symmetric]]])
      using H
      by (intro pbind_cong IH(3)) (auto simp: pbind_NoFuel simp del: parseline.simps parsepipe.simps parseexec.simps parseblock.simps intro!: pbind_cong IH(2) split: prod.splits)
  next
    case 3
    note H = parseexec.simps(2) [of n buf s, THEN arg_cong [where f = "\<lambda>r. r \<noteq> NoFuel"], THEN iffD1, OF this]
    show ?case
      apply (rule trans [OF parseexec.simps(2) trans [OF _ parseexec.simps(2) [symmetric]]])
      using H
      using IH(4) by (auto simp del: parseblock.simps split: prod.splits)
  next
    case 4
    note H = parseblock.simps(2) [of n buf s, THEN arg_cong [where f = "\<lambda>r. r \<noteq> NoFuel"], THEN iffD1, OF this]
    show ?case
      apply (rule trans [OF parseblock.simps(2) trans [OF _ parseblock.simps(2) [symmetric]]])
      using H
      by (auto simp: pbind_NoFuel simp del: parseline.simps parsepipe.simps parseexec.simps parseblock.simps intro!: pbind_cong IH(1) split: prod.splits) }
qed simp_all

text \<open>
  C12. The shell's parser ends on every command line: \<open>parsecmd\<close> returns a command or stops with one of its error
  messages, and the depth its recursion is given does not matter beyond four times the length of the line and four.
\<close>

theorem parsecmd_terminates:
  assumes "NUL \<notin> set buf"
  shows "parsecmd buf \<noteq> NoFuel \<and> (\<forall>n\<ge>4 * length buf + 4. parseline n buf 0 = parseline (4 * length buf + 4) buf 0)"
proof -
  have nf: "parseline n buf 0 \<noteq> NoFuel" if "4 * length buf + 4 \<le> n" for n using parse_fuel(1) [OF assms, of 0 n] that by simp
  have "parseline n buf 0 = parseline (4 * length buf + 4) buf 0" if "4 * length buf + 4 \<le> n" for n
    using that by (induction rule: dec_induct) (simp_all add: parse_more(1) nf del: parseline.simps)
  moreover have "parsecmd buf \<noteq> NoFuel"
    using nf [of "4 * length buf + 4"] by (auto simp: parsecmd_def pbind_NoFuel simp del: parseline.simps split: prod.splits)
  ultimately show ?thesis by blast
qed

theorem parsecmd_terminates_witness: "parsecmd ''ls | (wc;x) &'' \<noteq> NoFuel"
  using parsecmd_terminates [of "''ls | (wc;x) &''"] by simp

fun words :: "cmd \<Rightarrow> token list" where
  "words (Execcmd argv) = argv"
| "words (Redircmd c q eq mode fd) = words c @ [(q, eq)]"
| "words (Pipecmd l r) = words l @ words r"
| "words (Listcmd l r) = words l @ words r"
| "words (Backcmd c) = words c"

definition c_string :: "string \<Rightarrow> nat \<Rightarrow> string" where
  "c_string buf q = takeWhile (\<lambda>c. c \<noteq> NUL) (drop q buf)"

lemma at_update: "at (buf[e := NUL]) i = (if i = e then NUL else at buf i)"
  by (auto simp: at_def nth_list_update)

lemma at_fold: "at (fold (\<lambda>(q, eq) buf. buf[eq := NUL]) ws buf) i = (if i \<in> snd ` set ws then NUL else at buf i)"
  by (induction ws arbitrary: buf) (auto simp: at_update)

lemma nulterminate_at: "at (nulterminate c buf) i = (if i \<in> snd ` set (words c) then NUL else at buf i)"
  by (induction c arbitrary: buf) (auto simp: at_fold at_update)

lemma nulterminate_length: "length (nulterminate c buf) = length buf"
proof (induction c arbitrary: buf)
  case (Execcmd argv)
  show ?case by (induction argv arbitrary: buf) auto
qed simp_all

lemma cmd_ok_words: "cmd_ok buf c \<Longrightarrow> w \<in> set (words c) \<Longrightarrow> is_word buf w"
  by (induction c) (auto simp: list_all_iff)

lemma c_string_eqI:
  assumes "\<And>i. q \<le> i \<Longrightarrow> i < e \<Longrightarrow> at b i = at a i \<and> at a i \<noteq> NUL" "at b e = NUL" "q \<le> e" "e \<le> length a" "length b = length a"
  shows "c_string b q = take (e - q) (drop q a)"
proof -
  have d: "drop q b = take (e - q) (drop q a) @ drop e b"
  proof (rule nth_equalityI)
    fix i assume "i < length (drop q b)"
    then show "drop q b ! i = (take (e - q) (drop q a) @ drop e b) ! i"
      using assms(1) [of "q + i"] assms(3-5) by (auto simp: nth_append at_def add.commute)
  qed (use assms in simp)
  have t: "\<forall>x\<in>set (take (e - q) (drop q a)). x \<noteq> NUL"
  proof
    fix x assume "x \<in> set (take (e - q) (drop q a))"
    then obtain i where "i < e - q" "x = a ! (q + i)" using assms(3,4) by (auto simp: in_set_conv_nth)
    then show "x \<noteq> NUL" using assms(1) [of "q + i"] assms(4) by (simp add: at_def)
  qed
  have "takeWhile (\<lambda>c. c \<noteq> NUL) (drop e b) = []"
    using assms(2) by (cases "drop e b") (auto simp: at_def hd_drop_conv_nth split: if_splits, metis hd_drop_conv_nth list.sel(1))
  then show ?thesis using t unfolding c_string_def d by (simp add: takeWhile_append)
qed



section \<open>Running a command\<close>

text \<open>
  What one process does with a command: its system calls in order, with the results they return as a parameter
  (\<open>rets i\<close> for call \<open>i\<close>; \<open>fork\<close> gives 0 in the child; \<open>pipe\<close> stores the descriptors \<open>p0\<close> and \<open>p1\<close>). A successful \<open>exec\<close> ends
  the run of this program, an \<open>exit\<close> the process.
\<close>

datatype call =
  Exec string "string list" | Exit int | Close int | Open string int | Fork | Wait | Pipe | Dup int | Message string

fun runcmd :: "string \<Rightarrow> int \<Rightarrow> int \<Rightarrow> (nat \<Rightarrow> int) \<Rightarrow> cmd option \<Rightarrow> call list" where
  "runcmd buf p0 p1 rets None = [Exit 1]"
| "runcmd buf p0 p1 rets (Some (Execcmd argv)) =
     (if argv = [] then [Exit 1]
      else let args = map (\<lambda>(q, eq). c_string buf q) argv
        in if rets 0 \<ge> 0 then [Exec (hd args) args]
           else [Exec (hd args) args, Message (''exec '' @ hd args @ '' failed'' @ [newline]), Exit 0])"
| "runcmd buf p0 p1 rets (Some (Redircmd c q eq mode fd)) =
     Close fd # Open (c_string buf q) mode #
     (if rets 1 < 0 then [Message (''open '' @ c_string buf q @ '' failed'' @ [newline]), Exit 1]
      else runcmd buf p0 p1 (\<lambda>i. rets (i + 2)) (Some c))"
| "runcmd buf p0 p1 rets (Some (Listcmd l r)) =
     Fork #
     (if rets 0 = -1 then [Message (''fork'' @ [newline]), Exit 1]
      else if rets 0 = 0 then runcmd buf p0 p1 (\<lambda>i. rets (i + 1)) (Some l)
      else Wait # runcmd buf p0 p1 (\<lambda>i. rets (i + 2)) (Some r))"
| "runcmd buf p0 p1 rets (Some (Pipecmd l r)) =
     Pipe #
     (if rets 0 < 0 then [Message (''pipe'' @ [newline]), Exit 1]
      else Fork #
        (if rets 1 = -1 then [Message (''fork'' @ [newline]), Exit 1]
         else if rets 1 = 0
           then [Close 1, Dup p1, Close p0, Close p1] @ runcmd buf p0 p1 (\<lambda>i. rets (i + 6)) (Some l)
         else Fork #
           (if rets 2 = -1 then [Message (''fork'' @ [newline]), Exit 1]
            else if rets 2 = 0
              then [Close 0, Dup p0, Close p0, Close p1] @ runcmd buf p0 p1 (\<lambda>i. rets (i + 7)) (Some r)
            else [Close p0, Close p1, Wait, Wait, Exit 0])))"
| "runcmd buf p0 p1 rets (Some (Backcmd c)) =
     Fork #
     (if rets 0 = -1 then [Message (''fork'' @ [newline]), Exit 1]
      else if rets 0 = 0 then runcmd buf p0 p1 (\<lambda>i. rets (i + 1)) (Some c)
      else [Exit 0])"

text \<open>A process running a command never goes on to read the next one: its last call is \<open>exec\<close> or \<open>exit\<close>.\<close>

lemma runcmd_ends:
  "\<exists>cs e. runcmd buf p0 p1 rets c = cs @ [e] \<and> ((\<exists>n. e = Exit n) \<or> (\<exists>f args. e = Exec f args))"
proof (induction buf p0 p1 rets c rule: runcmd.induct)
qed (auto simp: Let_def)

section \<open>The command loop\<close>

text \<open>\<open>getcmd\<close>: the next line, or nothing at end of file. The prompt is left out.\<close>

definition getcmd :: "('s \<Rightarrow> char option \<times> 's) \<Rightarrow> 's \<Rightarrow> string option \<times> 's" where
  "getcmd read st = (case gets read 100 st of (buf, st) \<Rightarrow> (if at buf 0 = NUL then None else Some buf, st))"

text \<open>
  What \<open>main\<close> does with a line: \<open>cd\<close> is carried out by the shell itself, on the line without its last character;
  anything else is parsed and run by a child.
\<close>

datatype command = Chdir string | Child "(cmd \<times> string) presult"

definition main_line :: "string \<Rightarrow> command" where
  "main_line buf =
     (let s = takeWhile (\<lambda>c. c \<noteq> NUL) buf in
      if at buf 0 = CHR ''c'' \<and> at buf 1 = CHR ''d'' \<and> at buf 2 = CHR '' '' then Chdir (drop 3 (butlast s))
      else Child (parsecmd s))"

partial_function (option) main_loop :: "('s \<Rightarrow> char option \<times> 's) \<Rightarrow> 's \<Rightarrow> command list \<Rightarrow> (command list \<times> 's) option" where
  "main_loop read st cs =
     (case getcmd read st of
        (None, st) \<Rightarrow> Some (cs, st)
      | (Some buf, st) \<Rightarrow> main_loop read st (cs @ [main_line buf]))"

text \<open>A line that \<open>getcmd\<close> returns is short enough for \<open>buf\<close>, so parsing it ends.\<close>

lemma getcmd_bound: "getcmd read st = (Some buf, st') \<Longrightarrow> length buf < 100"
  using gets_bound [of 100 read st] by (auto simp: getcmd_def split: prod.splits if_splits)

end
