(* ===== verification/Umalloc.thy ===== *)
theory Umalloc
  imports Prelude
begin

text \<open>
  user/umalloc.c: the allocator of user programs. A header is addressed by a natural number; \<open>ptr\<close> and \<open>bsize\<close> are its
  two fields, sizes counting headers of 16 bytes; they are natural numbers, since a \<open>uint\<close> counts up to 64 GB. \<open>base\<close>
  is the address of the static header, below the heap. \<open>sbrk\<close>, the system call, is a parameter: the start of the new
  memory or nothing, and the state after it. The loops are partial functions; the theorems show that they end, and that
  the allocator keeps its circular, sorted, coalesced list of free blocks apart from the blocks it has handed out.
\<close>

section \<open>The code\<close>

record heap =
  ptr :: "nat \<Rightarrow> nat"
  bsize :: "nat \<Rightarrow> nat"
  freep :: nat

definition HDR :: nat where "HDR = 16"

partial_function (option) free_loop :: "heap \<Rightarrow> nat \<Rightarrow> nat \<Rightarrow> nat option" where
  "free_loop h bp p =
     (if bp > p \<and> bp < ptr h p then Some p
      else if p \<ge> ptr h p \<and> (bp > p \<or> bp < ptr h p) then Some p
      else free_loop h bp (ptr h p))"

definition u_free :: "nat \<Rightarrow> heap \<Rightarrow> heap option" where
  "u_free ap h = (let bp = ap - HDR in do {
     p \<leftarrow> free_loop h bp (freep h);
     let h = (if bp + HDR * bsize h bp = ptr h p
       then h\<lparr>bsize := (bsize h)(bp := bsize h bp + bsize h (ptr h p)), ptr := (ptr h)(bp := ptr h (ptr h p))\<rparr>
       else h\<lparr>ptr := (ptr h)(bp := ptr h p)\<rparr>);
     let h = (if p + HDR * bsize h p = bp
       then h\<lparr>bsize := (bsize h)(p := bsize h p + bsize h bp), ptr := (ptr h)(p := ptr h bp)\<rparr>
       else h\<lparr>ptr := (ptr h)(p := bp)\<rparr>);
     Some (h\<lparr>freep := p\<rparr>)
   })"

text \<open>The argument of \<open>sbrk\<close> is an \<open>int\<close>: the product is cut to 32 bits.\<close>

definition morecore :: "(int \<Rightarrow> 's \<Rightarrow> nat option \<times> 's) \<Rightarrow> nat \<Rightarrow> 's \<Rightarrow> heap \<Rightarrow> (nat \<times> 's \<times> heap) option" where
  "morecore sbrk nu st h =
     (let nu = (if nu < 4096 then 4096 else nu) in
      case sbrk (sint (of_nat (nu * HDR) :: uint)) st of
        (None, st) \<Rightarrow> Some (0, st, h)
      | (Some p, st) \<Rightarrow> do {
          h \<leftarrow> u_free (p + HDR) (h\<lparr>bsize := (bsize h)(p := nu)\<rparr>);
          Some (freep h, st, h)
        })"

text \<open>Taking \<open>nunits\<close> from the block at \<open>p\<close>: all of it, or its tail end.\<close>

definition take_block :: "nat \<Rightarrow> nat \<Rightarrow> nat \<Rightarrow> heap \<Rightarrow> nat \<times> heap" where
  "take_block nunits prevp p h =
     (let (p, h) =
        (if bsize h p = nunits then (p, h\<lparr>ptr := (ptr h)(prevp := ptr h p)\<rparr>)
         else let h = h\<lparr>bsize := (bsize h)(p := bsize h p - nunits)\<rparr>;
                  p = p + HDR * bsize h p
              in (p, h\<lparr>bsize := (bsize h)(p := nunits)\<rparr>))
      in (p + HDR, h\<lparr>freep := prevp\<rparr>))"

partial_function (option) malloc_loop ::
  "(int \<Rightarrow> 's \<Rightarrow> nat option \<times> 's) \<Rightarrow> nat \<Rightarrow> nat \<Rightarrow> nat \<Rightarrow> 's \<Rightarrow> heap \<Rightarrow> (nat \<times> 's \<times> heap) option" where
  "malloc_loop sbrk nunits prevp p st h =
     (if bsize h p \<ge> nunits then case take_block nunits prevp p h of (r, h) \<Rightarrow> Some (r, st, h)
      else if p = freep h then do {
        (p, st, h) \<leftarrow> morecore sbrk nunits st h;
        if p = 0 then Some (0, st, h) else malloc_loop sbrk nunits p (ptr h p) st h
      } else malloc_loop sbrk nunits p (ptr h p) st h)"

definition nunits_of :: "nat \<Rightarrow> nat" where
  "nunits_of nbytes = (nbytes + HDR - 1) div HDR + 1"

definition heap_init :: "nat \<Rightarrow> heap \<Rightarrow> heap" where
  "heap_init base h =
     (if freep h = 0 then h\<lparr>ptr := (ptr h)(base := base), freep := base, bsize := (bsize h)(base := 0)\<rparr> else h)"

definition u_malloc :: "nat \<Rightarrow> (int \<Rightarrow> 's \<Rightarrow> nat option \<times> 's) \<Rightarrow> nat \<Rightarrow> 's \<Rightarrow> heap \<Rightarrow> (nat \<times> 's \<times> heap) option" where
  "u_malloc base sbrk nbytes st h =
     (let h = heap_init base h in malloc_loop sbrk (nunits_of nbytes) (freep h) (ptr h (freep h)) st h)"

section \<open>The ring of free blocks\<close>

type_synonym block = "nat \<times> nat"

fun chain :: "heap \<Rightarrow> nat \<Rightarrow> block list \<Rightarrow> nat \<Rightarrow> bool" where
  "chain h x [] e \<longleftrightarrow> x = e"
| "chain h x ((a, n) # bs) e \<longleftrightarrow> x = a \<and> bsize h a = n \<and> chain h (ptr h a) bs e"

definition before :: "block \<Rightarrow> block \<Rightarrow> bool" where
  "before x y \<longleftrightarrow> fst x + HDR * snd x < fst y"

definition ring :: "nat \<Rightarrow> heap \<Rightarrow> block list \<Rightarrow> bool" where
  "ring base h bs \<longleftrightarrow> bs \<noteq> [] \<and> hd bs = (base, 0) \<and> (\<forall>b\<in>set (tl bs). 0 < snd b) \<and> chain h base bs base \<and>
     sorted_wrt before bs \<and> freep h \<in> fst ` set bs \<and> 0 < base"

lemma ringD:
  assumes "ring base h bs"
  shows "bs \<noteq> []" "hd bs = (base, 0)" "\<And>b. b \<in> set (tl bs) \<Longrightarrow> 0 < snd b" "chain h base bs base" "sorted_wrt before bs" "freep h \<in> fst ` set bs" "0 < base"
  using assms unfolding ring_def by blast+

lemma chain_append: "chain h x (bs @ cs) e \<longleftrightarrow> (\<exists>y. chain h x bs y \<and> chain h y cs e)"
  by (induction bs arbitrary: x) auto

lemma chain_cong:
  "(\<And>a. a \<in> fst ` set bs \<Longrightarrow> ptr h' a = ptr h a \<and> bsize h' a = bsize h a) \<Longrightarrow> chain h' x bs e = chain h x bs e"
proof (induction bs arbitrary: x)
  case (Cons b bs)
  obtain a n where "b = (a, n)" by fastforce
  then show ?case using Cons by simp
qed simp

lemma chain_mid: "chain h x (us @ (c, n) # vs) e \<longleftrightarrow> chain h x us c \<and> bsize h c = n \<and> chain h (ptr h c) vs e"
  by (auto simp: chain_append)

lemma chain_start: "chain h x bs e \<Longrightarrow> x = (case bs of [] \<Rightarrow> e | b # _ \<Rightarrow> fst b)"
  by (cases bs) auto

lemma chain_size: "chain h x bs e \<Longrightarrow> (a, n) \<in> set bs \<Longrightarrow> bsize h a = n"
  by (induction bs arbitrary: x) auto

lemma sorted_before:
  assumes "sorted_wrt before (us @ (c, n) # vs)"
  shows "(a, m) \<in> set us \<Longrightarrow> a + HDR * m < c" "(a, m) \<in> set vs \<Longrightarrow> c + HDR * n < a"
    "(a, m) \<in> set us \<Longrightarrow> a < c" "(a, m) \<in> set vs \<Longrightarrow> c < a"
proof -
  show 1: "(a, m) \<in> set us \<Longrightarrow> a + HDR * m < c" using assms by (fastforce simp: sorted_wrt_append before_def)
  show 2: "(a, m) \<in> set vs \<Longrightarrow> c + HDR * n < a" using assms by (fastforce simp: sorted_wrt_append before_def)
  show "(a, m) \<in> set us \<Longrightarrow> a < c" "(a, m) \<in> set vs \<Longrightarrow> c < a" using 1 2 by fastforce+
qed

lemma ring_split:
  assumes "ring base h bs" "bs = us @ (c, n) # vs"
  shows "chain h base us c" "bsize h c = n" "chain h (ptr h c) vs base" "ptr h c = (case vs of [] \<Rightarrow> base | b # _ \<Rightarrow> fst b)"
  using assms chain_start by (auto simp: ring_def chain_mid)

lemma ring_base_le: "ring base h bs \<Longrightarrow> (a, n) \<in> set bs \<Longrightarrow> base \<le> a"
  by (cases bs) (auto simp: ring_def before_def)

text \<open>The blocks from \<open>freep\<close> on up to another one, in the order in which the loops visit them.\<close>

lemma ring_walk:
  assumes r: "ring base h bs" and d: "bs = xs @ (a, n) # ys" and f: "(f, m) \<in> set bs"
  shows "\<exists>us. chain h f us a \<and> set us \<subseteq> set xs \<union> set ys"
proof -
  consider "(f, m) \<in> set xs" | "f = a" | "(f, m) \<in> set ys" using f d by auto
  then show ?thesis
  proof cases
    case 1
    then obtain x1 x2 where x: "xs = x1 @ (f, m) # x2" by (meson split_list)
    have "chain h f ((f, m) # x2) a" using ring_split(1) [OF r d] x by (auto simp: chain_append)
    then show ?thesis using x by (intro exI [of _ "(f, m) # x2"]) auto
  next
    case 2
    then show ?thesis by (intro exI [of _ "[]"]) simp
  next
    case 3
    then obtain y1 y2 where y: "ys = y1 @ (f, m) # y2" by (meson split_list)
    have "chain h f ((f, m) # y2) base" using ring_split(3) [OF r d] y by (auto simp: chain_append)
    then have "chain h f (((f, m) # y2) @ xs) a" using ring_split(1) [OF r d] unfolding chain_append by blast
    then show ?thesis using y by (intro exI [of _ "((f, m) # y2) @ xs"]) auto
  qed
qed

section \<open>Freeing\<close>

lemma free_walk:
  "chain h x us y \<Longrightarrow> (\<And>a n. (a, n) \<in> set us \<Longrightarrow> \<not> (a < bp \<and> bp < ptr h a) \<and> \<not> (ptr h a \<le> a \<and> (a < bp \<or> bp < ptr h a))) \<Longrightarrow>
    free_loop h bp x = free_loop h bp y"
proof (induction us arbitrary: x)
  case (Cons u us)
  obtain a n where u: "u = (a, n)" by fastforce
  have "free_loop h bp a = free_loop h bp (ptr h a)"
    using Cons.prems(2) [of a n] u by (subst free_loop.simps) auto
  moreover have "free_loop h bp (ptr h a) = free_loop h bp y"
    by (rule Cons.IH) (use Cons.prems u in auto)
  ultimately show ?case using Cons.prems(1) u by simp
qed simp

lemma insert_point:
  assumes "ring base h bs" "base < bp"
  obtains xs a n ys where "bs = xs @ (a, n) # ys" "a < bp" "\<And>b m. (b, m) \<in> set ys \<Longrightarrow> bp \<le> b"
proof -
  let ?P = "\<lambda>b. fst b < bp"
  have s: "sorted_wrt before bs" using assms(1) by (simp add: ring_def)
  have ne: "takeWhile ?P bs \<noteq> []" using assms by (cases bs) (auto simp: ring_def)
  then obtain xs a n where x: "takeWhile ?P bs = xs @ [(a, n)]" by (metis rev_exhaust surj_pair)
  define ds where "ds = dropWhile ?P bs"
  have d: "bs = xs @ (a, n) # ds" using takeWhile_dropWhile_id [of ?P bs] x by (simp add: ds_def)
  have "a < bp" using x set_takeWhileD [of "(a, n)" ?P bs] by simp
  moreover have "bp \<le> b" if bm: "(b, m) \<in> set ds" for b m
  proof -
    obtain c cs where c: "ds = c # cs" using bm by (cases ds) auto
    then have "bp \<le> fst c" using hd_dropWhile [of ?P bs] by (auto simp: ds_def)
    moreover have "sorted_wrt before (c # cs)" using s unfolding d c by (simp add: sorted_wrt_append)
    ultimately show ?thesis using bm c by (auto simp: before_def)
  qed
  ultimately show thesis using that d by blast
qed

lemma free_loop_finds:
  assumes r: "ring base h bs" and d: "bs = xs @ (a, n) # ys" and bp: "base < bp" "a < bp" "\<And>b m. (b, m) \<in> set ys \<Longrightarrow> bp < b"
  shows "free_loop h bp (freep h) = Some a"
proof -
  have s: "sorted_wrt before (xs @ (a, n) # ys)" using r d by (simp add: ring_def)
  obtain m where f: "(freep h, m) \<in> set bs" using r by (auto simp: ring_def)
  obtain us where us: "chain h (freep h) us a" "set us \<subseteq> set xs \<union> set ys" using ring_walk [OF r d f] by blast
  have "\<not> (c < bp \<and> bp < ptr h c) \<and> \<not> (ptr h c \<le> c \<and> (c < bp \<or> bp < ptr h c))" if c: "(c, k) \<in> set us" for c k
  proof -
    consider "(c, k) \<in> set xs" | "(c, k) \<in> set ys" using us(2) c by auto
    then show ?thesis
    proof cases
      case 1
      then obtain x1 x2 where x: "xs = x1 @ (c, k) # x2" by (meson split_list)
      have p: "ptr h c = (case x2 @ (a, n) # ys of [] \<Rightarrow> base | b # _ \<Rightarrow> fst b)" using ring_split(4) [OF r, of x1 c k "x2 @ (a, n) # ys"] d x by simp
      have "c < ptr h c" "ptr h c \<le> a"
        using p s x by (cases x2; auto simp: sorted_wrt_append before_def)+
      then show ?thesis using bp(2) by auto
    next
      case 2
      then obtain y1 y2 where y: "ys = y1 @ (c, k) # y2" by (meson split_list)
      have p: "ptr h c = (case y2 of [] \<Rightarrow> base | b # _ \<Rightarrow> fst b)" using ring_split(4) [OF r, of "xs @ (a, n) # y1" c k y2] d y by simp
      have "ptr h c = base \<or> c < ptr h c" using p s y by (cases y2) (auto simp: sorted_wrt_append before_def)
      then show ?thesis using bp(1) bp(3) [OF 2] by auto
    qed
  qed
  then have "free_loop h bp (freep h) = free_loop h bp a" using free_walk [OF us(1)] by blast
  also have "\<dots> = Some a"
  proof (cases ys)
    case Nil
    then have "ptr h a = base" "base \<le> a" using ring_split(4) [OF r d] ring_base_le [OF r] d by auto
    then show ?thesis using bp(2) by (subst free_loop.simps) auto
  next
    case (Cons b bs')
    then have "ptr h a = fst b" using ring_split(4) [OF r d] by simp
    then show ?thesis using bp(2) bp(3) [of "fst b" "snd b"] Cons by (subst free_loop.simps) auto
  qed
  finally show ?thesis .
qed

definition units :: "block list \<Rightarrow> nat set" where
  "units bs = (\<Union>b\<in>set bs. {fst b..<fst b + HDR * snd b})"

lemma units_simps [simp]: "units [] = {}" "units (b # bs) = {fst b..<fst b + HDR * snd b} \<union> units bs" "units (xs @ ys) = units xs \<union> units ys"
  by (auto simp: units_def)

definition apart :: "block \<Rightarrow> block \<Rightarrow> bool" where
  "apart x y \<longleftrightarrow> fst x + HDR * snd x \<le> fst y \<or> fst y + HDR * snd y \<le> fst x"

lemma ring_distinct: "ring base h (xs @ (a, n) # ys) \<Longrightarrow> a \<notin> fst ` set xs \<and> a \<notin> fst ` set ys"
  using sorted_before(3,4) [of xs a n ys] by (fastforce simp: ring_def)

lemma HDR_pos: "0 < HDR"
  by (simp add: HDR_def)

lemma span_join: "x + HDR * k = y \<Longrightarrow> {x..<x + HDR * (k + n)} = {x..<y} \<union> {y..<y + HDR * n}"
proof -
  assume y: "x + HDR * k = y"
  then have "x + HDR * (k + n) = y + HDR * n" by (simp add: distrib_left flip: add.assoc)
  moreover have "x \<le> y" using y by simp
  ultimately show ?thesis using ivl_disj_un_two(3) [of x y "y + HDR * n"] by simp
qed

text \<open>Joining with the block above, then with the block below.\<close>

lemma join_upper:
  assumes r: "ring base h (xs @ (a, k) # ys)" and bp: "base < bp" "0 < n" "bsize h bp = n"
    and up: "\<forall>x\<in>set ys. bp + HDR * n \<le> fst x" and notin: "bp \<notin> fst ` set ys"
  defines "h1 \<equiv> (if bp + HDR * bsize h bp = ptr h a
       then h\<lparr>bsize := (bsize h)(bp := bsize h bp + bsize h (ptr h a)), ptr := (ptr h)(bp := ptr h (ptr h a))\<rparr>
       else h\<lparr>ptr := (ptr h)(bp := ptr h a)\<rparr>)"
  shows "\<exists>n' rest. bsize h1 bp = n' \<and> chain h1 (ptr h1 bp) rest base \<and> n \<le> n' \<and> (\<forall>x\<in>set rest. bp + HDR * n' < fst x) \<and>
    sorted_wrt before rest \<and> set rest \<subseteq> set ys \<and> units ((bp, n') # rest) = units ((bp, n) # ys)"
proof -
  have s: "sorted_wrt before (xs @ (a, k) # ys)" using r by (simp add: ring_def)
  have p: "chain h (ptr h a) ys base" "ptr h a = (case ys of [] \<Rightarrow> base | b # _ \<Rightarrow> fst b)" using ring_split(3,4) [OF r refl] by simp_all
  have keep: "chain h1 x zs e = chain h x zs e" if "set zs \<subseteq> set ys" for x zs e
  proof (rule chain_cong)
    fix c assume "c \<in> fst ` set zs"
    then have "c \<noteq> bp" using notin that by auto
    then show "ptr h1 c = ptr h c \<and> bsize h1 c = bsize h c" by (simp add: h1_def)
  qed
  show ?thesis
  proof (cases "bp + HDR * n = ptr h a")
    case True
    then have "ys \<noteq> []" using p(2) bp(1) by (cases ys) simp_all
    then obtain b m ys' where y: "ys = (b, m) # ys'" by (metis neq_Nil_conv surj_pair)
    have b: "ptr h a = b" "bsize h b = m" using p y by auto
    have h1: "bsize h1 bp = n + m" "ptr h1 bp = ptr h b" using True b bp(3) by (simp_all add: h1_def)
    have "\<forall>x\<in>set ys'. bp + HDR * (n + m) < fst x" "sorted_wrt before ys'"
      using s y True b(1) by (auto simp: sorted_wrt_append before_def algebra_simps)
    moreover have "chain h1 (ptr h1 bp) ys' base" unfolding h1(2) using keep [of ys'] p(1) y by auto
    moreover have "units ((bp, n + m) # ys') = units ((bp, n) # ys)" using True b(1) y by (auto simp: algebra_simps)
    ultimately show ?thesis using h1(1) y by (intro exI [of _ "n + m"] exI [of _ ys']) auto
  next
    case False
    then have h1: "bsize h1 bp = n" "ptr h1 bp = ptr h a" using bp(3) by (simp_all add: h1_def)
    have "bp + HDR * n < fst x" if xy: "x \<in> set ys" for x
    proof -
      obtain c cs where y: "ys = c # cs" using xy by (cases ys) auto
      then have "fst c \<noteq> bp + HDR * n" using False p(2) by auto
      then have c: "bp + HDR * n < fst c" using up y by simp
      have "x \<noteq> c \<Longrightarrow> fst c < fst x" using s xy y by (auto simp: sorted_wrt_append before_def)
      then show ?thesis using c by (cases "x = c") auto
    qed
    moreover have "sorted_wrt before ys" using s by (simp add: sorted_wrt_append)
    ultimately show ?thesis using h1 keep [of ys] p(1) by (intro exI [of _ n] exI [of _ ys]) auto
  qed
qed

lemma free_ring:
  assumes r: "ring base h bs" and bp: "base < bp" "0 < n" "bsize h bp = n" and ap: "\<And>x. x \<in> set bs \<Longrightarrow> apart x (bp, n)"
  shows "\<exists>h' bs'. u_free (bp + HDR) h = Some h' \<and> ring base h' bs' \<and> units bs' = units bs \<union> {bp..<bp + HDR * n} \<and>
    (\<exists>x\<in>set bs'. n \<le> snd x) \<and> (\<forall>x. x \<notin> fst ` set bs \<longrightarrow> x \<noteq> bp \<longrightarrow> bsize h' x = bsize h x)"
proof -
  obtain xs a k ys where d: "bs = xs @ (a, k) # ys" and a: "a < bp" and ys: "\<And>b m. (b, m) \<in> set ys \<Longrightarrow> bp \<le> b"
    using insert_point [OF r bp(1)] by metis
  have r': "ring base h (xs @ (a, k) # ys)" using r d by simp
  have s: "sorted_wrt before (xs @ (a, k) # ys)" using r' by (simp add: ring_def)
  have hd: "hd (xs @ (a, k) # ys) = (base, 0)" using r' by (simp add: ring_def)
  have tl: "0 < snd x" if "x \<in> set (tl bs)" for x using r that by (auto simp: ring_def)
  have "set ys \<subseteq> set (tl bs)" using d by (cases xs) auto
  then have up: "bp + HDR * n \<le> b" if "(b, m) \<in> set ys" for b m
  proof -
    have "0 < m" "bp \<le> b" using that tl [of "(b, m)"] ys \<open>set ys \<subseteq> set (tl bs)\<close> by auto
    then have "0 < HDR * m" using HDR_pos by simp
    then have "\<not> b + HDR * m \<le> bp" using \<open>bp \<le> b\<close> by linarith
    then show ?thesis using ap [of "(b, m)"] that d by (auto simp: apart_def)
  qed
  then have up': "bp < b" if "(b, m) \<in> set ys" for b m using that bp(2) HDR_pos by (meson less_add_same_cancel1 less_le_trans mult_pos_pos)
  have low: "a + HDR * k \<le> bp" using ap [of "(a, k)"] a d by (auto simp: apart_def)
  have loop: "free_loop h bp (freep h) = Some a" by (rule free_loop_finds [OF r d bp(1) a up'])
  have notin: "bp \<notin> fst ` set ys" using up' by fastforce
  have nx: "bp \<notin> fst ` set xs" using sorted_before(3) [OF s] a by fastforce
  define h1 where "h1 = (if bp + HDR * bsize h bp = ptr h a
       then h\<lparr>bsize := (bsize h)(bp := bsize h bp + bsize h (ptr h a)), ptr := (ptr h)(bp := ptr h (ptr h a))\<rparr>
       else h\<lparr>ptr := (ptr h)(bp := ptr h a)\<rparr>)"
  obtain n' rest where j: "bsize h1 bp = n'" "chain h1 (ptr h1 bp) rest base" "n \<le> n'" "\<forall>x\<in>set rest. bp + HDR * n' < fst x"
    "sorted_wrt before rest" "set rest \<subseteq> set ys" "units ((bp, n') # rest) = units ((bp, n) # ys)"
    using join_upper [OF r' bp _ notin, folded h1_def] up by fastforce
  have same: "x \<noteq> bp \<Longrightarrow> ptr h1 x = ptr h x \<and> bsize h1 x = bsize h x" for x by (simp add: h1_def)
  have ka: "bsize h1 a = k" using same [of a] a ring_split(2) [OF r d] by simp
  define h2 where "h2 = (if a + HDR * bsize h1 a = bp
       then h1\<lparr>bsize := (bsize h1)(a := bsize h1 a + bsize h1 bp), ptr := (ptr h1)(a := ptr h1 bp)\<rparr>
       else h1\<lparr>ptr := (ptr h1)(a := bp)\<rparr>)"
  define bs' where "bs' = (if a + HDR * k = bp then xs @ (a, k + n') # rest else xs @ (a, k) # (bp, n') # rest)"
  have free: "u_free (bp + HDR) h = Some (h2\<lparr>freep := a\<rparr>)"
    using loop by (simp add: u_free_def h1_def h2_def Let_def)
  have frame: "x \<noteq> a \<Longrightarrow> x \<noteq> bp \<Longrightarrow> ptr h2 x = ptr h x \<and> bsize h2 x = bsize h x" for x using same [of x] by (simp add: h2_def)
  have ch: "chain h2 base xs a"
  proof -
    have "chain h2 base xs a = chain h base xs a"
      by (rule chain_cong, rule frame) (use ring_distinct [OF r'] nx in auto)
    then show ?thesis using ring_split(1) [OF r d] by simp
  qed
  have "a \<notin> fst ` set rest" "bp \<notin> fst ` set rest" using ring_distinct [OF r'] notin j(6) by auto
  then have "chain h2 x rest base = chain h1 x rest base" for x
    by (intro chain_cong) (use frame same in metis)
  then have cr: "chain h2 (ptr h1 bp) rest base" using j(2) by simp
  have rg: "ring base (h2\<lparr>freep := a\<rparr>) bs'"
  proof -
    have c: "chain h2 base bs' base"
      using ch cr ka j(1) a by (auto simp: bs'_def h2_def chain_mid)
    have k: "chain (h2\<lparr>freep := a\<rparr>) base bs' base = chain h2 base bs' base" by (rule chain_cong) simp
    have "\<forall>x\<in>set xs. \<forall>y\<in>set rest. before x y" using s j(6) by (auto simp: sorted_wrt_append)
    then have "sorted_wrt before bs'"
      using s j(4,5) low a by (auto simp: bs'_def sorted_wrt_append before_def distrib_left less_trans less_imp_le)
    moreover have "hd bs' = (base, 0)" using hd a by (cases xs) (simp_all add: bs'_def)
    moreover have "\<forall>b\<in>set (tl bs'). 0 < snd b"
      using tl j(3,6) bp(2) unfolding d bs'_def by (cases xs) (simp_all, (fastforce simp: subset_eq)+)
    moreover have "bs' \<noteq> []" "a \<in> fst ` set bs'" "0 < base" using r by (auto simp: bs'_def ring_def)
    ultimately show ?thesis using c k by (simp add: ring_def)
  qed
  have "{a..<a + HDR * (k + n')} = {a..<bp} \<union> {bp..<bp + HDR * n'}" if "a + HDR * k = bp"
    using span_join [OF that] .
  then have "units bs' = units bs \<union> {bp..<bp + HDR * n}"
    using j(7) unfolding bs'_def d by (cases "a + HDR * k = bp") (simp_all, blast+)
  moreover have "\<exists>x\<in>set bs'. n \<le> snd x" using j(3) by (auto simp: bs'_def)
  ultimately show ?thesis using free rg frame d by (intro exI [of _ "h2\<lparr>freep := a\<rparr>"] exI [of _ bs']) auto
qed

section \<open>Allocating\<close>

lemma malloc_walk:
  "chain h x us y \<Longrightarrow> ptr h prev = x \<Longrightarrow> \<forall>u\<in>set us. snd u < nunits \<and> fst u \<noteq> freep h \<Longrightarrow>
    \<exists>c. (c = prev \<or> c \<in> fst ` set us) \<and> ptr h c = y \<and>
      malloc_loop sbrk nunits prev x st h = malloc_loop sbrk nunits c y st h"
proof (induction us arbitrary: x prev)
  case (Cons u us)
  obtain a n where u: "u = (a, n)" by fastforce
  then have a: "x = a" "n < nunits" "a \<noteq> freep h" "bsize h a = n" using Cons.prems(1,3) by auto
  then have "malloc_loop sbrk nunits prev x st h = malloc_loop sbrk nunits a (ptr h a) st h"
    by (subst malloc_loop.simps) simp
  moreover obtain c where "c = a \<or> c \<in> fst ` set us" "ptr h c = y"
    "malloc_loop sbrk nunits a (ptr h a) st h = malloc_loop sbrk nunits c y st h"
    using Cons.IH [of "ptr h a" a] Cons.prems u by auto
  ultimately show ?case using u by (intro exI [of _ c]) auto
qed auto

lemma ring_round:
  assumes r: "ring base h bs"
  obtains order nf where "chain h (ptr h (freep h)) (order @ [(freep h, nf)]) (ptr h (freep h))" "set (order @ [(freep h, nf)]) = set bs"
    "freep h \<notin> fst ` set order"
proof -
  obtain nf where "(freep h, nf) \<in> set bs" using r by (auto simp: ring_def)
  then obtain xs ys where d: "bs = xs @ (freep h, nf) # ys" by (meson split_list)
  have "chain h (ptr h (freep h)) ((ys @ xs) @ [(freep h, nf)]) (ptr h (freep h))"
    using ring_split [OF r d] by (auto simp: chain_append)
  moreover have "freep h \<notin> fst ` set (ys @ xs)" using ring_distinct [of base h xs "freep h" nf ys] r d by auto
  ultimately show thesis using that [of "ys @ xs" nf] d by auto
qed

lemma ring_prev:
  assumes r: "ring base h bs" and "(b, t) \<in> set bs" "0 < t" "c \<in> fst ` set bs" "ptr h c = b"
  obtains us m vs where "bs = us @ (c, m) # (b, t) # vs"
proof -
  obtain m us vs where d: "bs = us @ (c, m) # vs" using assms(4) by (metis (no_types, lifting) imageE prod.collapse split_list)
  have sz: "chain h base bs base" "bs \<noteq> []" "hd bs = (base, 0)" using r by (auto simp: ring_def)
  then have "bsize h b = t" "bsize h base = 0" using chain_size [OF sz(1)] assms(2) hd_in_set [of bs] by auto
  then have "b \<noteq> base" using assms(3) by auto
  then obtain t' ws where v: "vs = (b, t') # ws" using ring_split(4) [OF r d] assms(5) by (cases vs) auto
  then have "t' = t" using chain_size [OF sz(1), of b t'] d \<open>bsize h b = t\<close> by simp
  then show thesis using that d v by blast
qed

lemma search_found:
  assumes r: "ring base h bs" and "\<exists>x\<in>set bs. nunits \<le> snd x" "0 < nunits"
  obtains us c m b t vs where "bs = us @ (c, m) # (b, t) # vs" "nunits \<le> t"
    "malloc_loop sbrk nunits (freep h) (ptr h (freep h)) st h = (case take_block nunits c b h of (r, h) \<Rightarrow> Some (r, st, h))"
proof -
  obtain order nf where o: "chain h (ptr h (freep h)) (order @ [(freep h, nf)]) (ptr h (freep h))"
    "set (order @ [(freep h, nf)]) = set bs" "freep h \<notin> fst ` set order" using ring_round [OF r] by blast
  have "\<exists>x\<in>set (order @ [(freep h, nf)]). nunits \<le> snd x" using assms(2) o(2) by simp
  then obtain us b t vs where s: "order @ [(freep h, nf)] = us @ (b, t) # vs" "nunits \<le> t" "\<forall>y\<in>set us. \<not> nunits \<le> snd y"
    using split_list_first_prop [of "order @ [(freep h, nf)]" "\<lambda>x. nunits \<le> snd x"] by (metis prod.collapse snd_conv)
  have "set us \<subseteq> set order" using arg_cong [OF s(1), of butlast] by (metis butlast_append butlast_snoc list.distinct(1) set_append sup_ge1)
  then have us: "\<forall>u\<in>set us. snd u < nunits \<and> fst u \<noteq> freep h" using s(3) o(3) by force
  have ch: "chain h (ptr h (freep h)) us b" "bsize h b = t" using o(1) unfolding s(1) by (auto simp: chain_mid)
  obtain c where c: "c = freep h \<or> c \<in> fst ` set us" "ptr h c = b"
    "malloc_loop sbrk nunits (freep h) (ptr h (freep h)) st h = malloc_loop sbrk nunits c b st h"
    using malloc_walk [OF ch(1) refl us, where sbrk = sbrk and st = st] by (elim exE conjE) (rule that)
  have sub: "set us \<subseteq> set bs" "(b, t) \<in> set bs" using o(2) unfolding s(1) by auto
  moreover have "c \<in> fst ` set bs" using c(1) r image_mono [OF sub(1), of fst] by (auto simp: ring_def)
  ultimately obtain us' m vs' where d: "bs = us' @ (c, m) # (b, t) # vs'" using ring_prev [OF r _ _ _ c(2)] s(2) assms(3) by (metis less_le_trans)
  have "malloc_loop sbrk nunits c b st h = (case take_block nunits c b h of (r, h) \<Rightarrow> Some (r, st, h))"
    using ch(2) s(2) by (subst malloc_loop.simps) simp
  then show thesis using that [OF d s(2)] c(3) by simp
qed

lemma search_none:
  assumes r: "ring base h bs" and "\<forall>x\<in>set bs. snd x < nunits"
  shows "malloc_loop sbrk nunits (freep h) (ptr h (freep h)) st h = do {
     (p, st, h) \<leftarrow> morecore sbrk nunits st h;
     if p = 0 then Some (0, st, h) else malloc_loop sbrk nunits p (ptr h p) st h}"
proof -
  obtain order nf where o: "chain h (ptr h (freep h)) (order @ [(freep h, nf)]) (ptr h (freep h))"
    "set (order @ [(freep h, nf)]) = set bs" "freep h \<notin> fst ` set order" using ring_round [OF r] by blast
  have us: "\<forall>u\<in>set order. snd u < nunits \<and> fst u \<noteq> freep h" using assms(2) o(2,3) by force
  have ch: "chain h (ptr h (freep h)) order (freep h)" "bsize h (freep h) = nf" using o(1) by (auto simp: chain_mid)
  have "(freep h, nf) \<in> set bs" using o(2) by auto
  then have "nf < nunits" using assms(2) by auto
  then have "malloc_loop sbrk nunits c (freep h) st h = do {
     (p, st, h) \<leftarrow> morecore sbrk nunits st h;
     if p = 0 then Some (0, st, h) else malloc_loop sbrk nunits p (ptr h p) st h}" for c
    using ch(2) by (subst malloc_loop.simps) simp
  then show ?thesis using malloc_walk [OF ch(1) refl us, where sbrk = sbrk and st = st] by metis
qed

text \<open>Taking a block, or its tail, leaves a ring without it.\<close>

lemma sorted_disjoint:
  assumes "sorted_wrt before (us @ (c, n) # vs)"
  shows "units (us @ vs) \<inter> {c..<c + HDR * n} = {}"
  using sorted_before(1,2) [OF assms] unfolding units_def by fastforce

lemma ring_shrink:
  assumes r: "ring base h (us @ (c, m) # (b, t) # vs)" and ch: "chain h' base (us @ (c, m) # w @ vs) base" "freep h' = c"
    and w: "w = [] \<or> (\<exists>t'. w = [(b, t')] \<and> 0 < t' \<and> t' \<le> t)"
  shows "ring base h' (us @ (c, m) # w @ vs)"
proof -
  have s: "sorted_wrt before us" "sorted_wrt before vs" "\<forall>y\<in>set vs. before (c, m) y \<and> before (b, t) y" "before (c, m) (b, t)"
    "\<forall>x\<in>set us. before x (c, m) \<and> before x (b, t) \<and> (\<forall>y\<in>set vs. before x y)"
    using r by (auto simp: ring_def sorted_wrt_append)
  have "before (b, t') y" if "t' \<le> t" "y \<in> set vs" for t' y
  proof -
    have "b + HDR * t < fst y" using s(3) that(2) by (simp add: before_def)
    moreover have "HDR * t' \<le> HDR * t" using that(1) by (rule mult_le_mono2)
    ultimately have "b + HDR * t' < fst y" by linarith
    then show ?thesis by (simp add: before_def)
  qed
  moreover have "before x (b, t')" if "before x (b, t)" for x t' using that by (simp add: before_def)
  ultimately have "sorted_wrt before (us @ (c, m) # w @ vs)" using s w by (auto simp: sorted_wrt_append)
  moreover have "hd (us @ (c, m) # w @ vs) = (base, 0)" using ringD(2) [OF r] by (cases us) simp_all
  moreover have "\<forall>x\<in>set (tl (us @ (c, m) # w @ vs)). 0 < snd x"
  proof -
    have "\<forall>x\<in>set (tl (us @ (c, m) # (b, t) # vs)). 0 < snd x" using ringD(3) [OF r] by blast
    then show ?thesis using w by (cases us) auto
  qed
  ultimately show ?thesis using ch ringD(7) [OF r] by (simp add: ring_def)
qed

lemma take_ring:
  assumes r: "ring base h bs" and d: "bs = us @ (c, m) # (b, t) # vs" and n: "0 < nunits" "nunits \<le> t"
  shows "\<exists>bp h' bs'. take_block nunits c b h = (bp + HDR, h') \<and> ring base h' bs' \<and> bsize h' bp = nunits \<and> base < bp \<and>
    units bs' \<union> {bp..<bp + HDR * nunits} = units bs \<and> units bs' \<inter> {bp..<bp + HDR * nunits} = {} \<and>
    (\<forall>x. x \<notin> units bs \<longrightarrow> bsize h' x = bsize h x)"
proof -
  have r': "ring base h (us @ (c, m) # (b, t) # vs)" "ring base h ((us @ [(c, m)]) @ (b, t) # vs)" using r d by simp_all
  then have s: "sorted_wrt before ((us @ [(c, m)]) @ (b, t) # vs)" by (simp add: ring_def)
  have p: "chain h base us c" "bsize h c = m" "ptr h c = b" "bsize h b = t" "chain h (ptr h b) vs base"
    using r' by (auto simp: ring_def chain_append)
  have cb: "base \<le> c" "c < b" using ring_base_le [OF r, of c m] sorted_before(3) [OF s, of c m] d by simp_all
  have nin: "c \<notin> fst ` set us" "c \<notin> fst ` set vs" "b \<notin> fst ` set us" "b \<notin> fst ` set vs"
    using ring_distinct [OF r'(1)] ring_distinct [OF r'(2)] by auto
  have dj: "units (us @ (c, m) # vs) \<inter> {b..<b + HDR * t} = {}" using sorted_disjoint [OF s] by simp
  have ubs: "units bs = units (us @ (c, m) # vs) \<union> {b..<b + HDR * t}" unfolding d units_simps by auto
  show ?thesis
  proof (cases "t = nunits")
    case True
    define h' where "h' = h\<lparr>ptr := (ptr h)(c := ptr h b), freep := c\<rparr>"
    have "chain h' x us e = chain h x us e" "chain h' x vs e = chain h x vs e" for x e
      by (rule chain_cong; use nin in \<open>auto simp: h'_def\<close>)+
    then have "chain h' base (us @ (c, m) # [] @ vs) base" using p by (simp add: chain_mid h'_def)
    then have "ring base h' (us @ (c, m) # [] @ vs)" by (rule ring_shrink [OF r'(1)]) (simp_all add: h'_def)
    moreover have "take_block nunits c b h = (b + HDR, h')" using True p by (simp add: take_block_def h'_def)
    moreover have "bsize h' = bsize h" by (simp add: h'_def)
    ultimately show ?thesis using dj ubs True p le_less_trans [OF cb] by (intro exI [of _ b] exI [of _ h'] exI [of _ "us @ (c, m) # vs"]) simp
  next
    case False
    define bp where "bp = b + HDR * (t - nunits)"
    define h' where "h' = h\<lparr>bsize := (bsize h)(b := t - nunits, bp := nunits), freep := c\<rparr>"
    have tn: "0 < t - nunits" "t - nunits \<le> t" using False n by simp_all
    have bp: "b < bp" "bp + HDR * nunits = b + HDR * t" using tn(1) n HDR_pos by (auto simp: bp_def simp flip: distrib_left)
    moreover have "0 < HDR * nunits" using n HDR_pos by simp
    ultimately have top: "bp < b + HDR * t" by linarith
    then have iv: "{b..<b + HDR * t} = {b..<bp} \<union> {bp..<b + HDR * t}" using bp(1) by auto
    have out: "x \<noteq> b \<and> x \<noteq> bp" if "x \<notin> units bs" for x using that bp top unfolding ubs by auto
    have nb: "bp \<notin> fst ` set us" "bp \<notin> fst ` set vs"
      using sorted_before(2,3) [OF s, of bp] bp(1) top by fastforce+
    have "chain h' x us e = chain h x us e" "chain h' x vs e = chain h x vs e" for x e
      by (rule chain_cong; use nin nb in \<open>auto simp: h'_def\<close>)+
    moreover have "bsize h' c = m" using cb bp(1) p by (simp add: h'_def)
    ultimately have "chain h' base (us @ (c, m) # [(b, t - nunits)] @ vs) base" using p bp(1) by (simp add: chain_mid h'_def)
    then have "ring base h' (us @ (c, m) # [(b, t - nunits)] @ vs)" by (rule ring_shrink [OF r'(1)]) (use tn in \<open>simp_all add: h'_def\<close>)
    moreover have "take_block nunits c b h = (bp + HDR, h')" using False p by (simp add: take_block_def h'_def bp_def Let_def)
    moreover have u: "units (us @ (c, m) # [(b, t - nunits)] @ vs) = units (us @ (c, m) # vs) \<union> {b..<bp}"
      unfolding bp_def units_simps fst_conv snd_conv by blast
    have "units (us @ (c, m) # [(b, t - nunits)] @ vs) \<union> {bp..<bp + HDR * nunits} = units bs"
      unfolding u ubs iv bp(2) by blast
    moreover have "units (us @ (c, m) # [(b, t - nunits)] @ vs) \<inter> {bp..<bp + HDR * nunits} = {}"
      using dj unfolding u iv bp(2) by fastforce
    moreover have "bsize h' bp = nunits" "\<forall>x. x \<notin> units bs \<longrightarrow> bsize h' x = bsize h x" using out by (simp_all add: h'_def)
    moreover have "base < bp" using cb bp(1) by linarith
    ultimately show ?thesis by blast
  qed
qed

section \<open>The allocator as a whole\<close>

definition span :: "block \<Rightarrow> nat set" where "span x = {fst x..<fst x + HDR * snd x}"

text \<open>
  The free blocks \<open>bs\<close> and the blocks in use \<open>A\<close> are disjoint and together are exactly the memory from \<open>start\<close> to the break.
\<close>

definition heap_ok :: "nat \<Rightarrow> nat \<Rightarrow> nat \<Rightarrow> heap \<Rightarrow> block list \<Rightarrow> block set \<Rightarrow> bool" where
  "heap_ok base start brk h bs A \<longleftrightarrow> ring base h bs \<and> base < start \<and> start \<le> brk \<and>
     (\<forall>x\<in>A. 0 < snd x \<and> bsize h (fst x) = snd x) \<and> pairwise (\<lambda>x y. span x \<inter> span y = {}) A \<and>
     units bs \<inter> (\<Union>x\<in>A. span x) = {} \<and> units bs \<union> (\<Union>x\<in>A. span x) = {start..<brk}"

lemma heap_okD:
  assumes "heap_ok base start brk h bs A"
  shows "ring base h bs" "base < start" "start \<le> brk" "\<And>x. x \<in> A \<Longrightarrow> 0 < snd x" "\<And>x. x \<in> A \<Longrightarrow> bsize h (fst x) = snd x"
    "\<And>x y. x \<in> A \<Longrightarrow> y \<in> A \<Longrightarrow> x \<noteq> y \<Longrightarrow> span x \<inter> span y = {}" "\<And>x. x \<in> A \<Longrightarrow> units bs \<inter> span x = {}"
    "units bs \<union> (\<Union>x\<in>A. span x) = {start..<brk}" "\<And>x. x \<in> A \<Longrightarrow> span x \<subseteq> {start..<brk}"
proof -
  show 1: "ring base h bs" "base < start" "start \<le> brk" "units bs \<union> (\<Union>x\<in>A. span x) = {start..<brk}"
    using assms by (simp_all add: heap_ok_def)
  show "0 < snd x" "bsize h (fst x) = snd x" if "x \<in> A" for x using assms that by (simp_all add: heap_ok_def)
  show "span x \<inter> span y = {}" if "x \<in> A" "y \<in> A" "x \<noteq> y" for x y using assms that unfolding heap_ok_def pairwise_def by metis
  show "units bs \<inter> span x = {}" if "x \<in> A" for x
  proof -
    have "units bs \<inter> (\<Union>x\<in>A. span x) = {}" using assms by (simp add: heap_ok_def)
    then show ?thesis using that by blast
  qed
  show "span x \<subseteq> {start..<brk}" if "x \<in> A" for x unfolding 1(4) [symmetric] using that by blast
qed

lemma fst_span: "0 < snd x \<Longrightarrow> fst x \<in> span x"
  using HDR_pos by (simp add: span_def)

lemma disjoint_apart: "span x \<inter> span y = {} \<Longrightarrow> 0 < snd x \<Longrightarrow> 0 < snd y \<Longrightarrow> apart x y"
proof (rule ccontr)
  assume d: "span x \<inter> span y = {}" "0 < snd x" "0 < snd y" "\<not> apart x y"
  have "fst y \<in> span x \<or> fst x \<in> span y" using d(4) by (auto simp: apart_def span_def)
  then show False using d(1) fst_span [OF d(2)] fst_span [OF d(3)] by blast
qed

lemma ring_member:
  assumes "ring base h bs" "x \<in> set bs"
  shows "x = (base, 0) \<or> 0 < snd x \<and> span x \<subseteq> units bs"
proof -
  have "x = hd bs \<or> x \<in> set (tl bs)" using assms(2) by (cases bs) auto
  then show ?thesis
  proof
    assume "x \<in> set (tl bs)"
    then have "0 < snd x" by (rule ringD(3) [OF assms(1)])
    then show ?thesis using assms(2) by (auto simp: units_def span_def)
  qed (simp add: ringD(2) [OF assms(1)])
qed

lemma ring_heads: "ring base h bs \<Longrightarrow> a \<in> fst ` set bs \<Longrightarrow> a = base \<or> a \<in> units bs"
proof (elim imageE)
  fix x assume "ring base h bs" "a = fst x" "x \<in> set bs"
  then show ?thesis using ring_member [of base h bs x] fst_span [of x] by auto
qed

lemma above_base: "heap_ok base start brk h bs A \<Longrightarrow> x \<in> A \<Longrightarrow> base < fst x"
proof -
  assume a: "heap_ok base start brk h bs A" "x \<in> A"
  have "fst x \<in> {start..<brk}" using heap_okD(9) [OF a] fst_span [OF heap_okD(4) [OF a]] by (rule subsetD)
  then show ?thesis using heap_okD(2) [OF a(1)] by simp
qed

lemma free_ok:
  assumes ok: "heap_ok base start brk h bs A" and a: "(a, n) \<in> A"
  shows "\<exists>h' bs'. u_free (a + HDR) h = Some h' \<and> heap_ok base start brk h' bs' (A - {(a, n)}) \<and> (\<exists>x\<in>set bs'. n \<le> snd x)"
proof -
  note D = heap_okD [OF ok]
  have ap: "apart x (a, n)" if "x \<in> set bs" for x
    using ring_member [OF D(1) that] above_base [OF ok a] disjoint_apart [of x "(a, n)"] D(4,7) [OF a] by (auto simp: apart_def)
  have fr: "base < a" "0 < n" "bsize h a = n" using above_base [OF ok a] D(4,5) [OF a] by simp_all
  obtain h' bs' where f: "u_free (a + HDR) h = Some h'" "ring base h' bs'" "units bs' = units bs \<union> span (a, n)" "\<exists>x\<in>set bs'. n \<le> snd x"
    "\<forall>x. x \<notin> fst ` set bs \<longrightarrow> x \<noteq> a \<longrightarrow> bsize h' x = bsize h x"
    using free_ring [OF D(1) fr ap] unfolding span_def fst_conv snd_conv by blast
  have "bsize h' (fst x) = snd x" if x: "x \<in> A - {(a, n)}" for x
  proof -
    have xs: "fst x \<in> span x" using fst_span D(4) x by simp
    have "a \<in> span (a, n)" using fst_span [of "(a, n)"] fr(2) by simp
    moreover have "span x \<inter> span (a, n) = {}" using D(6) [of x "(a, n)"] a x by simp
    ultimately have "fst x \<noteq> a" using xs by (metis disjoint_iff)
    moreover have "fst x \<notin> units bs" "fst x \<noteq> base" using D(7) [of x] xs above_base [OF ok, of x] x by auto
    then have "fst x \<notin> fst ` set bs" using ring_heads [OF D(1)] by blast
    ultimately show ?thesis using f(5) D(5) x by simp
  qed
  moreover have "units bs' \<inter> (\<Union>x\<in>A - {(a, n)}. span x) = {}"
    unfolding f(3) using D(6) [OF a] D(7) by (simp add: Int_Un_distrib2) blast
  moreover have "units bs' \<union> (\<Union>x\<in>A - {(a, n)}. span x) = {start..<brk}"
    unfolding f(3) D(8) [symmetric] using a by blast
  moreover have "pairwise (\<lambda>x y. span x \<inter> span y = {}) (A - {(a, n)})"
    using ok unfolding heap_ok_def by (auto intro: pairwise_subset)
  ultimately have "heap_ok base start brk h' bs' (A - {(a, n)})" unfolding heap_ok_def using f(2) D(2,3,4) by simp
  then show ?thesis using f(1,4) by (intro exI [of _ h'] exI [of _ bs'] conjI)
qed

lemma take_ok:
  assumes ok: "heap_ok base start brk h bs A" and fit: "\<exists>x\<in>set bs. nunits \<le> snd x" "0 < nunits"
  shows "\<exists>bp h' bs'. malloc_loop sbrk nunits (freep h) (ptr h (freep h)) st h = Some (bp + HDR, st, h') \<and>
    heap_ok base start brk h' bs' (insert (bp, nunits) A) \<and> (\<forall>x\<in>A. span x \<inter> span (bp, nunits) = {})"
proof -
  note D = heap_okD [OF ok]
  obtain us c m b t vs where s: "bs = us @ (c, m) # (b, t) # vs" "nunits \<le> t"
    "malloc_loop sbrk nunits (freep h) (ptr h (freep h)) st h = (case take_block nunits c b h of (r, h) \<Rightarrow> Some (r, st, h))"
    by (rule search_found [OF D(1) fit, where sbrk = sbrk and st = st])
  obtain bp h' bs' where t: "take_block nunits c b h = (bp + HDR, h')" "ring base h' bs'" "bsize h' bp = nunits"
    "units bs' \<union> span (bp, nunits) = units bs" "units bs' \<inter> span (bp, nunits) = {}" "\<forall>x. x \<notin> units bs \<longrightarrow> bsize h' x = bsize h x"
    using take_ring [OF D(1) s(1) fit(2) s(2)] unfolding span_def fst_conv snd_conv by blast
  have new: "\<forall>x\<in>A. span x \<inter> span (bp, nunits) = {}" using D(7) t(4) by blast
  have "bsize h' (fst x) = snd x" if "x \<in> A" for x
    using t(6) D(5,7) [OF that] fst_span [OF D(4) [OF that]] by auto
  moreover have "units bs' \<inter> (\<Union>x\<in>insert (bp, nunits) A. span x) = {}"
    using t(5) D(7) unfolding t(4) [symmetric] by blast
  moreover have "units bs' \<union> (\<Union>x\<in>insert (bp, nunits) A. span x) = {start..<brk}"
    unfolding D(8) [symmetric] t(4) [symmetric] by blast
  moreover have "pairwise (\<lambda>x y. span x \<inter> span y = {}) (insert (bp, nunits) A)"
    using D(6) new unfolding pairwise_def by (metis Int_commute insert_iff)
  ultimately have "heap_ok base start brk h' bs' (insert (bp, nunits) A)" unfolding heap_ok_def using t(2,3) D(2,3,4) fit(2) by simp
  then show ?thesis using s(3) t(1) new by (intro exI [of _ bp] exI [of _ h'] exI [of _ bs']) simp
qed

text \<open>The contract of \<open>sbrk\<close>: it grows the memory at the break by what is asked, or leaves it as it is.\<close>

definition sbrk_ok :: "(int \<Rightarrow> 's \<Rightarrow> nat option \<times> 's) \<Rightarrow> ('s \<Rightarrow> nat) \<Rightarrow> bool" where
  "sbrk_ok sbrk brk \<longleftrightarrow> (\<forall>n st. 0 \<le> n \<longrightarrow>
     (case sbrk n st of (None, st') \<Rightarrow> brk st' = brk st | (Some p, st') \<Rightarrow> p = brk st \<and> brk st' = brk st + nat n))"

lemma grown_ok:
  assumes ok: "heap_ok base start brk h bs A" and n: "0 < n"
  shows "heap_ok base start (brk + HDR * n) (h\<lparr>bsize := (bsize h)(brk := n)\<rparr>) bs (insert (brk, n) A)" "(brk, n) \<notin> A"
proof -
  note D = heap_okD [OF ok]
  let ?h = "h\<lparr>bsize := (bsize h)(brk := n)\<rparr>"
  have new: "span (brk, n) = {brk..<brk + HDR * n}" by (simp add: span_def)
  have old: "x \<in> A \<Longrightarrow> fst x < brk" for x using subsetD [OF D(9) fst_span [OF D(4)]] by simp
  then show "(brk, n) \<notin> A" by fastforce
  have ub: "units bs \<subseteq> {start..<brk}" using D(8) by blast
  have "x \<noteq> brk" if "x \<in> fst ` set bs" for x using ring_heads [OF D(1) that] ub D(2,3) by auto
  then have "chain ?h base bs base = chain h base bs base" by (intro chain_cong) simp
  then have r: "ring base ?h bs" using D(1) by (simp add: ring_def)
  have ad: "{start..<brk} \<union> {brk..<brk + HDR * n} = {start..<brk + HDR * n}" using D(3) by auto
  have "units bs \<inter> (\<Union>x\<in>insert (brk, n) A. span x) = {}" using ub D(7) by (auto simp: new)
  moreover have "units bs \<union> (\<Union>x\<in>insert (brk, n) A. span x) = {start..<brk + HDR * n}"
    unfolding ad [symmetric] D(8) [symmetric] using new by blast
  moreover have "span x \<inter> span (brk, n) = {}" if "x \<in> A" for x using D(9) [OF that] new by fastforce
  then have "pairwise (\<lambda>x y. span x \<inter> span y = {}) (insert (brk, n) A)"
    using D(6) unfolding pairwise_def by (metis Int_commute insert_iff)
  moreover have "\<forall>x\<in>insert (brk, n) A. 0 < snd x \<and> bsize ?h (fst x) = snd x" using D(4,5) old n by fastforce
  ultimately show "heap_ok base start (brk + HDR * n) ?h bs (insert (brk, n) A)"
    unfolding heap_ok_def using r D(2,3) by simp
qed

lemma morecore_ok:
  assumes ok: "heap_ok base start (brk st) h bs A" and sb: "sbrk_ok sbrk brk" and n: "HDR * nunits < 2 ^ 31"
  shows "(\<exists>st'. morecore sbrk nunits st h = Some (0, st', h) \<and> brk st' = brk st) \<or>
    (\<exists>st' h' bs'. morecore sbrk nunits st h = Some (freep h', st', h') \<and> heap_ok base start (brk st') h' bs' A \<and> (\<exists>x\<in>set bs'. nunits \<le> snd x))"
proof -
  define nu where "nu = (if nunits < 4096 then 4096 else nunits)"
  have nu: "0 < nu" "nunits \<le> nu" "nu * HDR < 2 ^ 31" using n by (auto simp: nu_def HDR_def)
  have arg: "sint (of_nat (nu * HDR) :: uint) = int (nu * HDR)" using nu(3) by (rule sint_of_nat_small)
  obtain r st' where s: "sbrk (int (nu * HDR)) st = (r, st')" by fastforce
  have law: "case sbrk (int (nu * HDR)) st of (None, st') \<Rightarrow> brk st' = brk st | (Some p, st') \<Rightarrow> p = brk st \<and> brk st' = brk st + nu * HDR"
    using sb [unfolded sbrk_ok_def, rule_format, of "int (nu * HDR)" st, OF of_nat_0_le_iff] by (simp only: nat_int)
  show ?thesis
  proof (cases r)
    case None
    then show ?thesis using s law arg by (simp add: morecore_def Let_def flip: nu_def)
  next
    case (Some p)
    then have p: "p = brk st" "brk st' = brk st + HDR * nu" using law s by (simp_all add: mult.commute)
    let ?h = "h\<lparr>bsize := (bsize h)(p := nu)\<rparr>"
    have "(brk st, nu) \<in> insert (brk st, nu) A" by simp
    from free_ok [OF grown_ok(1) [OF ok nu(1)] this]
    obtain h' bs' where f: "u_free (p + HDR) ?h = Some h'" "heap_ok base start (brk st') h' bs' A" "\<exists>x\<in>set bs'. nu \<le> snd x"
      using grown_ok(2) [OF ok nu(1)] p by auto
    have "morecore sbrk nunits st h = Some (freep h', st', h')"
      using s arg Some f(1) by (simp add: morecore_def Let_def flip: nu_def)
    then show ?thesis using f(2,3) nu(2) le_trans by blast
  qed
qed

lemma nunits_of_enough: "0 < nunits_of nbytes" "nbytes \<le> HDR * (nunits_of nbytes - 1)"
  by (simp_all add: nunits_of_def HDR_def)

lemma ring_freep: "ring base h bs \<Longrightarrow> freep h \<noteq> 0"
  using ringD(6,7) ring_base_le by fastforce

lemma heap_init_again: "ring base h bs \<Longrightarrow> heap_init base h = h"
  by (simp add: heap_init_def ring_freep)

lemma malloc_ok:
  assumes ok: "heap_ok base start (brk st) (heap_init base h) bs A" and sb: "sbrk_ok sbrk brk"
    and n: "HDR * nunits_of nbytes < 2 ^ 31"
  shows "\<exists>r st' h' bs' A'. u_malloc base sbrk nbytes st h = Some (r, st', h') \<and> heap_ok base start (brk st') h' bs' A' \<and>
    (if r = 0 then A' = A \<and> (\<forall>x\<in>set bs. snd x < nunits_of nbytes)
     else \<exists>bp. r = bp + HDR \<and> A' = insert (bp, nunits_of nbytes) A \<and> (\<forall>x\<in>A. span x \<inter> span (bp, nunits_of nbytes) = {}))"
proof -
  let ?h = "heap_init base h" and ?n = "nunits_of nbytes"
  have m: "u_malloc base sbrk nbytes st h = malloc_loop sbrk ?n (freep ?h) (ptr ?h (freep ?h)) st ?h"
    by (simp add: u_malloc_def Let_def)
  show ?thesis
  proof (cases "\<exists>x\<in>set bs. ?n \<le> snd x")
    case True
    obtain bp h' bs' where "u_malloc base sbrk nbytes st h = Some (bp + HDR, st, h')"
      "heap_ok base start (brk st) h' bs' (insert (bp, ?n) A)" "\<forall>x\<in>A. span x \<inter> span (bp, ?n) = {}"
      using take_ok [OF ok True nunits_of_enough(1), where sbrk = sbrk and st = st] m by metis
    then show ?thesis using HDR_pos by (intro exI conjI) (assumption | simp)+
  next
    case False
    then have small: "\<forall>x\<in>set bs. snd x < ?n" by (simp add: not_le)
    note none = search_none [OF heap_okD(1) [OF ok] small, of sbrk st]
    consider st' where "morecore sbrk ?n st ?h = Some (0, st', ?h)" "brk st' = brk st" |
      st' h' bs' where "morecore sbrk ?n st ?h = Some (freep h', st', h')" "heap_ok base start (brk st') h' bs' A" "\<exists>x\<in>set bs'. ?n \<le> snd x"
      using morecore_ok [OF ok sb n] by blast
    then show ?thesis
    proof cases
      case 1
      then have "u_malloc base sbrk nbytes st h = Some (0, st', ?h)" using m none by simp
      then show ?thesis using ok small 1(2) by (intro exI conjI) (assumption | simp)+
    next
      case 2
      obtain bp h'' bs'' where t: "malloc_loop sbrk ?n (freep h') (ptr h' (freep h')) st' h' = Some (bp + HDR, st', h'')"
        "heap_ok base start (brk st') h'' bs'' (insert (bp, ?n) A)" "\<forall>x\<in>A. span x \<inter> span (bp, ?n) = {}"
        using take_ok [OF 2(2,3) nunits_of_enough(1), where sbrk = sbrk and st = st'] by metis
      have "u_malloc base sbrk nbytes st h = Some (bp + HDR, st', h'')"
        using m none 2(1) t(1) ring_freep [OF heap_okD(1) [OF 2(2)]] by simp
      then show ?thesis using t(2,3) HDR_pos by (intro exI conjI) (assumption | simp)+
    qed
  qed
qed

text \<open>
  A program that uses the allocator: it starts with \<open>freep\<close> null and no blocks, it asks for blocks of less than 2 GB, and it
  frees blocks that it was given and has not freed. \<open>A\<close> holds the headers of the blocks it has.
\<close>

inductive user_heap :: "nat \<Rightarrow> (int \<Rightarrow> 's \<Rightarrow> nat option \<times> 's) \<Rightarrow> 's \<Rightarrow> heap \<Rightarrow> 's \<Rightarrow> heap \<Rightarrow> block set \<Rightarrow> bool"
  for base sbrk st0 h0 where
  uh_start: "freep h0 = 0 \<Longrightarrow> user_heap base sbrk st0 h0 st0 h0 {}"
| uh_malloc: "user_heap base sbrk st0 h0 st h A \<Longrightarrow> HDR * nunits_of nbytes < 2 ^ 31 \<Longrightarrow>
    u_malloc base sbrk nbytes st h = Some (r, st', h') \<Longrightarrow> r \<noteq> 0 \<Longrightarrow>
    user_heap base sbrk st0 h0 st' h' (insert (r - HDR, nunits_of nbytes) A)"
| uh_none: "user_heap base sbrk st0 h0 st h A \<Longrightarrow> HDR * nunits_of nbytes < 2 ^ 31 \<Longrightarrow>
    u_malloc base sbrk nbytes st h = Some (0, st', h') \<Longrightarrow> user_heap base sbrk st0 h0 st' h' A"
| uh_free: "user_heap base sbrk st0 h0 st h A \<Longrightarrow> (a, n) \<in> A \<Longrightarrow> u_free (a + HDR) h = Some h' \<Longrightarrow>
    user_heap base sbrk st0 h0 st h' (A - {(a, n)})"

lemma start_ok:
  assumes "freep h = 0" "0 < base" "base < brk"
  shows "heap_ok base brk brk (heap_init base h) [(base, 0)] {}"
  using assms by (simp add: heap_ok_def ring_def heap_init_def)

lemma user_heap_ok:
  assumes "user_heap base sbrk st0 h0 st h A" and sb: "sbrk_ok sbrk brk" and b: "0 < base" "base < brk st0"
  shows "(\<exists>bs. heap_ok base (brk st0) (brk st) (heap_init base h) bs A) \<and> (A = {} \<or> heap_init base h = h)"
  using assms(1)
proof induction
  case uh_start
  then show ?case using start_ok b by blast
next
  case (uh_malloc st h A nbytes r st' h')
  then obtain bs where ok: "heap_ok base (brk st0) (brk st) (heap_init base h) bs A" by blast
  obtain bs' where "heap_ok base (brk st0) (brk st') h' bs' (insert (r - HDR, nunits_of nbytes) A)"
    using malloc_ok [OF ok sb uh_malloc.hyps(2)] uh_malloc.hyps(3,4) by auto
  then show ?case using heap_init_again [OF heap_okD(1)] by fastforce
next
  case (uh_none st h A nbytes st' h')
  then obtain bs where ok: "heap_ok base (brk st0) (brk st) (heap_init base h) bs A" by blast
  obtain bs' where "heap_ok base (brk st0) (brk st') h' bs' A"
    using malloc_ok [OF ok sb uh_none.hyps(2)] uh_none.hyps(3) by auto
  then show ?case using heap_init_again [OF heap_okD(1)] by fastforce
next
  case (uh_free st h A a n h')
  then have h: "heap_init base h = h" by auto
  then obtain bs where ok: "heap_ok base (brk st0) (brk st) h bs A" using uh_free.IH by auto
  obtain bs' where "heap_ok base (brk st0) (brk st) h' bs' (A - {(a, n)})"
    using free_ok [OF ok uh_free.hyps(2)] uh_free.hyps(3) by auto
  then show ?case using heap_init_again [OF heap_okD(1)] by fastforce
qed

lemma span_room: "{bp..<bp + HDR + nbytes} \<subseteq> span (bp, nunits_of nbytes)"
  by (auto simp: span_def nunits_of_def HDR_def)



definition sample_sbrk :: "int \<Rightarrow> nat \<Rightarrow> nat option \<times> nat" where
  "sample_sbrk n brk = (if brk + nat n \<le> 1048576 then (Some brk, brk + nat n) else (None, brk))"

definition sample_heap :: heap where
  "sample_heap = \<lparr>ptr = \<lambda>_. 0, bsize = \<lambda>_. 0, freep = 0\<rparr>"

lemma sample_sbrk_ok: "sbrk_ok sample_sbrk (\<lambda>brk. brk)"
  by (simp add: sbrk_ok_def sample_sbrk_def)

lemma sample_malloc: "\<exists>h. u_malloc 16 sample_sbrk 10 4096 sample_heap = Some (69616, 69632, h)"
  by (simp add: u_malloc_def heap_init_def sample_heap_def nunits_of_def HDR_def malloc_loop.simps morecore_def sample_sbrk_def u_free_def
      free_loop.simps take_block_def Let_def)

lemma sample_user: "\<exists>h. user_heap 16 sample_sbrk 4096 sample_heap 69632 h {(69600, 2)}"
proof -
  obtain h where m: "u_malloc 16 sample_sbrk 10 4096 sample_heap = Some (69616, 69632, h)" using sample_malloc by blast
  have "user_heap 16 sample_sbrk 4096 sample_heap 4096 sample_heap {}" by (rule uh_start) (simp add: sample_heap_def)
  then have "user_heap 16 sample_sbrk 4096 sample_heap 69632 h (insert (69616 - HDR, nunits_of 10) {})"
    by (rule uh_malloc [OF _ _ m]) (simp_all add: nunits_of_def HDR_def)
  then show ?thesis by (auto simp: nunits_of_def HDR_def numeral_2_eq_2)
qed



text \<open>For a request of nearly 4 GB the argument of \<open>sbrk\<close> wraps to 0: no memory is obtained, and its size is recorded.\<close>

lemma morecore_wraps:
  "morecore sbrk (nunits_of 4294967280) st h =
     (case sbrk 0 st of (None, st) \<Rightarrow> Some (0, st, h)
      | (Some p, st) \<Rightarrow> do {
          h \<leftarrow> u_free (p + HDR) (h\<lparr>bsize := (bsize h)(p := 268435456)\<rparr>);
          Some (freep h, st, h)
        })"
  by (simp add: morecore_def nunits_of_def HDR_def)

end
