(* ===== verification/Spec2Isabelle.thy ===== *)
theory Spec2Isabelle
  imports Trap Recovery Shell Umalloc
begin

text \<open>
  Verification of the teaching system under src/: a kernel for RISC-V derived from xv6, extended by auditing of
  system calls, and parts of its user programs.

  \<^bold>\<open>How the code is modelled.\<close> The state of the kernel is a chain of records, each theory extending the record of the
  one before it: \<open>machine\<close> (harts, spinlocks, physical memory), \<open>kmem\<close> (the free list), \<open>procs\<close> (process table, sleep
  locks, the current process of each hart), \<open>pipes\<close>, \<open>devs\<close> (UART, console), \<open>disks\<close> (the virtio registers, the driver's
  rings, the disk itself, the buffers), \<open>logs\<close>, \<open>fss\<close> (super block, inode table), \<open>files\<close>, \<open>audits\<close>, \<open>traps\<close> (control
  registers, interrupt controller). Each C function is one function on that state in the option monad. \<open>None\<close> means that
  the call does not return by itself from that state: it panics, it spins on a lock that another hart holds, it would sleep
  with nobody to wake it, or the C code has undefined behaviour (an index past an array). The error returns of the C code
  are values. A call that may have to wait is cut where it sleeps: \<open>Sleeps ch\<close> with the channel, or \<open>Returns v\<close>; from File
  upwards only calls that need not wait go on. Integers have their C width; pages, page tables, free lists, pipes,
  trapframes and blocks are bytes of memory, and pointers into tables of structs are indices. A context switch is modelled by
  the code before it and the code after it (\<open>sched_out\<close>, \<open>sleep_out\<close>, \<open>exit_out\<close>, \<open>scheduler_pick\<close>, \<open>scheduler_back\<close>).

  \<^bold>\<open>What is outside.\<close> Devices are parameters: what the registers of the UART, of the disk and of the interrupt controller
  return is part of the state, and so is the function by which the disk serves its queue (\<open>device\<close>), of which \<open>serves\<close>
  states what the virtio specification promises: a request that was announced is carried out once and reported. The
  results of system calls are parameters of the user programs.

  \<^bold>\<open>Theories, in the order in which they build on each other.\<close>
  \<^item> Prelude: C integers, the monad, \<open>panic\<close>, little-endian values. Machine: kernel/param.h, types.h, memlayout.h, riscv.h,
    memory and harts.
  \<^item> Spinlock (spinlock.c): closed forms of a lock section (\<open>acquired\<close>, \<open>settle\<close>), mutual exclusion under any interleaving
    of the harts, nesting of \<open>push_off\<close>. Kstring (string.c): the copies for every overlap, bounds of the string copies.
  \<^item> Kalloc (kalloc.c): the list threaded through the free pages, its contract as a locale interpreted on \<open>kalloc\<close> and
    \<open>kfree\<close>. Vm, PageTable (vm.c): Vm holds the code, PageTable the three-level tree as a data structure and the proofs that
    \<open>mappages\<close> and \<open>uvmunmap\<close> update exactly the represented translation. Copy: \<open>copyin\<close>, \<open>copyout\<close> and \<open>copyinstr\<close> equal
    byte-wise copies.
  \<^item> ListHead (list.c): circular lists. Proc (proc.c, sleeplock.c): sleep, wakeup, kill and the scheduler, with an inductive
    relation for the moves of the harts: no process runs on two harts, no wakeup is lost. Ring: the ring buffers with wrapping
    counters, a locale interpreted for pipes, UART and console. Pipe (pipe.c), Uart (uart.c), Printf (printf.c), Console
    (console.c): bytes in order, the line editor, the text that printf denotes.
  \<^item> Virtio (virtio_disk.c, virtio.h, buf.h): a disk request runs to its end and transfers exactly one block. Bio (bio.c): the
    code of the buffer cache; Cache: the cache refines a map from block numbers to contents, counts and holders.
    Log (log.c): the code of the log; Recovery: commit and recovery on the abstract cache, and atomicity across crashes,
    with an inductive predicate for the disks a crash can leave, crashes during recovery included.
  \<^item> Fs (fs.c, fs.h): blocks, inodes, directories, path names; path splitting. File (file.c), Args (argument fetching of
    syscall.c), Sysfile (sysfile.c), AuditLog (file_helper.c, audit_source.c), Exec (exec.c, elf.h), Fork (fork, exit, wait and
    userinit of proc.c), Syscall (sysproc.c, syscall.c), Trap (trap.c, plic.c, start.c, main.c): the code down to every error
    path; what the audit trail records and selects.
  \<^item> Ulib (user/ulib.c), Grep (user/grep.c), Shell (user/sh.c), Umalloc (user/umalloc.c): user space. The matcher of grep decides
    its patterns and grep prints the matching lines; the shell's parser ends and yields well-formed commands; the allocator
    keeps its ring of free blocks sorted, coalesced and apart from the blocks in use.

  \<^bold>\<open>Loops and bounds.\<close> Loops over an index are recursion over the index list; loops with a measure are functions with a
  termination proof (the log, \<open>namex\<close>, \<open>gets\<close>, the scanner of the shell); loops that may run forever are partial functions into
  \<open>option\<close>, and theorems that they return are proved as such (\<open>strlen\<close>, the page-table loops, \<open>grep\<close>, \<open>malloc\<close>). The one fuel
  parameter is the depth of the shell's mutually recursive parser, 4 n + 4 for a line of n characters; that it suffices, and
  that more changes nothing, is a theorem. Block numbers are assumed below 2^31 where the driver doubles them to sectors
  (\<open>small\<close>). The crash theorem assumes that the log blocks and the home blocks are distinct and that the blocks of the
  transaction are pinned once logged, as \<open>log_write\<close> leaves them.

  \<^bold>\<open>Not modelled.\<close> The assembly files (entry.S, trampoline.S, kernelvec.S, swtch.S, user/initcode.S) save and restore
  registers; the handlers are modelled up to and from the points where they take over. Memory is sequentially consistent:
  fences are left out. kernel/ramdisk.c is not part of the kernel and does not compile with it. kernel/defs.h and user/user.h
  are declarations. mkfs/mkfs.c runs on the host on POSIX files. The user printf, the short user programs that only make
  system calls and print, and the test programs (usertests.c, grind.c and others) are left out: they have no behaviour of
  their own beyond the system calls they make. The array \<open>bruh\<close> and the local \<open>cur\<close> of syscall.c are written and never read.
\<close>

end
